(* ===== verification/Prelude.thy ===== *)
theory Prelude
  imports Main "HOL-Library.Sublist"
begin

section \<open>Shared vocabulary: faults, machine sizes, memory ranges\<close>

text \<open>
  What every component of the server uses: the result type of C++ code that can fail,
  the 64-bit \<open>size_t\<close> arithmetic, the checked 32-bit \<open>int\<close> increment, and the copying of
  byte ranges.  A run that does not return normally is a value of the left summand:
  \<^item> \<open>Assert_failed\<close>: an \<open>assert\<close> of the source is false (the build defines no
    \<open>NDEBUG\<close>, so the process aborts);
  \<^item> \<open>Undefined\<close>: the C++ standard gives the execution no meaning (an access out of
    bounds, a null pointer, a signed overflow);
  \<^item> \<open>Length_error\<close>, \<open>Out_of_range\<close>: the exceptions \<open>std::length_error\<close> and
    \<open>std::out_of_range\<close>, which no code of the repository catches.
\<close>

subsection \<open>Results\<close>

datatype fault = Assert_failed | Undefined | Length_error | Out_of_range

type_synonym 'a res = "fault + 'a"

definition res_bind :: "'a res \<Rightarrow> ('a \<Rightarrow> 'b res) \<Rightarrow> 'b res" where
  "res_bind m f = (case m of Inl e \<Rightarrow> Inl e | Inr x \<Rightarrow> f x)"

abbreviation assertR :: "bool \<Rightarrow> 'a res \<Rightarrow> 'a res" where
  "assertR c m \<equiv> (if c then m else Inl Assert_failed)"

abbreviation definedR :: "bool \<Rightarrow> 'a res \<Rightarrow> 'a res" where
  "definedR c m \<equiv> (if c then m else Inl Undefined)"

lemma res_bind_simps [simp]:
  "res_bind (Inl e) f = Inl e"
  "res_bind (Inr x) f = f x"
  by (simp_all add: res_bind_def)

lemma res_bind_eq_Inr [simp]:
  "res_bind m f = Inr y \<longleftrightarrow> (\<exists>x. m = Inr x \<and> f x = Inr y)"
  by (cases m) simp_all

lemma res_bind_assoc: "res_bind (res_bind m f) g = res_bind m (\<lambda>x. res_bind (f x) g)"
  by (cases m) simp_all

text \<open>A loop over a list whose body may fault: it stops at the first fault.\<close>

fun foldR :: "('x \<Rightarrow> 's \<Rightarrow> 's res) \<Rightarrow> 'x list \<Rightarrow> 's \<Rightarrow> 's res" where
  "foldR f [] s = Inr s"
| "foldR f (x # xs) s = res_bind (f x s) (foldR f xs)"

lemma foldR_append: "foldR f (xs @ ys) s = res_bind (foldR f xs s) (foldR f ys)"
  by (induction xs arbitrary: s) (simp_all add: res_bind_assoc res_bind_def split: sum.splits)

lemma foldR_invariant:
  assumes "\<And>x s. x \<in> set xs \<Longrightarrow> P s \<Longrightarrow> \<exists>s'. f x s = Inr s' \<and> P s'" and "P s"
  shows "\<exists>s'. foldR f xs s = Inr s' \<and> P s'"
  using assms
proof (induction xs arbitrary: s)
  case Nil
  then show ?case by simp
next
  case (Cons x xs)
  obtain s1 where s1: "f x s = Inr s1" "P s1"
    using Cons.prems(1) [of x s] Cons.prems(2) by auto
  have "\<exists>s'. foldR f xs s1 = Inr s' \<and> P s'"
    using Cons.prems(1) s1(2) by (intro Cons.IH) auto
  with s1(1) show ?case by simp
qed

subsection \<open>Machine sizes\<close>

text \<open>
  \<open>size_t\<close> has 64 bits: the model keeps it as a natural number and writes the wrap-around
  out.  \<open>vec_max\<close> is the largest size of a \<open>std::vector<char>\<close> (\<open>PTRDIFF_MAX\<close>); a
  larger request throws \<open>std::length_error\<close>.
\<close>

type_synonym size_t = nat

definition size_add :: "size_t \<Rightarrow> size_t \<Rightarrow> size_t" where
  "size_add a b = (a + b) mod 18446744073709551616"

definition size_sub :: "size_t \<Rightarrow> size_t \<Rightarrow> size_t" where
  "size_sub a b = (a + 18446744073709551616 - b) mod 18446744073709551616"

abbreviation vec_max :: nat where
  "vec_max \<equiv> 9223372036854775807"

lemma size_add_exact [simp]: "a + b < 18446744073709551616 \<Longrightarrow> size_add a b = a + b"
  by (simp add: size_add_def)

lemma size_sub_exact [simp]:
  assumes "b \<le> a" and "a < 18446744073709551616"
  shows "size_sub a b = a - b"
proof -
  have "a + 18446744073709551616 - b = (a - b) + 18446744073709551616"
    using assms(1) by simp
  then have "size_sub a b = ((a - b) + 18446744073709551616) mod 18446744073709551616"
    by (simp only: size_sub_def)
  also have "\<dots> = (a - b) mod 18446744073709551616"
    by (rule mod_add_self2)
  also have "\<dots> = a - b" using assms(2) by simp
  finally show ?thesis .
qed

text \<open>A 32-bit \<open>int\<close> increment; the overflow of a signed integer is undefined.\<close>

definition int_inc :: "int \<Rightarrow> int res" where
  "int_inc n = definedR (n < 2147483647) (Inr (n + 1))"

lemma int_inc_Inr [simp]: "int_inc n = Inr m \<longleftrightarrow> n < 2147483647 \<and> m = n + 1"
  by (auto simp: int_inc_def)

subsection \<open>Ranges of memory\<close>

text \<open>
  \<open>slice i j m\<close> is what \<open>[m + i, m + j)\<close> holds; \<open>overwrite i d m\<close> is the memory after
  \<open>d\<close> is copied to \<open>m + i\<close>, and \<open>copy_to\<close> the copy with its bounds made explicit.
\<close>

definition slice :: "nat \<Rightarrow> nat \<Rightarrow> 'a list \<Rightarrow> 'a list" where
  "slice i j m = take (j - i) (drop i m)"

definition overwrite :: "nat \<Rightarrow> 'a list \<Rightarrow> 'a list \<Rightarrow> 'a list" where
  "overwrite i d m = take i m @ d @ drop (i + length d) m"

definition copy_to :: "nat \<Rightarrow> 'a list \<Rightarrow> 'a list \<Rightarrow> 'a list res" where
  "copy_to i d m = definedR (i + length d \<le> length m) (Inr (overwrite i d m))"

lemma length_slice: "length (slice i j m) = min (j - i) (length m - i)"
  by (simp add: slice_def)

lemma length_slice_le [simp]: "i \<le> j \<Longrightarrow> j \<le> length m \<Longrightarrow> length (slice i j m) = j - i"
  by (simp add: slice_def)

lemma slice_empty [simp]: "slice i i m = []"
  by (simp add: slice_def)

lemma length_overwrite [simp]:
  "i + length d \<le> length m \<Longrightarrow> length (overwrite i d m) = length m"
  by (simp add: overwrite_def)

lemma slice_overwrite_before [simp]:
  "j \<le> k \<Longrightarrow> k \<le> length m \<Longrightarrow> slice i j (overwrite k d m) = slice i j m"
  by (cases "i \<le> j") (simp_all add: slice_def overwrite_def drop_take)

lemma slice_overwrite_exact:
  "i \<le> length m \<Longrightarrow> j = i + length d \<Longrightarrow> slice i j (overwrite i d m) = d"
  by (simp add: slice_def overwrite_def)

lemma slice_append_slice:
  "i \<le> j \<Longrightarrow> j \<le> k \<Longrightarrow> slice i j m @ slice j k m = slice i k m"
  using take_add [of "j - i" "k - j" "drop i m"] by (simp add: slice_def)

lemma slice_overwrite_end:
  assumes "i \<le> k" and "k + length d \<le> length m"
  shows "slice i (k + length d) (overwrite k d m) = slice i k m @ d"
proof -
  have "slice i (k + length d) (overwrite k d m)
      = slice i k (overwrite k d m) @ slice k (k + length d) (overwrite k d m)"
    using assms by (intro slice_append_slice [symmetric]) auto
  also have "\<dots> = slice i k m @ d"
    using assms by (simp add: slice_overwrite_exact)
  finally show ?thesis .
qed

lemma slice_append1 [simp]: "j \<le> length m \<Longrightarrow> slice i j (m @ m') = slice i j m"
  by (cases "i \<le> j") (simp_all add: slice_def)

lemma slice_from: "slice i j m = take (j - i) (drop i m)"
  by (fact slice_def)

lemma drop_slice: "drop n (slice i j m) = slice (i + n) j m"
  by (simp add: slice_def drop_take add.commute)

lemma take_slice: "i + n \<le> j \<Longrightarrow> take n (slice i j m) = slice i (i + n) m"
  by (simp add: slice_def min_def)

end
