(* ===== verification/Net_Buffer.thy ===== *)
theory Net_Buffer
  imports Prelude
begin

section \<open>The network buffer\<close>

text \<open>
  Model of \<open>include/Buffer.h\<close> and \<open>src/Buffer.cpp\<close>: a growable byte vector with a reader
  and a writer index.  A pointer into the vector is its offset from \<open>begin()\<close>, so
  \<open>peek()\<close> and \<open>beginWrite()\<close> are the two indices.  The abstract view is the byte queue
  \<open>readable\<close> between the indices; the locale \<open>byte_queue\<close> is the interface the codec and the
  connections rely on, and the buffer is an interpretation of it.
\<close>

subsection \<open>State and operations\<close>

record Buffer =
  buffer :: "char list"
  readerIndex :: size_t
  writerIndex :: size_t

definition kCheapPrepend :: nat where "kCheapPrepend = 8"
definition kInitialSize :: nat where "kInitialSize = 1024"
definition kCRLF :: string where "kCRLF = [CHR 0x0D, CHR 0x0A]"

definition Buffer_new :: Buffer where
  "Buffer_new = \<lparr>buffer = replicate (kCheapPrepend + kInitialSize) (CHR 0x00),
                 readerIndex = kCheapPrepend, writerIndex = kCheapPrepend\<rparr>"

definition Buffer_swap :: "Buffer \<Rightarrow> Buffer \<Rightarrow> Buffer \<times> Buffer" where
  "Buffer_swap b rhs =
     (b\<lparr>buffer := buffer rhs, readerIndex := readerIndex rhs, writerIndex := writerIndex rhs\<rparr>,
      rhs\<lparr>buffer := buffer b, readerIndex := readerIndex b, writerIndex := writerIndex b\<rparr>)"

definition readableBytes :: "Buffer \<Rightarrow> size_t" where
  "readableBytes b = size_sub (writerIndex b) (readerIndex b)"

definition writableBytes :: "Buffer \<Rightarrow> size_t" where
  "writableBytes b = size_sub (length (buffer b)) (writerIndex b)"

definition prependableBytes :: "Buffer \<Rightarrow> size_t" where
  "prependableBytes b = readerIndex b"

definition peek :: "Buffer \<Rightarrow> nat" where
  "peek b = readerIndex b"

definition beginWrite :: "Buffer \<Rightarrow> nat" where
  "beginWrite b = writerIndex b"

text \<open>
  \<open>std::search(lo, hi, pat, pat + len)\<close>: the first position of the pattern in the
  range, or \<open>hi\<close>.
\<close>

fun search_list :: "'a list \<Rightarrow> 'a list \<Rightarrow> nat option" where
  "search_list pat [] = (if pat = [] then Some 0 else None)"
| "search_list pat (x # xs) =
     (if take (length pat) (x # xs) = pat then Some 0
      else map_option Suc (search_list pat xs))"

definition std_search :: "char list \<Rightarrow> nat \<Rightarrow> nat \<Rightarrow> char list \<Rightarrow> nat" where
  "std_search m lo hi pat =
     (case search_list pat (slice lo hi m) of None \<Rightarrow> hi | Some i \<Rightarrow> lo + i)"

definition findCRLF :: "Buffer \<Rightarrow> nat option" where
  "findCRLF b =
     (let crlf = std_search (buffer b) (peek b) (beginWrite b) kCRLF
      in if crlf = beginWrite b then None else Some crlf)"

definition findCRLF_from :: "Buffer \<Rightarrow> nat \<Rightarrow> nat option res" where
  "findCRLF_from b start =
     assertR (peek b \<le> start) (assertR (start \<le> beginWrite b)
       (let crlf = std_search (buffer b) start (beginWrite b) kCRLF
        in Inr (if crlf = beginWrite b then None else Some crlf)))"

definition retrieve :: "size_t \<Rightarrow> Buffer \<Rightarrow> Buffer res" where
  "retrieve len b =
     assertR (len \<le> readableBytes b)
       (Inr (b\<lparr>readerIndex := size_add (readerIndex b) len\<rparr>))"

definition retrieveUntil :: "nat \<Rightarrow> Buffer \<Rightarrow> Buffer res" where
  "retrieveUntil endp b =
     assertR (peek b \<le> endp) (assertR (endp \<le> beginWrite b)
       (retrieve (endp - peek b) b))"

definition retrieveAll :: "Buffer \<Rightarrow> Buffer" where
  "retrieveAll b = b\<lparr>readerIndex := kCheapPrepend, writerIndex := kCheapPrepend\<rparr>"

definition retrieveAsString :: "Buffer \<Rightarrow> string \<times> Buffer" where
  "retrieveAsString b =
     (slice (peek b) (peek b + readableBytes b) (buffer b), retrieveAll b)"

definition hasWritten :: "size_t \<Rightarrow> Buffer \<Rightarrow> Buffer" where
  "hasWritten len b = b\<lparr>writerIndex := size_add (writerIndex b) len\<rparr>"

text \<open>
  \<open>std::vector<char>::resize\<close>: value-initialised (zero) bytes at the end, or a cut; it
  throws beyond the maximal size.
\<close>

definition vector_resize :: "nat \<Rightarrow> char list \<Rightarrow> char list res" where
  "vector_resize n v =
     (if n > vec_max then Inl Length_error
      else Inr (take n v @ replicate (n - length v) (CHR 0x00)))"

definition makeSpace :: "size_t \<Rightarrow> Buffer \<Rightarrow> Buffer res" where
  "makeSpace len b =
     (if size_add (writableBytes b) (prependableBytes b) < size_add len kCheapPrepend
      then res_bind (vector_resize (size_add (writerIndex b) len) (buffer b))
             (\<lambda>v. Inr (b\<lparr>buffer := v\<rparr>))
      else assertR (kCheapPrepend < readerIndex b)
        (let readable = readableBytes b in
         res_bind (copy_to kCheapPrepend (slice (readerIndex b) (writerIndex b) (buffer b))
                     (buffer b))
           (\<lambda>v. let b' = b\<lparr>buffer := v, readerIndex := kCheapPrepend,
                            writerIndex := size_add kCheapPrepend readable\<rparr>
                in assertR (readable = readableBytes b') (Inr b'))))"

definition ensureWritableBytes :: "size_t \<Rightarrow> Buffer \<Rightarrow> Buffer res" where
  "ensureWritableBytes len b =
     res_bind (if writableBytes b < len then makeSpace len b else Inr b)
       (\<lambda>b'. assertR (writableBytes b' \<ge> len) (Inr b'))"

definition Buffer_append :: "string \<Rightarrow> Buffer \<Rightarrow> Buffer res" where
  "Buffer_append data b =
     res_bind (ensureWritableBytes (length data) b)
       (\<lambda>b1. res_bind (copy_to (beginWrite b1) data (buffer b1))
         (\<lambda>v. Inr (hasWritten (length data) (b1\<lparr>buffer := v\<rparr>))))"

definition prepend :: "string \<Rightarrow> Buffer \<Rightarrow> Buffer res" where
  "prepend data b =
     assertR (length data \<le> prependableBytes b)
       (let r = size_sub (readerIndex b) (length data)
        in res_bind (copy_to r data (buffer b))
             (\<lambda>v. Inr (b\<lparr>readerIndex := r, buffer := v\<rparr>)))"

definition shrink :: "size_t \<Rightarrow> Buffer \<Rightarrow> Buffer res" where
  "shrink reserve b =
     res_bind (vector_resize (size_add (size_add kCheapPrepend (readableBytes b)) reserve) [])
       (\<lambda>buf. res_bind (copy_to kCheapPrepend
                          (slice (peek b) (peek b + readableBytes b) (buffer b)) buf)
         (\<lambda>v. Inr (b\<lparr>buffer := v\<rparr>)))"

text \<open>
  \<open>readFd\<close>: the result of \<open>readv(fd, vec, 2)\<close> is a parameter, either the error number or
  the bytes it delivered.  They fill the writable part of the vector first and the
  64 KiB stack buffer after it.  The result pairs \<open>n\<close>, the saved error and the new buffer.
\<close>

definition extrabuf_size :: nat where "extrabuf_size = 65536"

definition readFd :: "int + string \<Rightarrow> Buffer \<Rightarrow> (int \<times> int option \<times> Buffer) res" where
  "readFd rv b =
     (let writable = writableBytes b in
      case rv of
        Inl errno \<Rightarrow> Inr (- 1, Some errno, b)
      | Inr bytes \<Rightarrow>
          res_bind (copy_to (writerIndex b) (take writable bytes) (buffer b))
            (\<lambda>v. let b1 = b\<lparr>buffer := v\<rparr>; n = length bytes in
               if n \<le> writable
               then Inr (int n, None, b1\<lparr>writerIndex := size_add (writerIndex b1) n\<rparr>)
               else res_bind (Buffer_append (drop writable bytes)
                                (b1\<lparr>writerIndex := length (buffer b1)\<rparr>))
                      (\<lambda>b2. Inr (int n, None, b2))))"

subsection \<open>Invariant and abstract view\<close>

definition buf_wf :: "Buffer \<Rightarrow> bool" where
  "buf_wf b \<longleftrightarrow> readerIndex b \<le> writerIndex b \<and> writerIndex b \<le> length (buffer b)
      \<and> length (buffer b) \<le> vec_max \<and> kCheapPrepend \<le> length (buffer b)"

definition readable :: "Buffer \<Rightarrow> string" where
  "readable b = slice (readerIndex b) (writerIndex b) (buffer b)"

named_theorems buf_defs \<open>definitions of the buffer's small observers\<close>

lemmas buf_consts [buf_defs] =
  readableBytes_def writableBytes_def prependableBytes_def peek_def beginWrite_def
  kCheapPrepend_def kInitialSize_def

lemma buf_wf_new: "buf_wf Buffer_new"
  by (simp add: buf_wf_def Buffer_new_def buf_defs)

lemma readable_new: "readable Buffer_new = []"
  by (simp add: readable_def Buffer_new_def)

lemma buf_wf_bounds:
  assumes "buf_wf b"
  shows "readableBytes b = writerIndex b - readerIndex b"
    and "writableBytes b = length (buffer b) - writerIndex b"
    and "readableBytes b + writableBytes b + prependableBytes b = length (buffer b)"
    and "readableBytes b = length (readable b)"
  using assms by (simp_all add: buf_wf_def buf_defs readable_def)

lemma retrieve_spec:
  assumes "buf_wf b" and "len \<le> length (readable b)"
  shows "\<exists>b'. retrieve len b = Inr b' \<and> buf_wf b' \<and> readable b' = drop len (readable b)"
proof -
  have "readerIndex b + len \<le> writerIndex b"
    using assms by (auto simp: buf_wf_def readable_def)
  then show ?thesis
    using assms
    by (simp add: retrieve_def buf_wf_bounds(4)) (simp add: buf_wf_def readable_def drop_slice)
qed

lemma retrieve_too_much:
  "buf_wf b \<Longrightarrow> length (readable b) < len \<Longrightarrow> retrieve len b = Inl Assert_failed"
  by (simp add: retrieve_def buf_wf_bounds(4))

lemma retrieveAll_spec: "buf_wf b \<Longrightarrow> buf_wf (retrieveAll b) \<and> readable (retrieveAll b) = []"
  by (simp add: buf_wf_def retrieveAll_def readable_def)

lemma retrieveAsString_spec:
  assumes "buf_wf b"
  shows "fst (retrieveAsString b) = readable b" and "buf_wf (snd (retrieveAsString b))"
    and "readable (snd (retrieveAsString b)) = []"
  using assms retrieveAll_spec [OF assms]
  by (simp_all add: retrieveAsString_def buf_wf_bounds(1) readable_def peek_def buf_wf_def)

subsection \<open>Making space\<close>

lemma makeSpace_grow:
  assumes "buf_wf b" and "writerIndex b + len \<le> vec_max"
    and "writableBytes b < len" and "writableBytes b + prependableBytes b < len + kCheapPrepend"
  shows "\<exists>b'. makeSpace len b = Inr b' \<and> buf_wf b' \<and> readable b' = readable b
    \<and> writableBytes b' = len"
  using assms
  by (auto simp: makeSpace_def vector_resize_def buf_wf_def buf_defs readable_def)

lemma makeSpace_move:
  assumes "buf_wf b" and "writableBytes b < len"
    and "len \<le> vec_max" and "\<not> writableBytes b + prependableBytes b < len + kCheapPrepend"
  shows "\<exists>b'. makeSpace len b = Inr b' \<and> buf_wf b' \<and> readable b' = readable b
    \<and> len \<le> writableBytes b' \<and> length (buffer b') = length (buffer b)"
proof -
  let ?d = "slice (readerIndex b) (writerIndex b) (buffer b)"
  let ?n = "writerIndex b - readerIndex b"
  have wf: "readerIndex b \<le> writerIndex b" "writerIndex b \<le> length (buffer b)"
    "length (buffer b) \<le> vec_max"
    using assms(1) by (simp_all add: buf_wf_def)
  have wr: "writableBytes b = length (buffer b) - writerIndex b"
    using assms(1) by (rule buf_wf_bounds)
  have rd: "kCheapPrepend < readerIndex b"
    using assms(2,4) by (simp add: prependableBytes_def)
  have len: "length ?d = ?n" using wf by simp
  have "slice kCheapPrepend (kCheapPrepend + ?n) (overwrite kCheapPrepend ?d (buffer b)) = ?d"
    using wf rd len by (intro slice_overwrite_exact) simp_all
  then show ?thesis
    using assms wf wr rd len
    by (auto simp: makeSpace_def copy_to_def readable_def buf_wf_def buf_defs Let_def)
qed

lemma ensureWritableBytes_spec:
  assumes "buf_wf b" and "writerIndex b + len \<le> vec_max"
  shows "\<exists>b'. ensureWritableBytes len b = Inr b' \<and> buf_wf b' \<and> readable b' = readable b
    \<and> len \<le> writableBytes b'"
proof (cases "writableBytes b < len")
  case True
  have "\<exists>b'. makeSpace len b = Inr b' \<and> buf_wf b' \<and> readable b' = readable b
    \<and> len \<le> writableBytes b'"
    using makeSpace_grow [OF assms True] makeSpace_move [OF assms(1) True] assms(2)
    by (cases "writableBytes b + prependableBytes b < len + kCheapPrepend") fastforce+
  with True show ?thesis by (auto simp: ensureWritableBytes_def)
next
  case False
  with assms(1) show ?thesis by (simp add: ensureWritableBytes_def)
qed

lemma Buffer_append_spec:
  assumes "buf_wf b" and "writerIndex b + length data \<le> vec_max"
  shows "\<exists>b'. Buffer_append data b = Inr b' \<and> buf_wf b' \<and> readable b' = readable b @ data"
proof -
  obtain b1 where b1: "ensureWritableBytes (length data) b = Inr b1" "buf_wf b1"
      "readable b1 = readable b" "length data \<le> writableBytes b1"
    using ensureWritableBytes_spec [OF assms] by blast
  have fits: "writerIndex b1 + length data \<le> length (buffer b1)"
    using b1(4) buf_wf_bounds(2) [OF b1(2)] b1(2) by (auto simp: buf_wf_def)
  let ?v = "overwrite (writerIndex b1) data (buffer b1)"
  have "slice (readerIndex b1) (writerIndex b1 + length data) ?v = readable b1 @ data"
    using b1(2) fits by (simp add: readable_def buf_wf_def slice_overwrite_end)
  then show ?thesis
    using b1 fits
    by (simp add: Buffer_append_def copy_to_def beginWrite_def hasWritten_def)
       (auto simp: buf_wf_def readable_def)
qed


lemma makeSpace_writer:
  assumes "makeSpace len b = Inr b'" and "buf_wf b"
  shows "writerIndex b' \<le> writerIndex b"
  using assms
  by (auto simp: makeSpace_def buf_wf_def buf_defs Let_def split: if_splits)

lemma Buffer_append_writer:
  assumes "Buffer_append data b = Inr b'" and "buf_wf b" and "writerIndex b + length data \<le> vec_max"
  shows "writerIndex b' \<le> writerIndex b + length data"
  using assms makeSpace_writer [of "length data" b]
  by (auto simp: Buffer_append_def ensureWritableBytes_def hasWritten_def split: if_splits)

lemma retrieve_writer: "retrieve n b = Inr b' \<Longrightarrow> writerIndex b' = writerIndex b"
  by (auto simp: retrieve_def split: if_splits)

lemma retrieveUntil_spec:
  assumes "buf_wf b" and "n \<le> length (readable b)"
  shows "\<exists>b'. retrieveUntil (readerIndex b + n) b = Inr b' \<and> buf_wf b'
    \<and> readable b' = drop n (readable b)"
  using retrieve_spec [OF assms] assms
  by (auto simp: retrieveUntil_def peek_def beginWrite_def readable_def buf_wf_def)

lemma prepend_spec:
  assumes "buf_wf b" and "length data \<le> readerIndex b"
  shows "\<exists>b'. prepend data b = Inr b' \<and> buf_wf b' \<and> readable b' = data @ readable b"
proof -
  let ?r = "readerIndex b - length data"
  let ?v = "overwrite ?r data (buffer b)"
  have wf: "readerIndex b \<le> writerIndex b" "writerIndex b \<le> length (buffer b)"
    "length (buffer b) \<le> vec_max"
    using assms(1) by (simp_all add: buf_wf_def)
  have r: "?r + length data = readerIndex b" using assms(2) by simp
  have "slice ?r (writerIndex b) ?v = slice ?r (readerIndex b) ?v @ slice (readerIndex b) (writerIndex b) ?v"
    using wf by (intro slice_append_slice [symmetric]) simp_all
  also have "slice ?r (readerIndex b) ?v = data"
    using wf r by (intro slice_overwrite_exact) simp_all
  also have "slice (readerIndex b) (writerIndex b) ?v = readable b"
    using wf r by (simp add: slice_def overwrite_def readable_def)
  finally show ?thesis
    using assms wf r
    by (simp add: prepend_def copy_to_def prependableBytes_def Let_def)
       (simp add: buf_wf_def readable_def)
qed

lemma readFd_spec:
  assumes "buf_wf b" and "length bytes \<le> writableBytes b + extrabuf_size"
    and "length (buffer b) + extrabuf_size \<le> vec_max"
  shows "\<exists>b'. readFd (Inr bytes) b = Inr (int (length bytes), None, b') \<and> buf_wf b'
    \<and> readable b' = readable b @ bytes"
proof -
  let ?w = "writableBytes b"
  let ?v = "overwrite (writerIndex b) (take ?w bytes) (buffer b)"
  have wf: "readerIndex b \<le> writerIndex b" "writerIndex b \<le> length (buffer b)"
    "length (buffer b) \<le> vec_max" "kCheapPrepend \<le> length (buffer b)"
    using assms(1) by (simp_all add: buf_wf_def)
  have w: "?w = length (buffer b) - writerIndex b"
    using assms(1) by (rule buf_wf_bounds)
  have fits: "writerIndex b + length (take ?w bytes) \<le> length (buffer b)"
    using wf w by simp
  have sl: "slice (readerIndex b) (writerIndex b + length (take ?w bytes)) ?v
      = readable b @ take ?w bytes"
    using wf fits by (simp add: slice_overwrite_end readable_def del: length_take)
  show ?thesis
  proof (cases "length bytes \<le> ?w")
    case True
    then show ?thesis
      using wf w sl fits
      by (simp add: readFd_def copy_to_def Let_def) (auto simp: buf_wf_def readable_def)
  next
    case False
    let ?b1 = "b\<lparr>buffer := ?v, writerIndex := length (buffer b)\<rparr>"
    have b1: "buf_wf ?b1" "readable ?b1 = readable b @ take ?w bytes"
      using False wf w sl fits by (auto simp: buf_wf_def readable_def min_def)
    obtain b2 where "Buffer_append (drop ?w bytes) ?b1 = Inr b2" "buf_wf b2"
        "readable b2 = readable ?b1 @ drop ?w bytes"
    proof -
      have "writerIndex ?b1 + length (drop ?w bytes) \<le> vec_max"
        using assms(2,3) by simp
      from Buffer_append_spec [OF b1(1) this] that show ?thesis by blast
    qed
    then show ?thesis
      using False b1(2) fits by (simp add: readFd_def copy_to_def Let_def)
  qed
qed

subsection \<open>Searching\<close>

lemma search_list_Some:
  assumes "search_list pat xs = Some i"
  shows "take (length pat) (drop i xs) = pat \<and> i + length pat \<le> length xs
    \<and> (\<forall>j<i. take (length pat) (drop j xs) \<noteq> pat)"
  using assms
proof (induction xs arbitrary: i)
  case Nil
  then show ?case by (simp split: if_splits)
next
  case (Cons x xs)
  show ?case
  proof (cases "take (length pat) (x # xs) = pat")
    case True
    moreover from this have "length pat \<le> length (x # xs)"
      by (metis append_take_drop_id length_append le_add1)
    ultimately show ?thesis using Cons.prems by simp
  next
    case False
    with Cons.prems obtain k where k: "search_list pat xs = Some k" "i = Suc k"
      by auto
    from Cons.IH [OF k(1)] k(2) False show ?thesis
      by (auto simp: less_Suc_eq_0_disj)
  qed
qed

lemma search_list_None:
  "pat \<noteq> [] \<Longrightarrow> search_list pat xs = None \<longleftrightarrow> (\<forall>j. take (length pat) (drop j xs) \<noteq> pat)"
proof (induction xs)
  case Nil
  then show ?case by simp
next
  case (Cons x xs)
  have "(\<forall>j. take (length pat) (drop j (x # xs)) \<noteq> pat) \<longleftrightarrow>
      take (length pat) (x # xs) \<noteq> pat \<and> (\<forall>j. take (length pat) (drop j xs) \<noteq> pat)"
    by (metis drop0 drop_Suc_Cons not0_implies_Suc)
  with Cons show ?case by auto
qed

lemma search_list_first:
  assumes "take (length pat) (drop i xs) = pat" and "pat \<noteq> []"
    and "\<And>j. j < i \<Longrightarrow> take (length pat) (drop j xs) \<noteq> pat"
  shows "search_list pat xs = Some i"
proof (cases "search_list pat xs")
  case None
  with assms(1,2) show ?thesis by (simp add: search_list_None)
next
  case (Some k)
  note * = search_list_Some [OF this]
  have "\<not> k < i" using * assms(3) by blast
  moreover have "\<not> i < k" using * assms(1) by blast
  ultimately show ?thesis using Some by simp
qed

lemma findCRLF_view:
  assumes "buf_wf b"
  shows "findCRLF b = map_option ((+) (readerIndex b)) (search_list kCRLF (readable b))"
proof (cases "search_list kCRLF (readable b)")
  case None
  then show ?thesis
    by (simp add: findCRLF_def std_search_def peek_def beginWrite_def readable_def)
next
  case (Some i)
  from search_list_Some [OF this] have "i + 2 \<le> length (readable b)"
    by (simp add: kCRLF_def)
  moreover have "readerIndex b + length (readable b) = writerIndex b"
    using assms by (auto simp: readable_def buf_wf_def)
  ultimately show ?thesis
    using Some by (auto simp: findCRLF_def std_search_def peek_def beginWrite_def readable_def)
qed

lemma findCRLF_from_view:
  assumes "buf_wf b" and "n \<le> length (readable b)"
  shows "findCRLF_from b (readerIndex b + n)
    = Inr (map_option ((+) (readerIndex b + n)) (search_list kCRLF (drop n (readable b))))"
proof -
  have sl: "slice (readerIndex b + n) (writerIndex b) (buffer b) = drop n (readable b)"
    by (simp add: readable_def drop_slice)
  have le: "readerIndex b + n \<le> writerIndex b"
    using assms by (auto simp: readable_def buf_wf_def)
  have len: "readerIndex b + length (readable b) = writerIndex b"
    using assms(1) by (auto simp: readable_def buf_wf_def)
  show ?thesis
  proof (cases "search_list kCRLF (drop n (readable b))")
    case None
    with sl le show ?thesis
      by (simp add: findCRLF_from_def std_search_def peek_def beginWrite_def)
  next
    case (Some i)
    from search_list_Some [OF this] have "i + 2 \<le> length (readable b) - n"
      by (simp add: kCRLF_def)
    with Some sl le len show ?thesis
      by (auto simp: findCRLF_from_def std_search_def peek_def beginWrite_def Let_def)
  qed
qed


subsection \<open>The interface: a byte queue\<close>

text \<open>
  What the clients of the buffer rely on.  \<open>room n b\<close> says that \<open>n\<close> more bytes can be
  queued before the vector reaches its maximal size.
\<close>

locale byte_queue =
  fixes wf :: "'b \<Rightarrow> bool"
    and view :: "'b \<Rightarrow> string"
    and room :: "nat \<Rightarrow> 'b \<Rightarrow> bool"
    and put :: "string \<Rightarrow> 'b \<Rightarrow> 'b res"
    and get :: "nat \<Rightarrow> 'b \<Rightarrow> 'b res"
  assumes put_ok: "wf b \<Longrightarrow> room (length d) b \<Longrightarrow> \<exists>b'. put d b = Inr b' \<and> wf b' \<and> view b' = view b @ d"
    and get_ok: "wf b \<Longrightarrow> n \<le> length (view b) \<Longrightarrow> \<exists>b'. get n b = Inr b' \<and> wf b' \<and> view b' = drop n (view b)"
    and get_fails: "wf b \<Longrightarrow> length (view b) < n \<Longrightarrow> get n b = Inl Assert_failed"
    and room_put: "wf b \<Longrightarrow> room (length d + n) b \<Longrightarrow> put d b = Inr b' \<Longrightarrow> room n b'"
    and room_get: "room n b \<Longrightarrow> get k b = Inr b' \<Longrightarrow> room n b'"
    and room_le: "room n b \<Longrightarrow> k \<le> n \<Longrightarrow> room k b"
begin

lemma puts_ok:
  assumes "wf b" and "room (length (concat ds)) b"
  shows "\<exists>b'. foldR put ds b = Inr b' \<and> wf b' \<and> view b' = view b @ concat ds"
  using assms
proof (induction ds arbitrary: b)
  case Nil
  then show ?case by simp
next
  case (Cons d ds)
  have "room (length d) b" using Cons.prems(2) by (rule room_le) simp
  with Cons.prems(1) obtain b1 where b1: "put d b = Inr b1" "wf b1" "view b1 = view b @ d"
    using put_ok by blast
  have "room (length (concat ds)) b1"
    using Cons.prems(2) by (intro room_put [OF Cons.prems(1) _ b1(1)]) simp
  from Cons.IH [OF b1(2) this] obtain b2 where
    "foldR put ds b1 = Inr b2" "wf b2" "view b2 = view b1 @ concat ds" by blast
  with b1(1,3) show ?case by simp
qed

lemma gets_ok:
  assumes "wf b" and "sum_list ns \<le> length (view b)"
  shows "\<exists>b'. foldR get ns b = Inr b' \<and> wf b' \<and> view b' = drop (sum_list ns) (view b)"
  using assms
proof (induction ns arbitrary: b)
  case Nil
  then show ?case by simp
next
  case (Cons n ns)
  then have "n \<le> length (view b)" by simp
  with Cons.prems(1) obtain b1 where b1: "get n b = Inr b1" "wf b1" "view b1 = drop n (view b)"
    using get_ok by blast
  with Cons.prems(2) have "sum_list ns \<le> length (view b1)" by simp
  from Cons.IH [OF b1(2) this] obtain b2 where
    "foldR get ns b1 = Inr b2" "wf b2" "view b2 = drop (sum_list ns) (view b1)" by blast
  with b1(1,3) show ?case by (simp add: add.commute)
qed

lemma put_then_drain:
  assumes "wf b" and "view b = []" and "room (length d) b"
  shows "\<exists>b1 b2. put d b = Inr b1 \<and> get (length d) b1 = Inr b2 \<and> wf b2 \<and> view b2 = []"
proof -
  obtain b1 where b1: "put d b = Inr b1" "wf b1" "view b1 = d"
    using put_ok [OF assms(1,3)] assms(2) by auto
  from get_ok [OF b1(2), of "length d"] b1 show ?thesis by auto
qed

end

definition buf_room :: "nat \<Rightarrow> Buffer \<Rightarrow> bool" where
  "buf_room n b \<longleftrightarrow> writerIndex b + n \<le> vec_max"

interpretation bq: byte_queue buf_wf readable buf_room Buffer_append retrieve
proof unfold_locales
  show "buf_wf b \<Longrightarrow> buf_room (length d) b \<Longrightarrow>
      \<exists>b'. Buffer_append d b = Inr b' \<and> buf_wf b' \<and> readable b' = readable b @ d" for b d
    by (simp add: buf_room_def Buffer_append_spec)
  show "buf_wf b \<Longrightarrow> n \<le> length (readable b) \<Longrightarrow>
      \<exists>b'. retrieve n b = Inr b' \<and> buf_wf b' \<and> readable b' = drop n (readable b)" for b n
    by (rule retrieve_spec)
  show "buf_wf b \<Longrightarrow> length (readable b) < n \<Longrightarrow> retrieve n b = Inl Assert_failed" for b n
    by (rule retrieve_too_much)
  show "buf_wf b \<Longrightarrow> buf_room (length d + n) b \<Longrightarrow> Buffer_append d b = Inr b' \<Longrightarrow> buf_room n b'" for b d n b'
    using Buffer_append_writer [of d b b'] by (simp add: buf_room_def)
  show "buf_room n b \<Longrightarrow> retrieve k b = Inr b' \<Longrightarrow> buf_room n b'" for n b k b'
    by (simp add: buf_room_def retrieve_writer)
  show "buf_room n b \<Longrightarrow> k \<le> n \<Longrightarrow> buf_room k b" for n b k
    by (simp add: buf_room_def)
qed

subsection \<open>Refinement of whole runs\<close>

text \<open>
  A run is a list of calls.  The specification runs the same calls on a plain byte list.
\<close>

datatype buf_op = Append string | Retrieve nat | RetrieveAll

fun buf_step :: "buf_op \<Rightarrow> Buffer \<Rightarrow> Buffer res" where
  "buf_step (Append d) b = Buffer_append d b"
| "buf_step (Retrieve n) b = retrieve n b"
| "buf_step RetrieveAll b = Inr (retrieveAll b)"

fun queue_step :: "buf_op \<Rightarrow> string \<Rightarrow> string res" where
  "queue_step (Append d) q = Inr (q @ d)"
| "queue_step (Retrieve n) q = assertR (n \<le> length q) (Inr (drop n q))"
| "queue_step RetrieveAll q = Inr []"

fun op_bytes :: "buf_op \<Rightarrow> nat" where
  "op_bytes (Append d) = length d"
| "op_bytes _ = 0"

lemma buf_step_refines:
  assumes "buf_wf b" and "buf_room (op_bytes x + n) b" and "kCheapPrepend + n \<le> vec_max"
  shows "map_sum id readable (buf_step x b) = queue_step x (readable b)
    \<and> (\<forall>b'. buf_step x b = Inr b' \<longrightarrow> buf_wf b' \<and> buf_room n b')"
proof (cases x)
  case (Append d)
  have "buf_room (length d) b" using assms(2) Append by (auto intro: bq.room_le)
  from bq.put_ok [OF assms(1) this] show ?thesis
    using Append assms bq.room_put [OF assms(1)] by auto
next
  case (Retrieve k)
  show ?thesis
  proof (cases "k \<le> length (readable b)")
    case True
    from bq.get_ok [OF assms(1) True] show ?thesis
      using Retrieve True assms(2) bq.room_get by auto
  next
    case False
    then show ?thesis using Retrieve bq.get_fails [OF assms(1), of k] by simp
  qed
next
  case RetrieveAll
  then show ?thesis
    using retrieveAll_spec [OF assms(1)] assms(3)
    by (simp add: buf_room_def retrieveAll_def)
qed

lemma buf_run_refines:
  assumes "buf_wf b" and "buf_room (sum_list (map op_bytes ops)) b"
    and "kCheapPrepend + sum_list (map op_bytes ops) \<le> vec_max"
  shows "map_sum id readable (foldR buf_step ops b) = foldR queue_step ops (readable b)"
  using assms
proof (induction ops arbitrary: b)
  case Nil
  then show ?case by simp
next
  case (Cons x ops)
  have step: "map_sum id readable (buf_step x b) = queue_step x (readable b)"
    "\<And>b'. buf_step x b = Inr b' \<Longrightarrow> buf_wf b' \<and> buf_room (sum_list (map op_bytes ops)) b'"
    using buf_step_refines [OF Cons.prems(1), of x "sum_list (map op_bytes ops)"] Cons.prems
    by auto
  show ?case
  proof (cases "buf_step x b")
    case (Inl e)
    with step(1) have "queue_step x (readable b) = Inl e" by simp
    with Inl show ?thesis by simp
  next
    case (Inr b1)
    with step have b1: "buf_wf b1" "buf_room (sum_list (map op_bytes ops)) b1"
        "queue_step x (readable b) = Inr (readable b1)" by auto
    have "kCheapPrepend + sum_list (map op_bytes ops) \<le> vec_max" using Cons.prems(3) by simp
    from Cons.IH [OF b1(1,2) this] Inr b1(3) show ?thesis by simp
  qed
qed


lemma shrink_result:
  assumes "buf_wf b" and "8 + length (readable b) + reserve \<le> vec_max"
  shows "shrink reserve b =
    Inr (b\<lparr>buffer := replicate 8 (CHR 0x00) @ readable b @ replicate reserve (CHR 0x00)\<rparr>)"
proof -
  have "slice (readerIndex b) (readerIndex b + (writerIndex b - readerIndex b)) (buffer b) = readable b"
    using assms(1) by (simp add: readable_def buf_wf_def)
  moreover have "writerIndex b - readerIndex b = length (readable b)"
    using buf_wf_bounds(1,4) [OF assms(1)] by simp
  ultimately show ?thesis
    using assms
    by (simp add: shrink_def vector_resize_def copy_to_def overwrite_def buf_wf_bounds(4)
        peek_def kCheapPrepend_def)
qed

subsection \<open>Properties\<close>

text \<open>
  C6 (refinement). Every run of appends and retrievals on a new buffer whose appended bytes
  fit into a vector gives exactly the result of the same run on a plain byte queue: the
  same bytes stay readable in the same order whether the buffer grew, moved its data to the
  front or did neither, and the run stops with a failed assertion exactly where the queue
  does not hold the bytes to retrieve.
\<close>
theorem buffer_run_refines_queue:
  assumes "kCheapPrepend + sum_list (map op_bytes ops) \<le> vec_max"
  shows "map_sum id readable (foldR buf_step ops Buffer_new) = foldR queue_step ops []"
proof -
  have "buf_room (sum_list (map op_bytes ops)) Buffer_new"
    using assms by (simp add: buf_room_def Buffer_new_def)
  from buf_run_refines [OF buf_wf_new this assms] show ?thesis by (simp add: readable_new)
qed

theorem buffer_run_refines_queue_witness:
  "map_sum id readable (foldR buf_step [Append ''hello'', Retrieve 2, Append ''!''] Buffer_new)
     = Inr ''llo!''
   \<and> map_sum id readable (foldR buf_step [Append ''hi'', Retrieve 3] Buffer_new) = Inl Assert_failed"
  using buffer_run_refines_queue [of "[Append ''hello'', Retrieve 2, Append ''!'']"]
    buffer_run_refines_queue [of "[Append ''hi'', Retrieve 3]"]
  by (simp add: kCheapPrepend_def)

text \<open>
  C15 (functional). \<open>readFd\<close> appends to the readable bytes exactly what \<open>readv\<close> delivered,
  also when it overflowed from the vector into the 64 KiB stack buffer, returns their
  number and keeps the buffer well formed; the only assumption on \<open>readv\<close> is that it
  delivers no more than the two areas hold.
\<close>
theorem readFd_appends_delivered_bytes:
  assumes "buf_wf b" and "length bytes \<le> writableBytes b + extrabuf_size"
    and "length (buffer b) + extrabuf_size \<le> vec_max"
  shows "\<exists>b'. readFd (Inr bytes) b = Inr (int (length bytes), None, b') \<and> buf_wf b'
    \<and> readable b' = readable b @ bytes"
  using assms by (rule readFd_spec)

theorem readFd_appends_delivered_bytes_witness:
  "\<exists>b'. readFd (Inr (replicate 2000 (CHR ''x''))) Buffer_new = Inr (2000, None, b') \<and> buf_wf b'
     \<and> readable b' = replicate 2000 (CHR ''x'')"
proof -
  have "length (replicate 2000 (CHR ''x'')) \<le> writableBytes Buffer_new + extrabuf_size"
    and "length (buffer Buffer_new) + extrabuf_size \<le> vec_max"
    by (simp_all add: Buffer_new_def extrabuf_size_def buf_defs)
  from readFd_appends_delivered_bytes [OF buf_wf_new this] show ?thesis
    by (simp add: readable_new)
qed

text \<open>
  \<open>findCRLF\<close> on a well-formed buffer is the least position of a carriage
  return and line feed in the readable bytes, as an offset from the start of the vector,
  and the null pointer exactly when the readable bytes hold no such pair.
\<close>
theorem findCRLF_finds_first:
  assumes "buf_wf b"
  shows "findCRLF b = Some p \<longleftrightarrow>
      readerIndex b \<le> p \<and> take 2 (drop (p - readerIndex b) (readable b)) = kCRLF
      \<and> (\<forall>j < p - readerIndex b. take 2 (drop j (readable b)) \<noteq> kCRLF)"
    (is "?l \<longleftrightarrow> ?r")
proof
  have two: "length kCRLF = 2" by (simp add: kCRLF_def)
  assume ?l
  then obtain i where "search_list kCRLF (readable b) = Some i" "p = readerIndex b + i"
    using assms by (auto simp: findCRLF_view)
  with search_list_Some [of kCRLF "readable b" i] two show ?r by simp
next
  have two: "length kCRLF = 2" "kCRLF \<noteq> []" by (simp_all add: kCRLF_def)
  assume ?r
  with two have "search_list kCRLF (readable b) = Some (p - readerIndex b)"
    by (intro search_list_first) simp_all
  with \<open>?r\<close> assms show ?l by (simp add: findCRLF_view)
qed

theorem findCRLF_finds_first_witness:
  "findCRLF \<lparr>buffer = replicate 8 (CHR 0x00) @ ''ab'' @ kCRLF @ kCRLF, readerIndex = 8, writerIndex = 14\<rparr> = Some 10"
  (is "findCRLF ?b = _")
proof -
  have wf: "buf_wf ?b" by (simp add: buf_wf_def kCRLF_def kCheapPrepend_def)
  have rd: "readable ?b = ''ab'' @ kCRLF @ kCRLF"
    by (simp add: readable_def slice_def kCRLF_def)
  show ?thesis
    unfolding findCRLF_finds_first [OF wf] rd
    by (auto simp: kCRLF_def less_Suc_eq numeral_2_eq_2)
qed



end
