(* ===== verification/Codec.thy ===== *)
theory Codec
  imports Net_Buffer
begin

section \<open>The publish/subscribe codec\<close>

text \<open>
  Model of \<open>src/codec.cpp\<close>: \<open>parseMessage\<close> takes one command line, and the content line
  of a \<open>pub\<close> command, from the front of a buffer.  The specification \<open>decode\<close> is a parser
  on plain byte lists; the pointer arithmetic of the code refines it.
\<close>

subsection \<open>The code\<close>

datatype ParseResult = kError | kSuccess | kContinue

definition std_find :: "char list \<Rightarrow> nat \<Rightarrow> nat \<Rightarrow> char \<Rightarrow> nat" where
  "std_find m lo hi c = lo + length (takeWhile (\<lambda>x. x \<noteq> c) (slice lo hi m))"

definition parseMessage ::
    "Buffer \<Rightarrow> string \<Rightarrow> string \<Rightarrow> string \<Rightarrow> (ParseResult \<times> Buffer \<times> string \<times> string \<times> string) res" where
  "parseMessage buf cmd topic content =
     (case findCRLF buf of
        Some crlf \<Rightarrow>
          (let space = std_find (buffer buf) (peek buf) crlf (CHR '' '') in
           if space \<noteq> crlf then
             (let cmd' = slice (peek buf) space (buffer buf);
                  topic' = slice (space + 1) crlf (buffer buf) in
              if cmd' = ''pub'' then
                (let start = crlf + 2 in
                 res_bind (findCRLF_from buf start) (\<lambda>found.
                   case found of
                     Some crlf' \<Rightarrow>
                       res_bind (retrieveUntil (crlf' + 2) buf)
                         (\<lambda>buf'. Inr (kSuccess, buf', cmd', topic', slice start crlf' (buffer buf)))
                   | None \<Rightarrow> Inr (kContinue, buf, cmd', topic', content)))
              else
                res_bind (retrieveUntil (crlf + 2) buf)
                  (\<lambda>buf'. Inr (kSuccess, buf', cmd', topic', content)))
           else Inr (kError, buf, cmd, topic, content))
      | None \<Rightarrow> Inr (kContinue, buf, cmd, topic, content))"

subsection \<open>The specification: a parser on byte lists\<close>

definition split_line :: "string \<Rightarrow> (string \<times> string) option" where
  "split_line q = map_option (\<lambda>i. (take i q, drop (i + 2) q)) (search_list kCRLF q)"

definition split_space :: "string \<Rightarrow> (string \<times> string) option" where
  "split_space l =
     (let c = takeWhile (\<lambda>x. x \<noteq> CHR '' '') l
      in if c = l then None else Some (c, drop (Suc (length c)) l))"

definition decode :: "string \<Rightarrow> string \<Rightarrow> string \<Rightarrow> string \<Rightarrow>
    ParseResult \<times> string \<times> string \<times> string \<times> string" where
  "decode q cmd topic content =
     (case split_line q of
        None \<Rightarrow> (kContinue, q, cmd, topic, content)
      | Some (line, rest) \<Rightarrow>
          (case split_space line of
             None \<Rightarrow> (kError, q, cmd, topic, content)
           | Some (c, t) \<Rightarrow>
               if c = ''pub'' then
                 (case split_line rest of
                    None \<Rightarrow> (kContinue, q, c, t, content)
                  | Some (m, rest') \<Rightarrow> (kSuccess, rest', c, t, m))
               else (kSuccess, rest, c, t, content)))"

definition encode :: "string \<Rightarrow> string \<Rightarrow> string \<Rightarrow> string" where
  "encode c t m = c @ '' '' @ t @ kCRLF @ (if c = ''pub'' then m @ kCRLF else [])"

subsection \<open>Lines\<close>

lemma length_kCRLF [simp]: "length kCRLF = 2"
  by (simp add: kCRLF_def)

definition crlf_free :: "string \<Rightarrow> bool" where
  "crlf_free l \<longleftrightarrow> search_list kCRLF l = None"

lemma split_line_append:
  assumes "split_line q = Some (l, rest)"
  shows "split_line (q @ suf) = Some (l, rest @ suf)"
proof -
  from assms obtain i where i: "search_list kCRLF q = Some i" "l = take i q" "rest = drop (i + 2) q"
    by (auto simp: split_line_def)
  note * = search_list_Some [OF i(1)]
  have "search_list kCRLF (q @ suf) = Some i"
  proof (rule search_list_first)
    show "take (length kCRLF) (drop i (q @ suf)) = kCRLF"
      using * by simp
    show "kCRLF \<noteq> []" by (simp add: kCRLF_def)
    show "take (length kCRLF) (drop j (q @ suf)) \<noteq> kCRLF" if "j < i" for j
      using * that by auto
  qed
  with i * show ?thesis by (simp add: split_line_def)
qed

lemma split_line_crlf:
  assumes "crlf_free l"
  shows "split_line (l @ kCRLF @ rest) = Some (l, rest)"
proof -
  have ne: "kCRLF \<noteq> []" by (simp add: kCRLF_def)
  have free: "take 2 (drop j l) \<noteq> kCRLF" for j
    using assms ne by (simp add: crlf_free_def search_list_None)
  have "search_list kCRLF (l @ kCRLF @ rest) = Some (length l)"
  proof (rule search_list_first)
    show "take (length kCRLF) (drop j (l @ kCRLF @ rest)) \<noteq> kCRLF" if "j < length l" for j
    proof (cases "length (drop j l) \<ge> 2")
      case True
      then show ?thesis using free [of j] by simp
    next
      case False
      with that have "length (drop j l) = 1" by simp
      then obtain c where "drop j l = [c]" by (cases "drop j l") auto
      moreover have "drop j (l @ kCRLF @ rest) = drop j l @ kCRLF @ rest"
        using that by simp
      ultimately show ?thesis by (simp add: kCRLF_def)
    qed
  qed (use ne in simp_all)
  then show ?thesis by (simp add: split_line_def)
qed

lemma split_space_exact:
  "CHR '' '' \<notin> set c \<Longrightarrow> split_space (c @ '' '' @ t) = Some (c, t)"
proof -
  assume "CHR '' '' \<notin> set c"
  then have "takeWhile (\<lambda>x. x \<noteq> CHR '' '') (c @ '' '' @ t) = c"
    by (subst takeWhile_append2) auto
  then show ?thesis by (simp add: split_space_def)
qed

subsection \<open>The code refines the specification\<close>

text \<open>The observable outcome of a parse: the result, the readable bytes left and the outputs.\<close>

definition parse_view :: "ParseResult \<times> Buffer \<times> string \<times> string \<times> string \<Rightarrow>
    ParseResult \<times> string \<times> string \<times> string \<times> string" where
  "parse_view r = (case r of (p, b, c, t, m) \<Rightarrow> (p, readable b, c, t, m))"

lemma slice_readable:
  assumes "buf_wf b" and "i \<le> j" and "j \<le> length (readable b)"
  shows "slice (readerIndex b + i) (readerIndex b + j) (buffer b) = slice i j (readable b)"
  using assms by (auto simp: readable_def buf_wf_def slice_def take_drop add.commute)

lemma std_find_readable:
  assumes "buf_wf b" and "j \<le> length (readable b)"
  shows "std_find (buffer b) (readerIndex b) (readerIndex b + j) c
    = readerIndex b + length (takeWhile (\<lambda>x. x \<noteq> c) (take j (readable b)))"
  using slice_readable [OF assms(1), of 0 j] assms(2)
  by (simp add: std_find_def) (simp add: slice_def)

lemma takeWhile_whole: "length (takeWhile P l) = length l \<longleftrightarrow> takeWhile P l = l"
  by (metis takeWhile_eq_take take_all_iff order_refl)

lemma parse_malformed:
  assumes "buf_wf b" and "search_list kCRLF (readable b) = Some i"
    and "split_space (take i (readable b)) = None"
  shows "parseMessage b cmd topic content = Inr (kError, b, cmd, topic, content)"
proof -
  let ?line = "take i (readable b)"
  have i: "i \<le> length (readable b)" using search_list_Some [OF assms(2)] by simp
  have "takeWhile (\<lambda>x. x \<noteq> CHR '' '') ?line = ?line"
    using assms(3) by (simp add: split_space_def Let_def split: if_splits)
  then have "length (takeWhile (\<lambda>x. x \<noteq> CHR '' '') ?line) = length ?line" by (simp only:)
  with i have "std_find (buffer b) (peek b) (readerIndex b + i) (CHR '' '') = readerIndex b + i"
    using std_find_readable [OF assms(1) i, of "CHR '' ''"] by (simp add: peek_def)
  then show ?thesis using assms by (simp add: parseMessage_def findCRLF_view)
qed

lemma parse_command:
  assumes "buf_wf b" and "search_list kCRLF (readable b) = Some i"
    and "split_space (take i (readable b)) = Some (c, t)"
  shows "findCRLF b = Some (readerIndex b + i)"
    and "std_find (buffer b) (peek b) (readerIndex b + i) (CHR '' '') = readerIndex b + length c"
    and "length c \<noteq> i"
    and "slice (peek b) (readerIndex b + length c) (buffer b) = c"
    and "slice (Suc (readerIndex b + length c)) (readerIndex b + i) (buffer b) = t"
proof -
  let ?q = "readable b" and ?P = "\<lambda>x. x \<noteq> CHR '' ''" and ?line = "take i (readable b)"
  have i: "i + 2 \<le> length ?q" using search_list_Some [OF assms(2)] by simp
  have c: "c = takeWhile ?P ?line" "c \<noteq> ?line" and t: "t = drop (Suc (length c)) ?line"
    using assms(3) by (auto simp: split_space_def Let_def split: if_splits)
  have le: "length c \<le> i" using length_takeWhile_le [of ?P ?line] i c(1) by simp
  show ne: "length c \<noteq> i"
    using takeWhile_whole [of ?P ?line] i c by auto
  show "findCRLF b = Some (readerIndex b + i)" using assms(1,2) by (simp add: findCRLF_view)
  show "std_find (buffer b) (peek b) (readerIndex b + i) (CHR '' '') = readerIndex b + length c"
    using std_find_readable [OF assms(1), of i] i c(1) by (simp add: peek_def)
  show "slice (peek b) (readerIndex b + length c) (buffer b) = c"
    using slice_readable [OF assms(1), of 0 "length c"] le i takeWhile_eq_take [of ?P ?line] c(1)
    by (simp add: peek_def slice_def min_def)
  show "slice (Suc (readerIndex b + length c)) (readerIndex b + i) (buffer b) = t"
    using slice_readable [OF assms(1), of "Suc (length c)" i] le ne i t
    by (simp add: slice_def take_drop)
qed

lemma parse_pub:
  assumes wf: "buf_wf b" and i: "search_list kCRLF (readable b) = Some i"
    and sp: "split_space (take i (readable b)) = Some (''pub'', t)"
  shows "\<exists>r. parseMessage b cmd topic content = Inr r \<and> buf_wf (fst (snd r))
    \<and> parse_view r = (case split_line (drop (i + 2) (readable b)) of
         None \<Rightarrow> (kContinue, readable b, ''pub'', t, content)
       | Some (m, rest) \<Rightarrow> (kSuccess, rest, ''pub'', t, m))"
proof -
  let ?q = "readable b"
  have le: "i + 2 \<le> length ?q" using search_list_Some [OF i] by simp
  note code = parse_command [OF wf i sp]
  have found: "findCRLF_from b (readerIndex b + i + 2)
      = Inr (map_option ((+) (readerIndex b + (i + 2))) (search_list kCRLF (drop (i + 2) ?q)))"
    using findCRLF_from_view [OF wf le] by (simp add: add.assoc)
  show ?thesis
  proof (cases "search_list kCRLF (drop (i + 2) ?q)")
    case None
    then have "split_line (drop (i + 2) ?q) = None" by (simp add: split_line_def)
    with None show ?thesis
      using wf found code by (simp add: parseMessage_def Let_def parse_view_def)
  next
    case (Some k)
    have k: "i + 2 + k + 2 \<le> length ?q" using search_list_Some [OF Some] le by auto
    have rest: "split_line (drop (i + 2) ?q) = Some (take k (drop (i + 2) ?q), drop (i + 2 + k + 2) ?q)"
      using Some by (simp add: split_line_def ac_simps)
    have m: "slice (readerIndex b + i + 2) (readerIndex b + (i + 2) + k) (buffer b)
        = take k (drop (i + 2) ?q)"
      using slice_readable [OF wf, of "i + 2" "i + 2 + k"] k by (simp add: slice_def ac_simps)
    from retrieveUntil_spec [OF wf k] show ?thesis
      using found rest Some m code
      by (auto simp: parseMessage_def Let_def parse_view_def add.assoc)
  qed
qed

lemma parse_ok:
  assumes wf: "buf_wf b"
  shows "\<exists>r. parseMessage b cmd topic content = Inr r \<and> buf_wf (fst (snd r))
    \<and> parse_view r = decode (readable b) cmd topic content"
proof (cases "search_list kCRLF (readable b)")
  case None
  then show ?thesis
    using wf by (simp add: parseMessage_def findCRLF_view parse_view_def decode_def split_line_def)
next
  case (Some i)
  let ?q = "readable b"
  have i: "i + 2 \<le> length ?q" using search_list_Some [OF Some] by simp
  have line: "split_line ?q = Some (take i ?q, drop (i + 2) ?q)"
    using Some by (simp add: split_line_def)
  show ?thesis
  proof (cases "split_space (take i ?q)")
    case None
    with parse_malformed [OF wf Some None] wf line show ?thesis
      by (simp add: parse_view_def decode_def)
  next
    case sp: (Some ct)
    obtain c t where ct: "split_space (take i ?q) = Some (c, t)" using sp by (cases ct) simp
    show ?thesis
    proof (cases "c = ''pub''")
      case True
      with parse_pub [OF wf Some] ct line show ?thesis by (simp add: decode_def)
    next
      case False
      from retrieveUntil_spec [OF wf i] show ?thesis
        using False line ct parse_command [OF wf Some ct]
        by (auto simp: parseMessage_def Let_def parse_view_def decode_def add.assoc)
    qed
  qed
qed

subsection \<open>Properties\<close>

text \<open>
  C12 (refinement). On every well-formed buffer \<open>parseMessage\<close> returns (no assertion
  fails, no access is out of range), keeps the buffer well formed, and its result, its
  three output strings and the bytes left readable are those of the specification parser
  on the plain byte list: nothing is consumed on \<open>kContinue\<close> and \<open>kError\<close>, the command
  line is consumed on success, and for a \<open>pub\<close> command the content line too.
\<close>
theorem parseMessage_refines_decode:
  assumes "buf_wf b"
  shows "\<exists>r. parseMessage b cmd topic content = Inr r \<and> buf_wf (fst (snd r))
    \<and> parse_view r = decode (readable b) cmd topic content"
  using assms by (rule parse_ok)

theorem parseMessage_refines_decode_witness:
  "\<exists>r. parseMessage Buffer_new ''a'' ''b'' ''c'' = Inr r \<and> buf_wf (fst (snd r))
    \<and> parse_view r = (kContinue, [], ''a'', ''b'', ''c'')"
  using parseMessage_refines_decode [OF buf_wf_new, of "''a''" "''b''" "''c''"]
  by (simp add: readable_new decode_def split_line_def kCRLF_def)

text \<open>
  C16 (roundtrip). A message encoded as command, blank, topic and line end, followed for
  \<open>pub\<close> by the content line, is parsed back to exactly its parts whatever follows it in
  the buffer, and exactly the bytes that follow stay readable.  The command holds no blank
  and neither the first line nor the content holds a line end.
\<close>
theorem parseMessage_encode:
  assumes "buf_wf b" and "readable b = encode c t m @ rest"
    and "CHR '' '' \<notin> set c" and "crlf_free (c @ '' '' @ t)" and "crlf_free m"
  shows "\<exists>b'. parseMessage b c0 t0 m0 = Inr (kSuccess, b', c, t, if c = ''pub'' then m else m0)
    \<and> buf_wf b' \<and> readable b' = rest"
proof -
  have "split_line (readable b) = Some (c @ '' '' @ t, (if c = ''pub'' then m @ kCRLF else []) @ rest)"
    using split_line_crlf [OF assms(4)] assms(2) by (simp add: encode_def)
  moreover have "split_line (m @ kCRLF @ rest) = Some (m, rest)"
    using assms(5) by (rule split_line_crlf)
  ultimately have "decode (readable b) c0 t0 m0
      = (kSuccess, rest, c, t, if c = ''pub'' then m else m0)"
    using split_space_exact [OF assms(3), of t] by (simp add: decode_def)
  with parse_ok [OF assms(1), of c0 t0 m0] show ?thesis
    by (auto simp: parse_view_def split: prod.splits)
qed

theorem parseMessage_encode_witness:
  "\<exists>b b'. readable b = encode ''pub'' ''t'' ''hi'' @ ''sub x''
     \<and> parseMessage b [] [] [] = Inr (kSuccess, b', ''pub'', ''t'', ''hi'')
     \<and> buf_wf b' \<and> readable b' = ''sub x''"
proof -
  let ?q = "encode ''pub'' ''t'' ''hi'' @ ''sub x''"
  have "buf_room (length ?q) Buffer_new"
    by (simp add: buf_room_def Buffer_new_def encode_def kCheapPrepend_def)
  from bq.put_ok [OF buf_wf_new this] obtain b where b: "buf_wf b" "readable b = ?q"
    by (auto simp: readable_new)
  have "crlf_free (''pub'' @ '' '' @ ''t'')" and "crlf_free ''hi''"
    by (simp_all add: crlf_free_def kCRLF_def)
  from parseMessage_encode [OF b _ this, of "[]" "[]" "[]"] b show ?thesis by auto
qed

text \<open>
  C17 (safety). Parsing does not depend on how the network cuts the stream: if a parse of
  the bytes received so far succeeds or reports an error, then a parse with more bytes
  behind them gives the same result and outputs, and leaves the same bytes plus the later
  ones.
\<close>
theorem parse_chunking_independent:
  assumes "buf_wf b" and "buf_wf b2" and "readable b2 = readable b @ suf"
    and "parseMessage b cmd topic content = Inr (r, b', c, t, m)" and "r \<noteq> kContinue"
  shows "\<exists>b2'. parseMessage b2 cmd topic content = Inr (r, b2', c, t, m)
    \<and> readable b2' = readable b' @ suf"
proof -
  have "decode (readable b) cmd topic content = (r, readable b', c, t, m)"
    using parse_ok [OF assms(1), of cmd topic content] assms(4) by (simp add: parse_view_def)
  then have "decode (readable b @ suf) cmd topic content = (r, readable b' @ suf, c, t, m)"
    using assms(5)
    by (auto simp: decode_def split_line_append split: option.splits if_splits prod.splits)
  with parse_ok [OF assms(2), of cmd topic content] assms(3) show ?thesis
    by (auto simp: parse_view_def split: prod.splits)
qed

theorem parse_chunking_independent_witness:
  "\<exists>b b' b2 b2'. parseMessage b [] [] [] = Inr (kSuccess, b', ''sub'', ''x'', [])
     \<and> readable b2 = readable b @ ''pub''
     \<and> parseMessage b2 [] [] [] = Inr (kSuccess, b2', ''sub'', ''x'', [])
     \<and> readable b2' = readable b' @ ''pub''"
proof -
  let ?q = "encode ''sub'' ''x'' []"
  have room: "buf_room (length ?q) Buffer_new" "buf_room (length (?q @ ''pub'')) Buffer_new"
    by (simp_all add: buf_room_def Buffer_new_def encode_def kCheapPrepend_def)
  from bq.put_ok [OF buf_wf_new room(1)] obtain b where b: "buf_wf b" "readable b = ?q"
    by (auto simp: readable_new)
  from bq.put_ok [OF buf_wf_new room(2)] obtain b2 where b2: "buf_wf b2" "readable b2 = ?q @ ''pub''"
    by (auto simp: readable_new)
  have "split_line (readable b) = Some (''sub x'', [])"
    using split_line_crlf [of "''sub x''" "[]"] b(2)
    by (simp add: encode_def crlf_free_def kCRLF_def)
  then have "decode (readable b) [] [] [] = (kSuccess, [], ''sub'', ''x'', [])"
    by (simp add: decode_def split_space_def)
  with parse_ok [OF b(1), of "[]" "[]" "[]"] obtain b' where
    "parseMessage b [] [] [] = Inr (kSuccess, b', ''sub'', ''x'', [])"
    by (auto simp: parse_view_def split: prod.splits)
  moreover have "readable b2 = readable b @ ''pub''" using b(2) b2(2) by simp
  ultimately show ?thesis
    using parse_chunking_independent [OF b(1) b2(1), of "''pub''" "[]" "[]" "[]" kSuccess b'] by blast
qed

end
