(* ===== verification/Poller.thy ===== *)
theory Poller
  imports Prelude "HOL-Library.Word"
begin

unbundle bit_operations_syntax

section \<open>Channels and the poller\<close>

text \<open>
  Model of \<open>include/Channel.h\<close>, \<open>src/Channel.cpp\<close>, \<open>include/Poller.h\<close> and
  \<open>src/Poller.cpp\<close>.  Channels are objects that the poller, the event loop and the
  connections share through pointers, so they live in an explicit store from addresses to
  objects.  The poller keeps the array given to \<open>poll(2)\<close> and a map from descriptors to
  channel addresses; each channel caches its position in the array in \<open>index_\<close>.  What
  \<open>poll(2)\<close> answers is a parameter.  \<open>assertInLoopThread\<close> only writes a log line (the
  \<open>abort\<close> of a fatal log line is commented out in the source) and so has no effect here.
\<close>

subsection \<open>Events\<close>

definition POLLIN :: "32 word" where "POLLIN = 1"
definition POLLPRI :: "32 word" where "POLLPRI = 2"
definition POLLOUT :: "32 word" where "POLLOUT = 4"
definition POLLERR :: "32 word" where "POLLERR = 8"
definition POLLHUP :: "32 word" where "POLLHUP = 16"
definition POLLNVAL :: "32 word" where "POLLNVAL = 32"
definition POLLRDHUP :: "32 word" where "POLLRDHUP = 8192"

lemmas poll_bits = POLLIN_def POLLPRI_def POLLOUT_def POLLERR_def POLLHUP_def POLLNVAL_def POLLRDHUP_def

definition kNoneEvent :: "32 word" where "kNoneEvent = 0"
definition kReadEvent :: "32 word" where "kReadEvent = POLLIN OR POLLPRI"
definition kWriteEvent :: "32 word" where "kWriteEvent = POLLOUT"

lemmas event_consts = kNoneEvent_def kReadEvent_def kWriteEvent_def poll_bits

subsection \<open>Channels\<close>

text \<open>A callback is a value of the type \<open>'cb\<close>, interpreted by the event loop; \<open>None\<close> is an empty function.\<close>

record 'cb Channel =
  eventHandling :: bool
  loopOf :: nat
  fd :: int
  events :: "32 word"
  revents :: "32 word"
  index :: int
  readCallback :: "'cb option"
  writeCallback :: "'cb option"
  errorCallback :: "'cb option"
  closeCallback :: "'cb option"

definition Channel_new :: "nat \<Rightarrow> int \<Rightarrow> 'cb Channel" where
  "Channel_new l f = \<lparr>eventHandling = False, loopOf = l, fd = f, events = 0, revents = 0,
     index = - 1, readCallback = None, writeCallback = None, errorCallback = None, closeCallback = None\<rparr>"

text \<open>The destructor asserts that no callback of the channel is running.\<close>

definition Channel_delete :: "'cb Channel \<Rightarrow> unit res" where
  "Channel_delete c = assertR (\<not> eventHandling c) (Inr ())"

definition isNoneEvent :: "'cb Channel \<Rightarrow> bool" where
  "isNoneEvent c \<longleftrightarrow> events c = kNoneEvent"

definition isWriting :: "'cb Channel \<Rightarrow> bool" where
  "isWriting c \<longleftrightarrow> events c AND kWriteEvent \<noteq> 0"

definition isReading :: "'cb Channel \<Rightarrow> bool" where
  "isReading c \<longleftrightarrow> events c AND kReadEvent = kReadEvent"

subsection \<open>The poller\<close>

record pollfd =
  pfd_fd :: int
  pfd_events :: "16 word"
  pfd_revents :: "16 word"

record 'cb poll_state =
  loopId :: nat
  store :: "nat \<rightharpoonup> 'cb Channel"
  pollfds :: "pollfd list"
  channels :: "int \<rightharpoonup> nat"

definition Poller_updateChannel :: "nat \<Rightarrow> ('cb, 'm) poll_state_scheme \<Rightarrow> ('cb, 'm) poll_state_scheme res" where
  "Poller_updateChannel ch ps =
     (case store ps ch of
        None \<Rightarrow> Inl Undefined
      | Some c \<Rightarrow>
          if index c < 0 then
            assertR (channels ps (fd c) = None)
              (let pfd = \<lparr>pfd_fd = fd c, pfd_events = ucast (events c), pfd_revents = 0\<rparr>;
                   pfds = pollfds ps @ [pfd];
                   idx = int (length pfds) - 1
               in Inr (ps\<lparr>pollfds := pfds,
                          store := (store ps)(ch \<mapsto> c\<lparr>index := idx\<rparr>),
                          channels := (channels ps)(pfd_fd pfd \<mapsto> ch)\<rparr>))
          else
            assertR (channels ps (fd c) \<noteq> None) (assertR (channels ps (fd c) = Some ch)
              (let idx = index c in
               assertR (0 \<le> idx \<and> idx < int (length (pollfds ps)))
                 (let pfd = pollfds ps ! nat idx in
                  assertR (pfd_fd pfd = fd c \<or> pfd_fd pfd = - fd c - 1)
                    (let pfd1 = pfd\<lparr>pfd_events := ucast (events c), pfd_revents := 0\<rparr>;
                         pfd2 = (if isNoneEvent c then pfd1\<lparr>pfd_fd := - fd c - 1\<rparr> else pfd1)
                     in Inr (ps\<lparr>pollfds := (pollfds ps)[nat idx := pfd2]\<rparr>))))))"

definition Poller_removeChannel :: "nat \<Rightarrow> ('cb, 'm) poll_state_scheme \<Rightarrow> ('cb, 'm) poll_state_scheme res" where
  "Poller_removeChannel ch ps =
     (case store ps ch of
        None \<Rightarrow> Inl Undefined
      | Some c \<Rightarrow>
          assertR (channels ps (fd c) \<noteq> None) (assertR (channels ps (fd c) = Some ch)
          (assertR (isNoneEvent c)
            (let idx = index c; pfds = pollfds ps in
             assertR (0 \<le> idx \<and> idx < int (length pfds))
               (let pfd = pfds ! nat idx in
                assertR (pfd_fd pfd = - fd c - 1 \<and> scast (pfd_events pfd) = events c)
                  (let chans = (channels ps)(fd c := None) in
                   if nat idx = length pfds - 1
                   then Inr (ps\<lparr>channels := chans, pollfds := butlast pfds\<rparr>)
                   else
                     let atEnd = pfd_fd (last pfds);
                         swapped = (pfds[nat idx := last pfds])[length pfds - 1 := pfd];
                         channelAtEnd = (if atEnd < 0 then - atEnd - 1 else atEnd)
                     in case chans channelAtEnd of
                          None \<Rightarrow> Inl Undefined
                        | Some ch2 \<Rightarrow>
                            (case store ps ch2 of
                               None \<Rightarrow> Inl Undefined
                             | Some c2 \<Rightarrow>
                                 Inr (ps\<lparr>channels := chans,
                                         store := (store ps)(ch2 \<mapsto> c2\<lparr>index := idx\<rparr>),
                                         pollfds := butlast swapped\<rparr>))))))))"

text \<open>
  \<open>fillActiveChannels\<close>: the loop over the array stops when all reported events are found.
\<close>

fun fill_loop :: "pollfd list \<Rightarrow> int \<Rightarrow> ('cb, 'm) poll_state_scheme \<Rightarrow> nat list \<Rightarrow>
    (('cb, 'm) poll_state_scheme \<times> nat list) res" where
  "fill_loop [] numEvents ps active = Inr (ps, active)"
| "fill_loop (pfd # rest) numEvents ps active =
     (if numEvents > 0 then
        (if sint (pfd_revents pfd) > 0 then
           (case channels ps (pfd_fd pfd) of
              None \<Rightarrow> Inl Assert_failed
            | Some ch \<Rightarrow>
                (case store ps ch of
                   None \<Rightarrow> Inl Undefined
                 | Some c \<Rightarrow>
                     assertR (fd c = pfd_fd pfd)
                       (fill_loop rest (numEvents - 1)
                          (ps\<lparr>store := (store ps)(ch \<mapsto> c\<lparr>revents := scast (pfd_revents pfd)\<rparr>)\<rparr>)
                          (active @ [ch]))))
         else fill_loop rest numEvents ps active)
      else Inr (ps, active))"

definition fillActiveChannels :: "int \<Rightarrow> ('cb, 'm) poll_state_scheme \<Rightarrow> nat list \<Rightarrow>
    (('cb, 'm) poll_state_scheme \<times> nat list) res" where
  "fillActiveChannels numEvents ps active = fill_loop (pollfds ps) numEvents ps active"

text \<open>
  \<open>Poller::poll\<close>: the answer of \<open>poll(2)\<close> is the number of ready entries and the
  \<open>revents\<close> it wrote into the array, or a negative number.
\<close>

definition Poller_poll :: "int \<times> 16 word list \<Rightarrow> ('cb, 'm) poll_state_scheme \<Rightarrow> nat list \<Rightarrow>
    (('cb, 'm) poll_state_scheme \<times> nat list) res" where
  "Poller_poll answer ps active =
     (let (numEvents, revs) = answer;
          ps1 = (if numEvents \<ge> 0
                 then ps\<lparr>pollfds := map2 (\<lambda>p r. p\<lparr>pfd_revents := r\<rparr>) (pollfds ps) revs\<rparr> else ps)
      in if numEvents > 0 then fillActiveChannels numEvents ps1 active
         else Inr (ps1, active))"

subsection \<open>Changing the interest of a channel\<close>

text \<open>
  \<open>Channel::update\<close> calls \<open>EventLoop::updateChannel\<close> of the owner loop, which asserts the
  ownership and calls the poller.
\<close>

definition EventLoop_updateChannel :: "nat \<Rightarrow> ('cb, 'm) poll_state_scheme \<Rightarrow> ('cb, 'm) poll_state_scheme res" where
  "EventLoop_updateChannel ch ps =
     (case store ps ch of
        None \<Rightarrow> Inl Undefined
      | Some c \<Rightarrow> assertR (loopOf c = loopId ps) (Poller_updateChannel ch ps))"

definition EventLoop_removeChannel :: "nat \<Rightarrow> ('cb, 'm) poll_state_scheme \<Rightarrow> ('cb, 'm) poll_state_scheme res" where
  "EventLoop_removeChannel ch ps =
     (case store ps ch of
        None \<Rightarrow> Inl Undefined
      | Some c \<Rightarrow> assertR (loopOf c = loopId ps) (Poller_removeChannel ch ps))"

definition Channel_setEvents :: "('cb Channel \<Rightarrow> 32 word) \<Rightarrow> nat \<Rightarrow> ('cb, 'm) poll_state_scheme \<Rightarrow>
    ('cb, 'm) poll_state_scheme res" where
  "Channel_setEvents f ch ps =
     (case store ps ch of
        None \<Rightarrow> Inl Undefined
      | Some c \<Rightarrow> EventLoop_updateChannel ch (ps\<lparr>store := (store ps)(ch \<mapsto> c\<lparr>events := f c\<rparr>)\<rparr>))"

definition enableReading :: "nat \<Rightarrow> ('cb, 'm) poll_state_scheme \<Rightarrow> ('cb, 'm) poll_state_scheme res" where
  "enableReading = Channel_setEvents (\<lambda>c. events c OR kReadEvent)"

definition enableWriting :: "nat \<Rightarrow> ('cb, 'm) poll_state_scheme \<Rightarrow> ('cb, 'm) poll_state_scheme res" where
  "enableWriting = Channel_setEvents (\<lambda>c. events c OR kWriteEvent)"

definition disableWriting :: "nat \<Rightarrow> ('cb, 'm) poll_state_scheme \<Rightarrow> ('cb, 'm) poll_state_scheme res" where
  "disableWriting = Channel_setEvents (\<lambda>c. events c AND NOT kWriteEvent)"

definition disableAll :: "nat \<Rightarrow> ('cb, 'm) poll_state_scheme \<Rightarrow> ('cb, 'm) poll_state_scheme res" where
  "disableAll = Channel_setEvents (\<lambda>c. kNoneEvent)"

text \<open>
  \<open>Channel::handleEvent\<close>: the callbacks are run in the order of the code by the
  interpreter \<open>run\<close>; the channel object is read again before each of them, as the code
  reads its own fields.
\<close>

definition run_opt :: "('cb \<Rightarrow> 's \<Rightarrow> 's res) \<Rightarrow> 'cb option \<Rightarrow> 's \<Rightarrow> 's res" where
  "run_opt run cb s = (case cb of None \<Rightarrow> Inr s | Some f \<Rightarrow> run f s)"

definition with_channel :: "nat \<Rightarrow> ('cb Channel \<Rightarrow> ('cb, 'm) poll_state_scheme \<Rightarrow> 'r res) \<Rightarrow>
    ('cb, 'm) poll_state_scheme \<Rightarrow> 'r res" where
  "with_channel ch f ps = (case store ps ch of None \<Rightarrow> Inl Undefined | Some c \<Rightarrow> f c ps)"

definition handleEvent :: "('cb \<Rightarrow> ('cb, 'm) poll_state_scheme \<Rightarrow> ('cb, 'm) poll_state_scheme res) \<Rightarrow>
    nat \<Rightarrow> ('cb, 'm) poll_state_scheme \<Rightarrow> ('cb, 'm) poll_state_scheme res" where
  "handleEvent run ch ps0 =
     with_channel ch (\<lambda>c ps.
       let ps1 = ps\<lparr>store := (store ps)(ch \<mapsto> c\<lparr>eventHandling := True\<rparr>)\<rparr> in
       res_bind (if revents c AND POLLHUP \<noteq> 0 \<and> revents c AND POLLIN = 0
                 then run_opt run (closeCallback c) ps1 else Inr ps1)
       (with_channel ch (\<lambda>c ps. res_bind
         (if revents c AND (POLLERR OR POLLNVAL) \<noteq> 0 then run_opt run (errorCallback c) ps else Inr ps)
       (with_channel ch (\<lambda>c ps. res_bind
         (if revents c AND (POLLIN OR POLLPRI OR POLLRDHUP) \<noteq> 0
          then run_opt run (readCallback c) ps else Inr ps)
       (with_channel ch (\<lambda>c ps. res_bind
         (if revents c AND POLLOUT \<noteq> 0 then run_opt run (writeCallback c) ps else Inr ps)
       (with_channel ch (\<lambda>c ps.
          Inr (ps\<lparr>store := (store ps)(ch \<mapsto> c\<lparr>eventHandling := False\<rparr>)\<rparr>)))))))))) ps0"

text \<open>A channel may be destroyed once its \<open>handleEvent\<close> has returned.\<close>

lemma handleEvent_deletable:
  assumes "handleEvent run ch s = Inr s'"
  obtains c where "store s' ch = Some c" and "Channel_delete c = Inr ()"
proof -
  obtain s1 c where "s' = s1\<lparr>store := (store s1)(ch \<mapsto> c\<lparr>eventHandling := False\<rparr>)\<rparr>"
    using assms by (auto simp: handleEvent_def with_channel_def Let_def split: option.splits)
  then show thesis by (intro that [of "c\<lparr>eventHandling := False\<rparr>"]) (simp_all add: Channel_delete_def)
qed

subsection \<open>The invariant of the poller\<close>

text \<open>
  \<open>attached ps ch c\<close>: the object \<open>c\<close> at address \<open>ch\<close> is the channel of its descriptor.
  The invariant says that the map and the array agree: every attached channel has a valid
  position whose entry carries its descriptor, or its complement when it is ignored, and
  every entry belongs to an attached channel.
\<close>

definition attached :: "('cb, 'm) poll_state_scheme \<Rightarrow> nat \<Rightarrow> 'cb Channel \<Rightarrow> bool" where
  "attached ps ch c \<longleftrightarrow> store ps ch = Some c \<and> channels ps (fd c) = Some ch"

definition entry :: "('cb, 'm) poll_state_scheme \<Rightarrow> 'cb Channel \<Rightarrow> pollfd" where
  "entry ps c = pollfds ps ! nat (index c)"

definition entry_of :: "int \<Rightarrow> pollfd \<Rightarrow> bool" where
  "entry_of f p \<longleftrightarrow> pfd_fd p = f \<or> pfd_fd p = - f - 1"

definition poll_wf :: "('cb, 'm) poll_state_scheme \<Rightarrow> bool" where
  "poll_wf ps \<longleftrightarrow>
     (\<forall>f ch. channels ps f = Some ch \<longrightarrow>
        (\<exists>c. store ps ch = Some c \<and> fd c = f \<and> 0 \<le> f \<and> 0 \<le> index c
           \<and> nat (index c) < length (pollfds ps) \<and> entry_of f (entry ps c)))
   \<and> (\<forall>i < length (pollfds ps). \<exists>ch c. attached ps ch c \<and> index c = int i)"

lemma attachedD:
  assumes "poll_wf ps" and "attached ps ch c"
  shows "0 \<le> fd c" "0 \<le> index c" "nat (index c) < length (pollfds ps)" "entry_of (fd c) (entry ps c)"
proof -
  from assms(2) have st: "store ps ch = Some c" and m: "channels ps (fd c) = Some ch"
    by (simp_all add: attached_def)
  from assms(1) m obtain c' where "store ps ch = Some c'" "0 \<le> fd c" "0 \<le> index c'"
      "nat (index c') < length (pollfds ps)" "entry_of (fd c) (entry ps c')"
    unfolding poll_wf_def by blast
  with st show "0 \<le> fd c" "0 \<le> index c" "nat (index c) < length (pollfds ps)"
    "entry_of (fd c) (entry ps c)" by simp_all
qed

lemma channelsD:
  assumes "poll_wf ps" and "channels ps f = Some ch"
  obtains c where "attached ps ch c" "fd c = f"
  using assms unfolding poll_wf_def attached_def by blast

lemma slotD:
  assumes "poll_wf ps" and "i < length (pollfds ps)"
  obtains ch c where "attached ps ch c" "index c = int i"
  using assms unfolding poll_wf_def by blast

lemma poll_wfI:
  assumes "\<And>f ch. channels ps f = Some ch \<Longrightarrow>
      \<exists>c. store ps ch = Some c \<and> fd c = f \<and> 0 \<le> f \<and> 0 \<le> index c
         \<and> nat (index c) < length (pollfds ps) \<and> entry_of f (entry ps c)"
    and "\<And>i. i < length (pollfds ps) \<Longrightarrow> \<exists>ch c. attached ps ch c \<and> index c = int i"
  shows "poll_wf ps"
  using assms unfolding poll_wf_def by blast

lemma entry_of_unique: "entry_of f p \<Longrightarrow> entry_of g p \<Longrightarrow> 0 \<le> f \<Longrightarrow> 0 \<le> g \<Longrightarrow> f = g"
  by (auto simp: entry_of_def)

lemma attached_unique:
  assumes "poll_wf ps" "attached ps ch c" "attached ps ch' c'" "index c = index c'"
  shows "ch' = ch \<and> c' = c"
proof -
  have "entry_of (fd c) (entry ps c)" "entry_of (fd c') (entry ps c)" "0 \<le> fd c" "0 \<le> fd c'"
    using attachedD [OF assms(1,2)] attachedD [OF assms(1,3)] assms(4) by (simp_all add: entry_def)
  then have "fd c = fd c'" by (rule entry_of_unique)
  with assms(2,3) show ?thesis by (simp add: attached_def)
qed

lemma poll_wf_empty: "poll_wf \<lparr>loopId = l, store = st, pollfds = [], channels = Map.empty, \<dots> = m\<rparr>"
  by (simp add: poll_wf_def)

subsection \<open>Adding, changing and removing a channel\<close>

lemma update_new:
  assumes wf: "poll_wf ps" and c: "store ps ch = Some c" "index c < 0"
    and free: "channels ps (fd c) = None" and pos: "0 \<le> fd c"
  defines "p \<equiv> \<lparr>pfd_fd = fd c, pfd_events = ucast (events c), pfd_revents = 0\<rparr>"
  defines "c' \<equiv> c\<lparr>index := int (length (pollfds ps))\<rparr>"
  defines "ps' \<equiv> ps\<lparr>pollfds := pollfds ps @ [p], store := (store ps)(ch \<mapsto> c'),
      channels := (channels ps)(fd c \<mapsto> ch)\<rparr>"
  shows "Poller_updateChannel ch ps = Inr ps'" and "poll_wf ps'"
proof -
  show "Poller_updateChannel ch ps = Inr ps'"
    using c free by (simp add: Poller_updateChannel_def Let_def ps'_def p_def c'_def)
  have new: "attached ps' ch c'" by (simp add: attached_def ps'_def c'_def)
  have old: "attached ps' ch2 c2" if "attached ps ch2 c2" for ch2 c2
  proof -
    have "ch2 \<noteq> ch" using that c attachedD(2) [OF wf that] by (auto simp: attached_def)
    then show ?thesis using that free by (auto simp: attached_def ps'_def)
  qed
  show "poll_wf ps'"
  proof (rule poll_wfI)
    fix f ch2 assume f: "channels ps' f = Some ch2"
    show "\<exists>c. store ps' ch2 = Some c \<and> fd c = f \<and> 0 \<le> f \<and> 0 \<le> index c
       \<and> nat (index c) < length (pollfds ps') \<and> entry_of f (entry ps' c)"
    proof (cases "f = fd c")
      case True
      with f have "ch2 = ch" by (simp add: ps'_def)
      with True pos show ?thesis
        by (simp add: ps'_def c'_def entry_def entry_of_def p_def nth_append)
    next
      case False
      with f have "channels ps f = Some ch2" by (simp add: ps'_def)
      then obtain c2 where c2: "attached ps ch2 c2" "fd c2 = f" by (rule channelsD [OF wf])
      then have "store ps' ch2 = Some c2" using old by (simp add: attached_def)
      with attachedD [OF wf c2(1)] c2(2) show ?thesis
        by (auto simp: entry_def ps'_def nth_append)
    qed
  next
    fix i assume "i < length (pollfds ps')"
    then consider "i < length (pollfds ps)" | "i = length (pollfds ps)" by (auto simp: ps'_def less_Suc_eq)
    then show "\<exists>ch c. attached ps' ch c \<and> index c = int i"
    proof cases
      case 1
      then obtain ch2 c2 where "attached ps ch2 c2" "index c2 = int i" by (rule slotD [OF wf])
      with old show ?thesis by blast
    next
      case 2
      then have "index c' = int i" by (simp add: c'_def)
      with new show ?thesis by blast
    qed
  qed
qed

lemma update_existing:
  assumes wf: "poll_wf ps" and c: "attached ps ch c"
  defines "p \<equiv> (let p1 = (entry ps c)\<lparr>pfd_events := ucast (events c), pfd_revents := 0\<rparr>
      in if isNoneEvent c then p1\<lparr>pfd_fd := - fd c - 1\<rparr> else p1)"
  defines "ps' \<equiv> ps\<lparr>pollfds := (pollfds ps)[nat (index c) := p]\<rparr>"
  shows "Poller_updateChannel ch ps = Inr ps'" and "poll_wf ps'"
proof -
  note a = attachedD [OF wf c]
  have st: "store ps ch = Some c" and mp: "channels ps (fd c) = Some ch" using c by (simp_all add: attached_def)
  show "Poller_updateChannel ch ps = Inr ps'"
    using st mp a
    by (auto simp: Poller_updateChannel_def Let_def ps'_def p_def entry_def entry_of_def)
  have pe: "entry_of (fd c) p" using a(4) by (simp add: p_def entry_of_def Let_def)
  show "poll_wf ps'"
  proof (rule poll_wfI)
    fix f ch2 assume "channels ps' f = Some ch2"
    then have "channels ps f = Some ch2" by (simp add: ps'_def)
    then obtain c2 where c2: "attached ps ch2 c2" "fd c2 = f" by (rule channelsD [OF wf])
    have "entry_of f (entry ps' c2)"
    proof (cases "nat (index c2) = nat (index c)")
      case True
      then have "index c = index c2" using a(2) attachedD(2) [OF wf c2(1)] by simp
      then have "c2 = c" using attached_unique [OF wf c c2(1)] by simp
      with pe c2(2) a(3) show ?thesis by (simp add: entry_def ps'_def)
    next
      case False
      with attachedD(4) [OF wf c2(1)] c2(2) show ?thesis by (simp add: entry_def ps'_def)
    qed
    with c2 attachedD [OF wf c2(1)] show "\<exists>c. store ps' ch2 = Some c \<and> fd c = f \<and> 0 \<le> f \<and> 0 \<le> index c
       \<and> nat (index c) < length (pollfds ps') \<and> entry_of f (entry ps' c)"
      by (auto simp: attached_def ps'_def)
  next
    fix i assume "i < length (pollfds ps')"
    then have "i < length (pollfds ps)" by (simp add: ps'_def)
    then obtain ch2 c2 where "attached ps ch2 c2" "index c2 = int i" by (rule slotD [OF wf])
    then show "\<exists>ch c. attached ps' ch c \<and> index c = int i" by (auto simp: attached_def ps'_def)
  qed
qed

text \<open>
  Removing: the last entry takes the place of the removed one and the channel of the last
  entry is told its new position.  \<open>moved\<close> is the new position of a channel.
\<close>

definition moved :: "('cb, 'm) poll_state_scheme \<Rightarrow> int \<Rightarrow> 'cb Channel \<Rightarrow> 'cb Channel" where
  "moved ps i c = (if index c = int (length (pollfds ps)) - 1 then c\<lparr>index := i\<rparr> else c)"

lemma moved_fd [simp]: "fd (moved ps i c) = fd c" by (simp add: moved_def)

definition removed :: "('cb, 'm) poll_state_scheme \<Rightarrow> 'cb Channel \<Rightarrow> nat \<Rightarrow> ('cb, 'm) poll_state_scheme" where
  "removed ps c chE =
     ps\<lparr>channels := (channels ps)(fd c := None),
        store := (store ps)(chE := (if index c = int (length (pollfds ps)) - 1 then store ps chE
                                    else map_option (moved ps (index c)) (store ps chE))),
        pollfds := butlast ((pollfds ps)[nat (index c) := last (pollfds ps)])\<rparr>"

lemma removeChannel_run:
  assumes wf: "poll_wf ps" and c: "attached ps ch c" and none: "isNoneEvent c"
    and ignored: "pfd_fd (entry ps c) = - fd c - 1" "pfd_events (entry ps c) = 0"
    and E: "attached ps chE cE" "index cE = int (length (pollfds ps)) - 1"
  shows "Poller_removeChannel ch ps = Inr (removed ps c chE)"
proof -
  note a = attachedD [OF wf c]
  let ?n = "length (pollfds ps)" and ?p = "pollfds ps"
  have st: "store ps ch = Some c" "channels ps (fd c) = Some ch" "events c = 0"
    using c none by (simp_all add: attached_def isNoneEvent_def kNoneEvent_def)
  have n: "?p \<noteq> []" using a(3) by auto
  show ?thesis
  proof (cases "nat (index c) = ?n - 1")
    case True
    then have "index c = int ?n - 1" using a(2,3) by linarith
    moreover have "(pollfds ps)[?n - 1 := last ?p] = ?p" using n by (simp add: last_conv_nth)
    ultimately show ?thesis
      using st none ignored a True n
      by (simp add: Poller_removeChannel_def Let_def entry_def removed_def last_conv_nth)
  next
    case False
    then have ne: "index c \<noteq> int ?n - 1" using a(2,3) by linarith
    have le: "last ?p = entry ps cE"
      using n E(2) by (simp add: entry_def last_conv_nth nat_diff_distrib')
    have eo: "entry_of (fd cE) (entry ps cE)" and fdE: "0 \<le> fd cE" using attachedD [OF wf E(1)] by auto
    then have atEnd: "(if pfd_fd (last ?p) < 0 then - pfd_fd (last ?p) - 1 else pfd_fd (last ?p)) = fd cE"
      unfolding le by (auto simp: entry_of_def)
    have "fd cE \<noteq> fd c" using E c ne by (auto simp: attached_def)
    then have chE: "((channels ps)(fd c := None)) (fd cE) = Some chE" "store ps chE = Some cE"
      using E(1) by (simp_all add: attached_def)
    have bl: "butlast ((?p[nat (index c) := last ?p])[?n - 1 := ?p ! nat (index c)])
        = butlast (?p[nat (index c) := last ?p])"
      by (simp add: butlast_list_update)
    show ?thesis
      using st none ignored a False n ne chE atEnd E(2) bl
      by (simp add: Poller_removeChannel_def Let_def entry_def removed_def moved_def)
  qed
qed

lemma moved_slot:
  assumes wf: "poll_wf ps" and c: "attached ps ch c" and c2: "attached ps ch2 c2" "ch2 \<noteq> ch"
  shows "0 \<le> index (moved ps (index c) c2)"
    and "nat (index (moved ps (index c) c2)) < length (pollfds (removed ps c chE))"
    and "entry (removed ps c chE) (moved ps (index c) c2) = entry ps c2"
proof -
  let ?n = "length (pollfds ps)" and ?i = "nat (index c)"
  note a = attachedD [OF wf c] and a2 = attachedD [OF wf c2(1)]
  have idne: "index c2 \<noteq> index c" using attached_unique [OF wf c c2(1)] c2(2) by auto
  show "0 \<le> index (moved ps (index c) c2)" using a(2) a2(2) by (simp add: moved_def)
  show len: "nat (index (moved ps (index c) c2)) < length (pollfds (removed ps c chE))"
  proof (cases "index c2 = int ?n - 1")
    case True
    then have "?i < ?n - 1" using a(2,3) idne by linarith
    with True show ?thesis by (simp add: moved_def removed_def)
  next
    case False
    then have "nat (index c2) < ?n - 1" using a2(2,3) by linarith
    with False show ?thesis by (simp add: moved_def removed_def)
  qed
  show "entry (removed ps c chE) (moved ps (index c) c2) = entry ps c2"
  proof (cases "index c2 = int ?n - 1")
    case True
    moreover have "pollfds ps \<noteq> []" using a(3) by auto
    ultimately have "pollfds ps ! nat (index c2) = last (pollfds ps)"
      by (simp add: last_conv_nth nat_diff_distrib')
    with True len a(3) show ?thesis
      by (simp add: entry_def moved_def removed_def nth_butlast)
  next
    case False
    moreover have "nat (index c2) \<noteq> ?i" using idne a(2) a2(2) by simp
    ultimately show ?thesis using len by (simp add: entry_def moved_def removed_def nth_butlast)
  qed
qed

lemma removed_attached:
  assumes wf: "poll_wf ps" and c: "attached ps ch c"
    and E: "attached ps chE cE" "index cE = int (length (pollfds ps)) - 1"
    and c2: "attached ps ch2 c2" "ch2 \<noteq> ch"
  shows "attached (removed ps c chE) ch2 (moved ps (index c) c2)"
proof -
  have fdne: "fd c2 \<noteq> fd c" using c c2 by (auto simp: attached_def)
  have idne: "index c2 \<noteq> index c" using attached_unique [OF wf c c2(1)] c2(2) by auto
  show ?thesis
  proof (cases "ch2 = chE")
    case True
    then have "c2 = cE" using E(1) c2(1) by (simp add: attached_def)
    with True E(2) c2(1) fdne idne show ?thesis by (simp add: attached_def removed_def moved_def)
  next
    case False
    then have "index c2 \<noteq> int (length (pollfds ps)) - 1" using attached_unique [OF wf E(1) c2(1)] E(2) by auto
    with False c2(1) fdne show ?thesis by (simp add: attached_def removed_def moved_def)
  qed
qed

lemma removed_wf:
  assumes wf: "poll_wf ps" and c: "attached ps ch c"
    and E: "attached ps chE cE" "index cE = int (length (pollfds ps)) - 1"
  shows "poll_wf (removed ps c chE)"
proof (rule poll_wfI)
  let ?ps = "removed ps c chE"
  note keep = removed_attached [OF wf c E]
  fix f ch2 assume "channels ?ps f = Some ch2"
  then have f: "channels ps f = Some ch2" "f \<noteq> fd c" by (auto simp: removed_def split: if_splits)
  from f(1) obtain c2 where c2: "attached ps ch2 c2" "fd c2 = f" by (rule channelsD [OF wf])
  then have "ch2 \<noteq> ch" using f(2) c by (auto simp: attached_def)
  note k = keep [OF c2(1) this] moved_slot(1) [OF wf c c2(1) this] moved_slot(2,3) [OF wf c c2(1) this, of chE]
  have "entry_of f (entry ?ps (moved ps (index c) c2))" "0 \<le> f"
    using k(4) attachedD [OF wf c2(1)] c2(2) by simp_all
  with k c2(2) show "\<exists>c. store ?ps ch2 = Some c \<and> fd c = f \<and> 0 \<le> f \<and> 0 \<le> index c
     \<and> nat (index c) < length (pollfds ?ps) \<and> entry_of f (entry ?ps c)"
    by (auto simp: attached_def)
next
  let ?ps = "removed ps c chE" and ?n = "length (pollfds ps)"
  note keep = removed_attached [OF wf c E] and a = attachedD [OF wf c]
  fix i assume "i < length (pollfds ?ps)"
  then have i: "i < ?n - 1" by (simp add: removed_def)
  show "\<exists>ch c. attached ?ps ch c \<and> index c = int i"
  proof (cases "int i = index c")
    case True
    then have ne: "index cE \<noteq> index c" using E(2) i by linarith
    then have "chE \<noteq> ch" using E(1) c by (auto simp: attached_def)
    moreover have "index (moved ps (index c) cE) = int i" using E(2) True by (simp add: moved_def)
    ultimately show ?thesis using keep(1) [OF E(1)] by blast
  next
    case False
    from i have "i < ?n" by simp
    then obtain ch2 c2 where c2: "attached ps ch2 c2" "index c2 = int i" by (rule slotD [OF wf])
    with False c have "ch2 \<noteq> ch" by (auto simp: attached_def)
    moreover have "index (moved ps (index c) c2) = int i" using c2(2) i by (auto simp: moved_def)
    ultimately show ?thesis using keep(1) [OF c2(1)] by blast
  qed
qed

lemma lastE:
  assumes "poll_wf ps" and "attached ps ch c"
  obtains chE cE where "attached ps chE cE" "index cE = int (length (pollfds ps)) - 1"
proof -
  have "length (pollfds ps) - 1 < length (pollfds ps)" using attachedD(3) [OF assms] by auto
  from slotD [OF assms(1) this] that attachedD(3) [OF assms] show ?thesis
    by (metis of_nat_diff of_nat_1 Suc_leI gr_zeroI not_less_zero One_nat_def)
qed

text \<open>Changing an object without its descriptor and position does not touch the invariant.\<close>

lemma poll_wf_store:
  assumes wf: "poll_wf ps" and c: "store ps ch = Some c" and "fd c' = fd c" and "index c' = index c"
  shows "poll_wf (ps\<lparr>store := (store ps)(ch \<mapsto> c')\<rparr>)" (is "poll_wf ?ps")
proof (rule poll_wfI)
  fix f ch2 assume "channels ?ps f = Some ch2"
  then have "channels ps f = Some ch2" by simp
  then obtain c2 where c2: "attached ps ch2 c2" "fd c2 = f" by (rule channelsD [OF wf])
  with attachedD [OF wf c2(1)] assms(2-4)
  show "\<exists>c. store ?ps ch2 = Some c \<and> fd c = f \<and> 0 \<le> f \<and> 0 \<le> index c
     \<and> nat (index c) < length (pollfds ?ps) \<and> entry_of f (entry ?ps c)"
    by (auto simp: attached_def entry_def)
next
  fix i assume "i < length (pollfds ?ps)"
  then have "i < length (pollfds ps)" by simp
  then obtain ch2 c2 where "attached ps ch2 c2" "index c2 = int i" by (rule slotD [OF wf])
  with assms(2-4) show "\<exists>ch c. attached ?ps ch c \<and> index c = int i"
    by (cases "ch2 = ch") (force simp: attached_def)+
qed

lemma setEvents_attached:
  assumes wf: "poll_wf ps" and c: "attached ps ch c" and own: "loopOf c = loopId ps"
  shows "\<exists>ps' p. Channel_setEvents f ch ps = Inr ps'
    \<and> ps' = ps\<lparr>store := (store ps)(ch \<mapsto> c\<lparr>events := f c\<rparr>), pollfds := (pollfds ps)[nat (index c) := p]\<rparr>
    \<and> poll_wf ps' \<and> attached ps' ch (c\<lparr>events := f c\<rparr>)
    \<and> pfd_events p = ucast (f c) \<and> pfd_revents p = 0
    \<and> pfd_fd p = (if f c = 0 then - fd c - 1 else pfd_fd (entry ps c))"
proof -
  let ?c = "c\<lparr>events := f c\<rparr>"
  let ?ps = "ps\<lparr>store := (store ps)(ch \<mapsto> ?c)\<rparr>"
  have st: "store ps ch = Some c" using c by (simp add: attached_def)
  have wf1: "poll_wf ?ps" using wf st by (intro poll_wf_store) simp_all
  have at1: "attached ?ps ch ?c" using c by (simp add: attached_def)
  note u = update_existing [OF wf1 at1]
  have "Channel_setEvents f ch ps = Poller_updateChannel ch ?ps"
    using st own by (simp add: Channel_setEvents_def EventLoop_updateChannel_def)
  with u show ?thesis
    using c by (auto simp: Let_def attached_def isNoneEvent_def kNoneEvent_def entry_def)
qed

lemma setEvents_new:
  assumes wf: "poll_wf ps" and c: "store ps ch = Some c" "index c < 0" and own: "loopOf c = loopId ps"
    and free: "channels ps (fd c) = None" and pos: "0 \<le> fd c"
  shows "\<exists>ps'. Channel_setEvents f ch ps = Inr ps' \<and> poll_wf ps'
    \<and> ps' = ps\<lparr>pollfds := pollfds ps @ [\<lparr>pfd_fd = fd c, pfd_events = ucast (f c), pfd_revents = 0\<rparr>],
        store := (store ps)(ch \<mapsto> c\<lparr>events := f c, index := int (length (pollfds ps))\<rparr>),
        channels := (channels ps)(fd c \<mapsto> ch)\<rparr>"
proof -
  let ?c = "c\<lparr>events := f c\<rparr>"
  let ?ps = "ps\<lparr>store := (store ps)(ch \<mapsto> ?c)\<rparr>"
  have wf1: "poll_wf ?ps" using wf c by (intro poll_wf_store) simp_all
  have "Channel_setEvents f ch ps = Poller_updateChannel ch ?ps"
    using c own by (simp add: Channel_setEvents_def EventLoop_updateChannel_def)
  with update_new [OF wf1, of ch ?c] c free pos show ?thesis by simp
qed

subsection \<open>Reporting the ready channels\<close>

text \<open>
  What the manual page of \<open>poll(2)\<close> promises: one \<open>revents\<close> per entry, none for an entry
  with a negative descriptor, and as many ready entries as reported.
\<close>

definition poll_answer_ok :: "pollfd list \<Rightarrow> int \<Rightarrow> 16 word list \<Rightarrow> bool" where
  "poll_answer_ok pfds n revs \<longleftrightarrow> length revs = length pfds
     \<and> (\<forall>i < length pfds. 0 \<le> sint (revs ! i) \<and> (pfd_fd (pfds ! i) < 0 \<longrightarrow> revs ! i = 0))
     \<and> n = int (length (filter (\<lambda>r. r \<noteq> 0) revs))"

definition ready :: "('cb, 'm) poll_state_scheme \<Rightarrow> nat \<Rightarrow> nat \<Rightarrow> bool" where
  "ready ps k ch \<longleftrightarrow> (\<exists>c. attached ps ch c \<and> k \<le> nat (index c) \<and> pfd_revents (entry ps c) \<noteq> 0)"

definition with_revents :: "('cb, 'm) poll_state_scheme \<Rightarrow> 'cb Channel \<Rightarrow> 'cb Channel" where
  "with_revents ps c = c\<lparr>revents := scast (pfd_revents (entry ps c))\<rparr>"

text \<open>What filling the active list from position \<open>k\<close> on establishes.\<close>

definition filled :: "nat \<Rightarrow> ('cb, 'm) poll_state_scheme \<Rightarrow> ('cb, 'm) poll_state_scheme \<Rightarrow> nat list \<Rightarrow> bool" where
  "filled k ps ps' chs \<longleftrightarrow> distinct chs \<and> (\<forall>ch. ch \<in> set chs \<longleftrightarrow> ready ps k ch)
     \<and> ps' = ps\<lparr>store := \<lambda>ch. map_option (\<lambda>c. if ch \<in> set chs then with_revents ps c else c) (store ps ch)\<rparr>"

lemma filled_none: "(\<And>ch. \<not> ready ps k ch) \<Longrightarrow> filled k ps ps []"
  by (simp add: filled_def option.map_ident)

lemma sint_pos: "0 \<le> sint r \<Longrightarrow> 0 < sint r \<longleftrightarrow> r \<noteq> 0" for r :: "16 word"
  by (metis order_le_less order_less_irrefl signed_0 signed_eq_0_iff)

lemma ready_skip:
  assumes "poll_wf ps" and "attached ps ch c" and "index c = int k" and "pfd_revents (entry ps c) = 0"
  shows "ready ps k ch2 \<longleftrightarrow> ready ps (Suc k) ch2"
proof
  assume "ready ps k ch2"
  then obtain c2 where c2: "attached ps ch2 c2" "k \<le> nat (index c2)" "pfd_revents (entry ps c2) \<noteq> 0"
    by (auto simp: ready_def)
  have "nat (index c2) \<noteq> k"
  proof
    assume "nat (index c2) = k"
    then have "entry ps c2 = entry ps c" using assms(3) by (simp add: entry_def)
    with c2(3) assms(4) show False by simp
  qed
  with c2 show "ready ps (Suc k) ch2" by (auto simp: ready_def)
qed (auto simp: ready_def)

lemma filled_cons:
  assumes wf: "poll_wf ps" and c: "attached ps ch c" "index c = int k" "pfd_revents (entry ps c) \<noteq> 0"
    and f: "filled (Suc k) (ps\<lparr>store := (store ps)(ch \<mapsto> with_revents ps c)\<rparr>) ps' chs"
  shows "filled k ps ps' (ch # chs)"
proof -
  let ?c = "with_revents ps c"
  let ?ps = "ps\<lparr>store := (store ps)(ch \<mapsto> ?c)\<rparr>"
  have fields: "fd ?c = fd c" "index ?c = index c" by (simp_all add: with_revents_def)
  have st: "store ps ch = Some c" using c(1) by (simp add: attached_def)
  have at: "attached ?ps ch2 c2 \<longleftrightarrow> (if ch2 = ch then c2 = ?c else attached ps ch2 c2)" for ch2 c2
    using c(1) fields by (auto simp: attached_def)
  have en: "entry ?ps c2 = entry ps c2" for c2 by (simp add: entry_def)
  have rd: "ready ?ps (Suc k) ch2 \<longleftrightarrow> ch2 \<noteq> ch \<and> ready ps (Suc k) ch2" for ch2
    using c(2) fields by (auto simp: ready_def at en)
  have "ready ps k ch2 \<longleftrightarrow> ch2 = ch \<or> (ch2 \<noteq> ch \<and> ready ps (Suc k) ch2)" for ch2
  proof (cases "ch2 = ch")
    case True
    with c show ?thesis by (auto simp: ready_def)
  next
    case False
    have "nat (index c2) \<noteq> k" if "attached ps ch2 c2" for c2
      using attached_unique [OF wf c(1) that] False c(2) attachedD(2) [OF wf that] by auto
    with False show ?thesis by (auto simp: ready_def) (metis Suc_leI le_neq_implies_less)
  qed
  moreover have "ch \<notin> set chs" using f rd by (auto simp: filled_def)
  moreover have "(\<lambda>x. map_option (\<lambda>c. if x \<in> set chs then with_revents ?ps c else c) (store ?ps x))
      = (\<lambda>x. map_option (\<lambda>c. if x \<in> set (ch # chs) then with_revents ps c else c) (store ps x))"
  proof -
    have "with_revents ?ps = with_revents ps" by (simp add: fun_eq_iff with_revents_def entry_def)
    then show ?thesis using st \<open>ch \<notin> set chs\<close> by (simp only:) (auto simp: fun_eq_iff)
  qed
  ultimately show ?thesis using f rd by (auto simp: filled_def)
qed

lemma fill_loop_ok:
  assumes "poll_wf ps" and "pollfds ps = pre @ rest"
    and "\<forall>p \<in> set rest. 0 \<le> sint (pfd_revents p) \<and> (pfd_fd p < 0 \<longrightarrow> pfd_revents p = 0)"
    and "n = int (length (filter (\<lambda>p. pfd_revents p \<noteq> 0) rest))"
  shows "\<exists>ps' chs. fill_loop rest n ps act = Inr (ps', act @ chs) \<and> filled (length pre) ps ps' chs"
  using assms
proof (induction rest arbitrary: ps pre n act)
  case Nil
  have "\<not> ready ps (length pre) ch" for ch
    using Nil.prems(2) by (auto simp: ready_def dest: attachedD(3) [OF Nil.prems(1)])
  then show ?case using filled_none [of ps "length pre"] by auto
next
  case (Cons p rest)
  let ?k = "length pre"
  note wf = Cons.prems(1)
  have "?k < length (pollfds ps)" using Cons.prems(2) by simp
  then obtain ch c where c: "attached ps ch c" "index c = int ?k" by (rule slotD [OF wf])
  have p: "entry ps c = p" using c(2) Cons.prems(2) by (simp add: entry_def)
  have rest: "\<forall>p \<in> set rest. 0 \<le> sint (pfd_revents p) \<and> (pfd_fd p < 0 \<longrightarrow> pfd_revents p = 0)"
    using Cons.prems(3) by simp
  show ?case
  proof (cases "pfd_revents p = 0")
    case True
    have "\<exists>ps' chs. fill_loop rest n ps act = Inr (ps', act @ chs) \<and> filled (length (pre @ [p])) ps ps' chs"
      using True Cons.prems(2,4) by (intro Cons.IH [OF wf _ rest]) simp_all
    moreover have "ready ps ?k = ready ps (Suc ?k)"
      using ready_skip [OF wf c] p True by (simp add: fun_eq_iff)
    moreover have "fill_loop (p # rest) n ps act = fill_loop rest n ps act"
    proof (cases "n > 0")
      case False
      then show ?thesis by (cases rest) (simp_all add: True)
    qed (simp add: True)
    ultimately show ?thesis by (simp add: filled_def)
  next
    case False
    have pos: "0 < sint (pfd_revents p)" using False Cons.prems(3) sint_pos by auto
    have fdp: "pfd_fd p = fd c"
      using attachedD(1,4) [OF wf c(1)] False Cons.prems(3) p by (auto simp: entry_of_def)
    let ?ps = "ps\<lparr>store := (store ps)(ch \<mapsto> with_revents ps c)\<rparr>"
    have wf1: "poll_wf ?ps"
      using c(1) by (intro poll_wf_store [OF wf]) (simp_all add: attached_def with_revents_def)
    have n: "n - 1 = int (length (filter (\<lambda>p. pfd_revents p \<noteq> 0) rest))" "n > 0"
      using Cons.prems(4) False by simp_all
    obtain ps' chs where IH: "fill_loop rest (n - 1) ?ps (act @ [ch]) = Inr (ps', (act @ [ch]) @ chs)"
        "filled (length (pre @ [p])) ?ps ps' chs"
      using Cons.IH [OF wf1 _ rest n(1), of "pre @ [p]" "act @ [ch]"] Cons.prems(2) by auto
    have "filled ?k ps ps' (ch # chs)"
      using filled_cons [OF wf c, of ps' chs] IH(2) False p by simp
    moreover have "fill_loop (p # rest) n ps act = Inr (ps', act @ ch # chs)"
      using n(2) pos fdp c(1) IH(1) p by (simp add: attached_def with_revents_def)
    ultimately show ?thesis by blast
  qed
qed

lemma fill_loop_stop: "fill_loop pfds 0 ps act = Inr (ps, act)"
  by (cases pfds) simp_all

lemma poll_wf_map:
  assumes wf: "poll_wf ps" and same: "\<And>ch c. fd (g ch c) = fd c" "\<And>ch c. index (g ch c) = index c"
  shows "poll_wf (ps\<lparr>store := \<lambda>ch. map_option (g ch) (store ps ch)\<rparr>)" (is "poll_wf ?ps")
proof (rule poll_wfI)
  fix f ch assume "channels ?ps f = Some ch"
  then have "channels ps f = Some ch" by simp
  then obtain c where c: "attached ps ch c" "fd c = f" by (rule channelsD [OF wf])
  then show "\<exists>c. store ?ps ch = Some c \<and> fd c = f \<and> 0 \<le> f \<and> 0 \<le> index c
      \<and> nat (index c) < length (pollfds ?ps) \<and> entry_of f (entry ?ps c)"
    using attachedD [OF wf c(1)] same by (auto simp: attached_def entry_def)
next
  fix i assume "i < length (pollfds ?ps)"
  then have "i < length (pollfds ps)" by simp
  then obtain ch c where c: "attached ps ch c" "index c = int i" by (rule slotD [OF wf])
  then have "attached ?ps ch (g ch c)" "index (g ch c) = int i"
    using same by (simp_all add: attached_def)
  then show "\<exists>ch c. attached ?ps ch c \<and> index c = int i" by blast
qed

lemma filled_wf:
  assumes "poll_wf ps" and "filled k ps ps' chs"
  shows "poll_wf ps'"
  using poll_wf_map [OF assms(1), of "\<lambda>ch c. if ch \<in> set chs then with_revents ps c else c"] assms(2)
  by (simp add: filled_def with_revents_def)

lemma map2_revents:
  "length revs = length pfds \<Longrightarrow>
     filter (\<lambda>p. pfd_revents p \<noteq> 0) (map2 (\<lambda>p r. p\<lparr>pfd_revents := r\<rparr>) pfds revs)
     = map (\<lambda>(p, r). p\<lparr>pfd_revents := r\<rparr>) (filter (\<lambda>(p, r). r \<noteq> 0) (zip pfds revs))"
  by (induction revs pfds rule: list_induct2) auto

lemma length_filter_zip:
  "length revs = length pfds \<Longrightarrow>
     length (filter (\<lambda>(p, r). r \<noteq> 0) (zip pfds revs)) = length (filter (\<lambda>r. r \<noteq> 0) revs)"
  by (induction revs pfds rule: list_induct2) auto

lemma poll_wf_revents:
  assumes "poll_wf ps" and "length revs = length (pollfds ps)"
  shows "poll_wf (ps\<lparr>pollfds := map2 (\<lambda>p r. p\<lparr>pfd_revents := r\<rparr>) (pollfds ps) revs\<rparr>)"
    (is "poll_wf ?ps")
proof (rule poll_wfI)
  fix f ch assume "channels ?ps f = Some ch"
  then have "channels ps f = Some ch" by simp
  then obtain c where c: "attached ps ch c" "fd c = f" by (rule channelsD [OF assms(1)])
  note a = attachedD [OF assms(1) c(1)]
  have "pfd_fd (entry ?ps c) = pfd_fd (entry ps c)" using a(3) assms(2) by (simp add: entry_def)
  with a c assms(2) show "\<exists>c. store ?ps ch = Some c \<and> fd c = f \<and> 0 \<le> f \<and> 0 \<le> index c
      \<and> nat (index c) < length (pollfds ?ps) \<and> entry_of f (entry ?ps c)"
    by (auto simp: attached_def entry_of_def)
next
  fix i assume "i < length (pollfds ?ps)"
  then have "i < length (pollfds ps)" by simp
  then obtain ch c where "attached ps ch c" "index c = int i" by (rule slotD [OF assms(1)])
  then show "\<exists>ch c. attached ?ps ch c \<and> index c = int i" by (auto simp: attached_def)
qed

subsection \<open>The interface: a set of watched channels\<close>

text \<open>
  What the connections rely on when they change the interest of their channel or leave:
  the invariant is kept, and the other channels are left watched as they were.
\<close>

locale watch_set =
  fixes wf :: "'s \<Rightarrow> bool"
    and watched :: "'s \<Rightarrow> nat \<Rightarrow> 'cb Channel \<Rightarrow> bool"
    and slot :: "'s \<Rightarrow> 'cb Channel \<Rightarrow> pollfd"
    and set_events :: "('cb Channel \<Rightarrow> 32 word) \<Rightarrow> nat \<Rightarrow> 's \<Rightarrow> 's res"
    and remove :: "nat \<Rightarrow> 's \<Rightarrow> 's res"
    and owned :: "'s \<Rightarrow> 'cb Channel \<Rightarrow> bool"
  assumes set_ok: "wf s \<Longrightarrow> watched s ch c \<Longrightarrow> owned s c \<Longrightarrow>
      \<exists>s'. set_events f ch s = Inr s' \<and> wf s' \<and> watched s' ch (c\<lparr>events := f c\<rparr>)
        \<and> owned s' (c\<lparr>events := f c\<rparr>)
        \<and> pfd_events (slot s' (c\<lparr>events := f c\<rparr>)) = ucast (f c)
        \<and> (f c = 0 \<longrightarrow> pfd_fd (slot s' (c\<lparr>events := f c\<rparr>)) = - fd c - 1)
        \<and> (\<forall>ch2 c2. ch2 \<noteq> ch \<longrightarrow> watched s ch2 c2 \<longrightarrow> watched s' ch2 c2 \<and> slot s' c2 = slot s c2)"
    and remove_ok: "wf s \<Longrightarrow> watched s ch c \<Longrightarrow> owned s c \<Longrightarrow> events c = 0 \<Longrightarrow>
      pfd_fd (slot s c) = - fd c - 1 \<Longrightarrow> pfd_events (slot s c) = 0 \<Longrightarrow>
      \<exists>s'. remove ch s = Inr s' \<and> wf s' \<and> (\<forall>c'. fd c' = fd c \<longrightarrow> \<not> watched s' ch c')
        \<and> (\<forall>ch2 c2. ch2 \<noteq> ch \<longrightarrow> watched s ch2 c2 \<longrightarrow>
             (\<exists>i. watched s' ch2 (c2\<lparr>index := i\<rparr>) \<and> slot s' (c2\<lparr>index := i\<rparr>) = slot s c2))"
begin

text \<open>Turning all interest off and leaving, the end of every connection, succeeds.\<close>

lemma disable_then_remove:
  assumes "wf s" and "watched s ch c" and "owned s c"
  shows "\<exists>s1 s'. set_events (\<lambda>_. 0) ch s = Inr s1 \<and> remove ch s1 = Inr s' \<and> wf s'
    \<and> (\<forall>c'. fd c' = fd c \<longrightarrow> \<not> watched s' ch c')
    \<and> (\<forall>ch2 c2. ch2 \<noteq> ch \<longrightarrow> watched s ch2 c2 \<longrightarrow>
         (\<exists>i. watched s' ch2 (c2\<lparr>index := i\<rparr>) \<and> slot s' (c2\<lparr>index := i\<rparr>) = slot s c2))"
proof -
  let ?c = "c\<lparr>events := 0\<rparr>"
  obtain s1 where s1: "set_events (\<lambda>_. 0) ch s = Inr s1" "wf s1" "watched s1 ch ?c" "owned s1 ?c"
      "pfd_events (slot s1 ?c) = 0" "pfd_fd (slot s1 ?c) = - fd c - 1"
      "\<And>ch2 c2. ch2 \<noteq> ch \<Longrightarrow> watched s ch2 c2 \<Longrightarrow> watched s1 ch2 c2 \<and> slot s1 c2 = slot s c2"
    using set_ok [OF assms, of "\<lambda>_. 0"] by auto
  obtain s' where s': "remove ch s1 = Inr s'" "wf s'" "\<And>c'. fd c' = fd c \<Longrightarrow> \<not> watched s' ch c'"
      "\<And>ch2 c2. ch2 \<noteq> ch \<Longrightarrow> watched s1 ch2 c2 \<Longrightarrow>
         \<exists>i. watched s' ch2 (c2\<lparr>index := i\<rparr>) \<and> slot s' (c2\<lparr>index := i\<rparr>) = slot s1 c2"
    using remove_ok [OF s1(2-4)] s1(5,6) by auto
  from s1(1,7) s' show ?thesis by metis
qed

end

lemma setEvents_others:
  assumes wf: "poll_wf ps" and c: "attached ps ch c" and own: "loopOf c = loopId ps"
  obtains ps' where "Channel_setEvents f ch ps = Inr ps'" and "poll_wf ps'" and "attached ps' ch (c\<lparr>events := f c\<rparr>)"
    and "loopId ps' = loopId ps" and "pfd_events (entry ps' (c\<lparr>events := f c\<rparr>)) = ucast (f c)"
    and "f c = 0 \<Longrightarrow> pfd_fd (entry ps' (c\<lparr>events := f c\<rparr>)) = - fd c - 1"
    and "\<And>ch2 c2. ch2 \<noteq> ch \<Longrightarrow> attached ps ch2 c2 \<Longrightarrow> attached ps' ch2 c2 \<and> entry ps' c2 = entry ps c2"
proof -
  note a = attachedD [OF wf c]
  obtain ps' p where u: "Channel_setEvents f ch ps = Inr ps'"
      "ps' = ps\<lparr>store := (store ps)(ch \<mapsto> c\<lparr>events := f c\<rparr>), pollfds := (pollfds ps)[nat (index c) := p]\<rparr>"
      "poll_wf ps'" "attached ps' ch (c\<lparr>events := f c\<rparr>)" "pfd_events p = ucast (f c)"
      "pfd_fd p = (if f c = 0 then - fd c - 1 else pfd_fd (entry ps c))"
    using setEvents_attached [OF wf c own, of f] by blast
  have e: "entry ps' (c\<lparr>events := f c\<rparr>) = p" using u(2) a(3) by (simp add: entry_def)
  have o: "attached ps' ch2 c2 \<and> entry ps' c2 = entry ps c2" if "ch2 \<noteq> ch" "attached ps ch2 c2" for ch2 c2
  proof -
    have "index c2 \<noteq> index c" using attached_unique [OF wf c that(2)] that(1) by auto
    then have "nat (index c2) \<noteq> nat (index c)" using a(2) attachedD(2) [OF wf that(2)] by simp
    with that u(2) show ?thesis by (simp add: attached_def entry_def)
  qed
  show thesis by (rule that [OF u(1,3,4)]) (use u(2,5,6) e o in simp_all)
qed

lemma removeChannel_keeps_others:
  assumes wf: "poll_wf ps" and c: "attached ps ch c" and own: "loopOf c = loopId ps" and ev: "events c = 0"
    and ign: "pfd_fd (entry ps c) = - fd c - 1" "pfd_events (entry ps c) = 0"
  obtains chE where "EventLoop_removeChannel ch ps = Inr (removed ps c chE)" and "poll_wf (removed ps c chE)"
    and "\<And>ch2 c2. ch2 \<noteq> ch \<Longrightarrow> attached ps ch2 c2 \<Longrightarrow> \<exists>i. attached (removed ps c chE) ch2 (c2\<lparr>index := i\<rparr>)
      \<and> entry (removed ps c chE) (c2\<lparr>index := i\<rparr>) = entry ps c2"
proof -
  obtain chE cE where E: "attached ps chE cE" "index cE = int (length (pollfds ps)) - 1"
    using lastE [OF wf c] .
  have "isNoneEvent c" using ev by (simp add: isNoneEvent_def kNoneEvent_def)
  then have "EventLoop_removeChannel ch ps = Inr (removed ps c chE)"
    using removeChannel_run [OF wf c _ ign E] c own by (simp add: EventLoop_removeChannel_def attached_def)
  moreover have "\<exists>i. attached (removed ps c chE) ch2 (c2\<lparr>index := i\<rparr>)
      \<and> entry (removed ps c chE) (c2\<lparr>index := i\<rparr>) = entry ps c2"
    if "ch2 \<noteq> ch" "attached ps ch2 c2" for ch2 c2
  proof -
    have "moved ps (index c) c2 = c2\<lparr>index := index (moved ps (index c) c2)\<rparr>" by (simp add: moved_def)
    with removed_attached [OF wf c E that(2,1)] moved_slot(3) [OF wf c that(2,1), of chE] show ?thesis by metis
  qed
  ultimately show thesis using that removed_wf [OF wf c E] by blast
qed

interpretation pw: watch_set poll_wf attached entry Channel_setEvents EventLoop_removeChannel
    "\<lambda>ps c. loopOf c = loopId ps"
proof unfold_locales
  fix ps :: "('cb, 'm) poll_state_scheme" and ch :: nat and c :: "'cb Channel" and f :: "'cb Channel \<Rightarrow> 32 word"
  assume wf: "poll_wf ps" and c: "attached ps ch c" and own: "loopOf c = loopId ps"
  show "\<exists>ps'. Channel_setEvents f ch ps = Inr ps' \<and> poll_wf ps' \<and> attached ps' ch (c\<lparr>events := f c\<rparr>)
        \<and> loopOf (c\<lparr>events := f c\<rparr>) = loopId ps'
        \<and> pfd_events (entry ps' (c\<lparr>events := f c\<rparr>)) = ucast (f c)
        \<and> (f c = 0 \<longrightarrow> pfd_fd (entry ps' (c\<lparr>events := f c\<rparr>)) = - fd c - 1)
        \<and> (\<forall>ch2 c2. ch2 \<noteq> ch \<longrightarrow> attached ps ch2 c2 \<longrightarrow> attached ps' ch2 c2 \<and> entry ps' c2 = entry ps c2)"
    using own by (rule_tac setEvents_others [OF wf c own, of f]) auto
next
  fix ps :: "('cb, 'm) poll_state_scheme" and ch :: nat and c :: "'cb Channel"
  assume wf: "poll_wf ps" and c: "attached ps ch c" and own: "loopOf c = loopId ps" and ev: "events c = 0"
    and ign: "pfd_fd (entry ps c) = - fd c - 1" "pfd_events (entry ps c) = 0"
  have none: "\<forall>c'. fd c' = fd c \<longrightarrow> \<not> attached (removed ps c chE) ch c'" for chE
    by (simp add: attached_def removed_def)
  show "\<exists>ps'. EventLoop_removeChannel ch ps = Inr ps' \<and> poll_wf ps'
        \<and> (\<forall>c'. fd c' = fd c \<longrightarrow> \<not> attached ps' ch c')
        \<and> (\<forall>ch2 c2. ch2 \<noteq> ch \<longrightarrow> attached ps ch2 c2 \<longrightarrow>
             (\<exists>i. attached ps' ch2 (c2\<lparr>index := i\<rparr>) \<and> entry ps' (c2\<lparr>index := i\<rparr>) = entry ps c2))"
    by (rule removeChannel_keeps_others [OF wf c own ev ign]) (use none in blast)
qed

text \<open>Removing a channel touches nothing but the poller and the store.\<close>

lemma removeChannel_frame:
  assumes "EventLoop_removeChannel ch ps = Inr ps'"
  shows "\<exists>m st p. ps' = ps\<lparr>channels := m, store := st, pollfds := p\<rparr>"
proof -
  have "\<exists>m st p. ps' = ps\<lparr>channels := m, store := st, pollfds := p\<rparr>" if "Poller_removeChannel ch ps = Inr ps'"
  proof -
    have e: "ps\<lparr>channels := m, pollfds := p\<rparr> = ps\<lparr>channels := m, store := store ps, pollfds := p\<rparr>" for m p by simp
    from that show ?thesis
      unfolding Poller_removeChannel_def Let_def
      by (auto simp only: e sum.inject split: option.splits if_splits)
  qed
  with assms show ?thesis by (auto simp: EventLoop_removeChannel_def split: option.splits if_splits)
qed

text \<open>The answer of \<open>poll(2)\<close>, in terms of the state with the reported events in the array.\<close>

definition polled :: "16 word list \<Rightarrow> ('cb, 'm) poll_state_scheme \<Rightarrow> ('cb, 'm) poll_state_scheme" where
  "polled revs ps = ps\<lparr>pollfds := map2 (\<lambda>p r. p\<lparr>pfd_revents := r\<rparr>) (pollfds ps) revs\<rparr>"

lemma poll_run:
  assumes "poll_wf ps" and "poll_answer_ok (pollfds ps) n revs"
  shows "\<exists>ps' act. Poller_poll (n, revs) ps [] = Inr (ps', act) \<and> poll_wf ps' \<and> filled 0 (polled revs ps) ps' act
    \<and> (\<forall>ch. ch \<in> set act \<longleftrightarrow> (\<exists>c. attached ps ch c \<and> revs ! nat (index c) \<noteq> 0))
    \<and> (\<forall>ch c. attached ps ch c \<longrightarrow> store ps' ch =
         Some (if ch \<in> set act then c\<lparr>revents := scast (revs ! nat (index c))\<rparr> else c))"
proof -
  let ?P = "map2 (\<lambda>p r. p\<lparr>pfd_revents := r\<rparr>) (pollfds ps) revs"
  let ?ps = "ps\<lparr>pollfds := ?P\<rparr>"
  have len: "length revs = length (pollfds ps)" using assms(2) by (simp add: poll_answer_ok_def)
  have wf: "poll_wf ?ps" using assms(1) len by (rule poll_wf_revents)
  have ent: "pfd_revents (entry ?ps c) = revs ! nat (index c)" if "attached ps ch c" for ch c
    using attachedD(3) [OF assms(1) that] len by (simp add: entry_def)
  have att: "attached ?ps = attached ps" by (simp add: attached_def fun_eq_iff)
  have p1: "\<forall>p \<in> set ?P. 0 \<le> sint (pfd_revents p) \<and> (pfd_fd p < 0 \<longrightarrow> pfd_revents p = 0)"
    using assms(2) by (auto simp: poll_answer_ok_def in_set_conv_nth)
  have p2: "n = int (length (filter (\<lambda>p. pfd_revents p \<noteq> 0) ?P))"
    using assms(2) len by (simp add: poll_answer_ok_def map2_revents length_filter_zip)
  obtain ps' chs where f: "fill_loop ?P n ?ps [] = Inr (ps', chs)" "filled 0 ?ps ps' chs"
    using fill_loop_ok [OF wf _ p1 p2, of "[]" "[]"] by auto
  have mem: "ch \<in> set chs \<longleftrightarrow> (\<exists>c. attached ps ch c \<and> revs ! nat (index c) \<noteq> 0)" for ch
    using f(2) ent by (auto simp: filled_def ready_def att)
  have st: "store ps' ch = Some (if ch \<in> set chs then c\<lparr>revents := scast (revs ! nat (index c))\<rparr> else c)"
    if "attached ps ch c" for ch c
    using f(2) ent [OF that] that by (simp add: filled_def with_revents_def attached_def)
  have wf': "poll_wf ps'" using wf f(2) by (rule filled_wf)
  have "Poller_poll (n, revs) ps [] = Inr (ps', chs)"
  proof (cases "n > 0")
    case True
    with f(1) show ?thesis by (simp add: Poller_poll_def fillActiveChannels_def)
  next
    case False
    then have "n = 0" using p2 by linarith
    then have "fill_loop ?P n ?ps [] = Inr (?ps, [])" using fill_loop_stop by simp
    with f(1) \<open>n = 0\<close> show ?thesis by (simp add: Poller_poll_def)
  qed
  with wf' mem st f(2) show ?thesis unfolding polled_def by blast
qed

subsection \<open>Properties\<close>

text \<open>
  C21 (functional). For every answer that \<open>poll(2)\<close> may give on the array, \<open>Poller::poll\<close>
  returns without a failed assertion, keeps the invariant, and the active list holds
  exactly the attached channels whose entry is ready, each once, with their \<open>revents\<close> set
  to what was reported and every other channel untouched.
\<close>
theorem poll_reports_ready_channels:
  assumes "poll_wf ps" and "poll_answer_ok (pollfds ps) n revs"
  shows "\<exists>ps' act. Poller_poll (n, revs) ps [] = Inr (ps', act) \<and> poll_wf ps' \<and> distinct act
    \<and> (\<forall>ch. ch \<in> set act \<longleftrightarrow> (\<exists>c. attached ps ch c \<and> revs ! nat (index c) \<noteq> 0))
    \<and> (\<forall>ch c. attached ps ch c \<longrightarrow> store ps' ch =
         Some (if ch \<in> set act then c\<lparr>revents := scast (revs ! nat (index c))\<rparr> else c))"
  using poll_run [OF assms] unfolding filled_def by blast

text \<open>
  C22 (safety). Ending the life of a watched channel the way the connections do,
  \<open>disableAll\<close> followed by \<open>removeChannel\<close>, fails no assertion, keeps the map, the array
  and the cached positions consistent, unregisters exactly this channel, and leaves the
  array entry of every other channel as it was, even of the one that is moved into the gap.
\<close>
theorem disable_and_remove_channel:
  assumes "poll_wf ps" and "attached ps ch c" and "loopOf c = loopId ps"
  shows "\<exists>ps1 ps'. disableAll ch ps = Inr ps1 \<and> EventLoop_removeChannel ch ps1 = Inr ps' \<and> poll_wf ps'
    \<and> (\<forall>c'. fd c' = fd c \<longrightarrow> \<not> attached ps' ch c')
    \<and> (\<forall>ch2 c2. ch2 \<noteq> ch \<longrightarrow> attached ps ch2 c2 \<longrightarrow>
         (\<exists>i. attached ps' ch2 (c2\<lparr>index := i\<rparr>) \<and> entry ps' (c2\<lparr>index := i\<rparr>) = entry ps c2))"
  using pw.disable_then_remove [OF assms] by (simp add: disableAll_def kNoneEvent_def)

text \<open>
  C23 (error). A channel whose interest was turned off and on again stays ignored: after
  \<open>disableAll\<close> and \<open>enableReading\<close> the array asks for read events, but its descriptor is
  still the negative complement, because \<open>updateChannel\<close> never restores it; \<open>poll(2)\<close>
  then reports nothing for it.
\<close>
theorem reenabled_channel_stays_ignored:
  assumes "poll_wf ps" and "attached ps ch c" and "loopOf c = loopId ps"
  shows "\<exists>ps1 ps2 c2. disableAll ch ps = Inr ps1 \<and> enableReading ch ps1 = Inr ps2
    \<and> attached ps2 ch c2 \<and> isReading c2 \<and> pfd_fd (entry ps2 c2) < 0
    \<and> (\<forall>n revs. poll_answer_ok (pollfds ps2) n revs \<longrightarrow> revs ! nat (index c2) = 0)"
proof -
  let ?c1 = "c\<lparr>events := 0\<rparr>" and ?c2 = "c\<lparr>events := kReadEvent\<rparr>"
  obtain ps1 where ps1: "disableAll ch ps = Inr ps1" "poll_wf ps1" "attached ps1 ch ?c1"
      "loopOf ?c1 = loopId ps1" "pfd_fd (entry ps1 ?c1) = - fd c - 1"
    using pw.set_ok [OF assms, of "\<lambda>_. 0"] by (auto simp: disableAll_def kNoneEvent_def)
  obtain ps2 p where ps2: "enableReading ch ps1 = Inr ps2" "poll_wf ps2" "attached ps2 ch ?c2"
      "ps2 = ps1\<lparr>store := (store ps1)(ch \<mapsto> ?c2), pollfds := (pollfds ps1)[nat (index c) := p]\<rparr>"
      "pfd_fd p = (if kReadEvent = 0 then - fd c - 1 else pfd_fd (entry ps1 ?c1))"
    using setEvents_attached [OF ps1(2-4), of "\<lambda>c. events c OR kReadEvent"]
    by (auto simp: enableReading_def)
  have e2: "entry ps2 ?c2 = p" using ps2(4) attachedD(3) [OF ps2(2,3)] by (simp add: entry_def)
  have neg: "pfd_fd (entry ps2 ?c2) < 0"
    unfolding e2 ps2(5) ps1(5) using attachedD(1) [OF assms(1,2)] by simp
  then have "\<forall>n revs. poll_answer_ok (pollfds ps2) n revs \<longrightarrow> revs ! nat (index ?c2) = 0"
    using attachedD(3) [OF ps2(2,3)] by (auto simp: poll_answer_ok_def entry_def)
  moreover have "isReading ?c2" by (simp add: isReading_def)
  ultimately show ?thesis using ps1(1) ps2(1,3) neg by blast
qed

text \<open>A poller with one new channel, for the witnesses.\<close>

definition one_channel :: "unit poll_state" where
  "one_channel = \<lparr>loopId = 0, store = [5 \<mapsto> (Channel_new 0 7)\<lparr>index := 0, events := kReadEvent\<rparr>],
     pollfds = [\<lparr>pfd_fd = 7, pfd_events = 3, pfd_revents = 0\<rparr>], channels = [7 \<mapsto> 5]\<rparr>"

lemma one_channel_wf: "poll_wf one_channel"
  and one_channel_attached: "attached one_channel 5 ((Channel_new 0 7)\<lparr>index := 0, events := kReadEvent\<rparr>)"
  by (auto simp: poll_wf_def attached_def one_channel_def entry_def entry_of_def Channel_new_def)

theorem poll_reports_ready_channels_witness:
  "\<exists>ps' act. Poller_poll (1, [1]) one_channel [] = Inr (ps', act) \<and> 5 \<in> set act"
proof -
  have "poll_answer_ok (pollfds one_channel) 1 [1]"
    by (simp add: poll_answer_ok_def one_channel_def)
  moreover have "nat (index ((Channel_new 0 7)\<lparr>index := 0, events := kReadEvent\<rparr>)) = 0" by simp
  ultimately show ?thesis
    using poll_reports_ready_channels [OF one_channel_wf] one_channel_attached by force
qed

theorem disable_and_remove_channel_witness:
  "\<exists>ps1 ps'. disableAll 5 one_channel = Inr ps1 \<and> EventLoop_removeChannel 5 ps1 = Inr ps' \<and> poll_wf ps'"
  using disable_and_remove_channel [OF one_channel_wf one_channel_attached]
  by (auto simp: Channel_new_def one_channel_def)

theorem reenabled_channel_stays_ignored_witness:
  "\<exists>ps1 ps2. disableAll 5 one_channel = Inr ps1 \<and> enableReading 5 ps1 = Inr ps2"
  using reenabled_channel_stays_ignored [OF one_channel_wf one_channel_attached]
  by (auto simp: Channel_new_def one_channel_def)

end
