(* ===== verification/Event_Loop.thy ===== *)
theory Event_Loop
  imports Poller
begin

section \<open>The event loop\<close>

text \<open>
  Model of \<open>include/EventLoop.h\<close> and \<open>src/EventLoop.cpp\<close>: the loop that polls, dispatches
  the active channels and then runs the functors that were queued, and the functor queue
  with its event descriptor, which other threads use to hand work to the loop.  The state
  extends the poller's.  A functor is a value of the type \<open>'fn\<close>; callbacks and functors are
  given meaning by interpreters.  The second part is a step relation for the loop thread
  and any number of other threads, in which the push under the mutex and the write to the
  event descriptor are separate steps.
\<close>

subsection \<open>State and operations\<close>

record ('cb, 'fn) loop_state = "'cb poll_state" +
  looping :: bool
  quitFlag :: bool
  callingPendingFunctors :: bool
  pendingFunctors :: "'fn list"
  wakeupCount :: nat  \<comment> \<open>the counter of the event descriptor \<open>wakeupFd_\<close>\<close>

definition eventfd_max :: nat where
  "eventfd_max = 18446744073709551614"

text \<open>
  \<open>eventfd(2)\<close>: writing 1 adds to the counter unless it is at its maximum, where the
  non-blocking write fails and is only logged; reading takes the whole count.
\<close>

definition wakeup :: "('cb, 'fn, 'm) loop_state_scheme \<Rightarrow> ('cb, 'fn, 'm) loop_state_scheme" where
  "wakeup s = (if wakeupCount s < eventfd_max then s\<lparr>wakeupCount := wakeupCount s + 1\<rparr> else s)"

definition EventLoop_handleRead :: "('cb, 'fn, 'm) loop_state_scheme \<Rightarrow> ('cb, 'fn, 'm) loop_state_scheme" where
  "EventLoop_handleRead s = s\<lparr>wakeupCount := 0\<rparr>"

definition push_functor :: "'fn \<Rightarrow> ('cb, 'fn, 'm) loop_state_scheme \<Rightarrow> ('cb, 'fn, 'm) loop_state_scheme" where
  "push_functor cb s = s\<lparr>pendingFunctors := pendingFunctors s @ [cb]\<rparr>"

text \<open>\<open>inLoop\<close> is the answer of \<open>isInLoopThread()\<close> for the calling thread.\<close>

definition queueInLoop :: "bool \<Rightarrow> 'fn \<Rightarrow> ('cb, 'fn, 'm) loop_state_scheme \<Rightarrow> ('cb, 'fn, 'm) loop_state_scheme" where
  "queueInLoop inLoop cb s =
     (let s1 = push_functor cb s
      in if \<not> inLoop \<or> callingPendingFunctors s1 then wakeup s1 else s1)"

definition runInLoop :: "('fn \<Rightarrow> ('cb, 'fn, 'm) loop_state_scheme \<Rightarrow> ('cb, 'fn, 'm) loop_state_scheme res) \<Rightarrow>
    bool \<Rightarrow> 'fn \<Rightarrow> ('cb, 'fn, 'm) loop_state_scheme \<Rightarrow> ('cb, 'fn, 'm) loop_state_scheme res" where
  "runInLoop run inLoop cb s = (if inLoop then run cb s else Inr (queueInLoop inLoop cb s))"

definition quit :: "bool \<Rightarrow> ('cb, 'fn, 'm) loop_state_scheme \<Rightarrow> ('cb, 'fn, 'm) loop_state_scheme" where
  "quit inLoop s = (let s1 = s\<lparr>quitFlag := True\<rparr> in if \<not> inLoop then wakeup s1 else s1)"

definition doPendingFunctors :: "('fn \<Rightarrow> ('cb, 'fn, 'm) loop_state_scheme \<Rightarrow> ('cb, 'fn, 'm) loop_state_scheme res) \<Rightarrow>
    ('cb, 'fn, 'm) loop_state_scheme \<Rightarrow> ('cb, 'fn, 'm) loop_state_scheme res" where
  "doPendingFunctors run s =
     (let s1 = s\<lparr>callingPendingFunctors := True\<rparr>;
          functors = pendingFunctors s1;
          s2 = s1\<lparr>pendingFunctors := []\<rparr>
      in res_bind (foldR run functors s2) (\<lambda>s3. Inr (s3\<lparr>callingPendingFunctors := False\<rparr>)))"

text \<open>
  \<open>EventLoop::loop\<close>: one pass of the \<open>while\<close> body per answer of \<open>poll(2)\<close>.  When the
  answers are used up the loop is still running, blocked in the next poll.
\<close>

definition loop_body :: "('cb \<Rightarrow> ('cb, 'fn, 'm) loop_state_scheme \<Rightarrow> ('cb, 'fn, 'm) loop_state_scheme res) \<Rightarrow>
    ('fn \<Rightarrow> ('cb, 'fn, 'm) loop_state_scheme \<Rightarrow> ('cb, 'fn, 'm) loop_state_scheme res) \<Rightarrow>
    int \<times> 16 word list \<Rightarrow> ('cb, 'fn, 'm) loop_state_scheme \<Rightarrow> ('cb, 'fn, 'm) loop_state_scheme res" where
  "loop_body runCb runFn answer s =
     res_bind (Poller_poll answer s [])
       (\<lambda>(s1, activeChannels). res_bind (foldR (handleEvent runCb) activeChannels s1)
         (doPendingFunctors runFn))"

fun loop_while :: "('cb \<Rightarrow> ('cb, 'fn, 'm) loop_state_scheme \<Rightarrow> ('cb, 'fn, 'm) loop_state_scheme res) \<Rightarrow>
    ('fn \<Rightarrow> ('cb, 'fn, 'm) loop_state_scheme \<Rightarrow> ('cb, 'fn, 'm) loop_state_scheme res) \<Rightarrow>
    (int \<times> 16 word list) list \<Rightarrow> ('cb, 'fn, 'm) loop_state_scheme \<Rightarrow> ('cb, 'fn, 'm) loop_state_scheme res" where
  "loop_while runCb runFn answers s =
     (if quitFlag s then Inr (s\<lparr>looping := False\<rparr>)
      else case answers of
             [] \<Rightarrow> Inr s
           | a # as \<Rightarrow> res_bind (loop_body runCb runFn a s) (loop_while runCb runFn as))"

declare loop_while.simps [simp del]

definition EventLoop_loop :: "('cb \<Rightarrow> ('cb, 'fn, 'm) loop_state_scheme \<Rightarrow> ('cb, 'fn, 'm) loop_state_scheme res) \<Rightarrow>
    ('fn \<Rightarrow> ('cb, 'fn, 'm) loop_state_scheme \<Rightarrow> ('cb, 'fn, 'm) loop_state_scheme res) \<Rightarrow>
    (int \<times> 16 word list) list \<Rightarrow> ('cb, 'fn, 'm) loop_state_scheme \<Rightarrow> ('cb, 'fn, 'm) loop_state_scheme res" where
  "EventLoop_loop runCb runFn answers s =
     assertR (\<not> looping s)
       (loop_while runCb runFn answers (s\<lparr>looping := True, quitFlag := False\<rparr>))"

subsection \<open>The interface: a queue of functors\<close>

locale functor_queue =
  fixes push :: "'fn \<Rightarrow> 's \<Rightarrow> 's"
    and pending :: "'s \<Rightarrow> 'fn list"
  assumes pending_push: "pending (push f s) = pending s @ [f]"
begin

lemma pending_pushes: "pending (fold push fs s) = pending s @ fs"
  by (induction fs arbitrary: s) (simp_all add: pending_push)

end

lemma wakeup_fields [simp]:
  "pendingFunctors (wakeup s) = pendingFunctors s" "callingPendingFunctors (wakeup s) = callingPendingFunctors s"
  "store (wakeup s) = store s" "channels (wakeup s) = channels s" "pollfds (wakeup s) = pollfds s"
  "loopId (wakeup s) = loopId s" "quitFlag (wakeup s) = quitFlag s" "looping (wakeup s) = looping s"
  by (simp_all add: wakeup_def)

lemma wakeup_pos [simp]: "0 < wakeupCount (wakeup s)"
  by (simp add: wakeup_def eventfd_max_def)

lemma queueInLoop_fields [simp]:
  "pendingFunctors (queueInLoop i f s) = pendingFunctors s @ [f]"
  "callingPendingFunctors (queueInLoop i f s) = callingPendingFunctors s"
  "store (queueInLoop i f s) = store s" "channels (queueInLoop i f s) = channels s"
  "pollfds (queueInLoop i f s) = pollfds s" "loopId (queueInLoop i f s) = loopId s"
  by (simp_all add: queueInLoop_def push_functor_def Let_def)

interpretation fq: functor_queue "queueInLoop i" pendingFunctors
  by unfold_locales simp

subsection \<open>The loop thread and other threads\<close>

text \<open>
  Where the loop thread stands: blocked in poll, dispatching active channels, about to
  swap the queue out, or running the functors it took.  A configuration adds the number of
  other threads that have pushed a functor and not yet written to the event descriptor,
  and two histories: the functors queued and the functors run.
\<close>

datatype 'fn phase = AtPoll | Dispatching | Swapping | Draining "'fn list"

record ('cb, 'fn) config =
  st :: "('cb, 'fn) loop_state"
  pc :: "'fn phase"
  inflight :: nat
  submitted :: "'fn list"
  executed :: "'fn list"

definition config_init :: "('cb, 'fn) loop_state \<Rightarrow> ('cb, 'fn) config" where
  "config_init s = \<lparr>st = s, pc = AtPoll, inflight = 0, submitted = [], executed = []\<rparr>"

inductive loop_step :: "('cb, 'fn) config \<Rightarrow> ('cb, 'fn) config \<Rightarrow> bool" where
  poll_returns: "pc k = AtPoll \<Longrightarrow> loop_step k (k\<lparr>pc := Dispatching\<rparr>)"
| read_wakeup: "pc k = Dispatching \<Longrightarrow> loop_step k (k\<lparr>st := EventLoop_handleRead (st k)\<rparr>)"
| queue_dispatching: "pc k = Dispatching \<Longrightarrow>
    loop_step k (k\<lparr>st := queueInLoop True f (st k), submitted := submitted k @ [f]\<rparr>)"
| begin_pending: "pc k = Dispatching \<Longrightarrow>
    loop_step k (k\<lparr>st := (st k)\<lparr>callingPendingFunctors := True\<rparr>, pc := Swapping\<rparr>)"
| swap: "pc k = Swapping \<Longrightarrow>
    loop_step k (k\<lparr>st := (st k)\<lparr>pendingFunctors := []\<rparr>, pc := Draining (pendingFunctors (st k))\<rparr>)"
| run_functor: "pc k = Draining (f # fs) \<Longrightarrow>
    loop_step k (k\<lparr>pc := Draining fs, executed := executed k @ [f]\<rparr>)"
| queue_draining: "pc k = Draining fs \<Longrightarrow>
    loop_step k (k\<lparr>st := queueInLoop True f (st k), submitted := submitted k @ [f]\<rparr>)"
| end_pending: "pc k = Draining [] \<Longrightarrow>
    loop_step k (k\<lparr>st := (st k)\<lparr>callingPendingFunctors := False\<rparr>, pc := AtPoll\<rparr>)"
| foreign_push: "loop_step k (k\<lparr>st := push_functor f (st k), inflight := inflight k + 1,
      submitted := submitted k @ [f]\<rparr>)"
| foreign_wakeup: "0 < inflight k \<Longrightarrow>
    loop_step k (k\<lparr>st := wakeup (st k), inflight := inflight k - 1\<rparr>)"

inductive loop_reach :: "('cb, 'fn) config \<Rightarrow> bool" where
  start: "pendingFunctors s = [] \<Longrightarrow> \<not> callingPendingFunctors s \<Longrightarrow> loop_reach (config_init s)"
| step: "loop_reach k \<Longrightarrow> loop_step k k' \<Longrightarrow> loop_reach k'"

definition draining :: "'fn phase \<Rightarrow> 'fn list" where
  "draining p = (case p of Draining fs \<Rightarrow> fs | _ \<Rightarrow> [])"

definition waits :: "'fn phase \<Rightarrow> bool" where
  "waits p \<longleftrightarrow> (case p of AtPoll \<Rightarrow> True | Draining _ \<Rightarrow> True | _ \<Rightarrow> False)"

definition loop_inv :: "('cb, 'fn) config \<Rightarrow> bool" where
  "loop_inv k \<longleftrightarrow>
     submitted k = executed k @ draining (pc k) @ pendingFunctors (st k)
   \<and> callingPendingFunctors (st k) = (pc k = Swapping \<or> (\<exists>fs. pc k = Draining fs))
   \<and> (waits (pc k) \<longrightarrow> pendingFunctors (st k) \<noteq> [] \<longrightarrow> 0 < wakeupCount (st k) \<or> 0 < inflight k)"

lemma loop_inv_step: "loop_step k k' \<Longrightarrow> loop_inv k \<Longrightarrow> loop_inv k'"
proof (induction rule: loop_step.induct)
  case (queue_draining k fs f)
  have "0 < wakeupCount (queueInLoop True f (st k))"
    using queue_draining by (simp add: loop_inv_def queueInLoop_def push_functor_def)
  with queue_draining show ?case by (simp add: loop_inv_def draining_def waits_def)
qed (auto simp: loop_inv_def draining_def waits_def push_functor_def EventLoop_handleRead_def)

lemma loop_inv_reach: "loop_reach k \<Longrightarrow> loop_inv k"
proof (induction rule: loop_reach.induct)
  case (start s)
  then show ?case by (simp add: loop_inv_def config_init_def draining_def)
next
  case (step k k')
  then show ?case by (blast intro: loop_inv_step)
qed

inductive_simps loop_step_from: "loop_step k k'"

text \<open>The functions of the code are sequences of these steps.\<close>

lemma foreign_queue_is_two_steps:
  "queueInLoop False f s = wakeup (push_functor f s)"
  by (simp add: queueInLoop_def)

subsection \<open>Properties\<close>



definition idle_loop :: "(nat, nat) loop_state" where
  "idle_loop = \<lparr>loopId = 0, store = Map.empty, pollfds = [], channels = Map.empty, looping = True,
     quitFlag = False, callingPendingFunctors = False, pendingFunctors = [], wakeupCount = 0\<rparr>"

lemma idle_reach: "loop_reach (config_init idle_loop)"
  by (rule loop_reach.start) (simp_all add: idle_loop_def)

lemma pushed_reach:
  "loop_reach (config_init idle_loop\<lparr>st := push_functor 7 idle_loop, inflight := 1, submitted := [7]\<rparr>)"
  using loop_reach.step [OF idle_reach loop_step.foreign_push, of 7]
  by (simp add: config_init_def)


end
