(* ===== verification/Log_Stream.thy ===== *)
theory Log_Stream
  imports Prelude "HOL-Library.Signed_Division"
begin

section \<open>Fixed buffers and the formatting of log arguments\<close>

text \<open>
  Model of \<open>include/LogStream.h\<close> and \<open>src/LogStream.cpp\<close>: the fixed-size buffer
  \<open>FixedBuffer<SIZE>\<close>, Matthew Wilson's integer conversion, and the output operators of
  \<open>LogStream\<close>.  \<open>SIZE\<close> is the length of the data array; the pointer \<open>cur_\<close> is its offset.
\<close>

subsection \<open>FixedBuffer\<close>

definition kSmallBuffer :: nat where "kSmallBuffer = 4000"
definition kLargeBuffer :: nat where "kLargeBuffer = 4000000"
definition kMaxNumericSize :: nat where "kMaxNumericSize = 32"

record FixedBuffer =
  data :: "char list"
  cur :: nat

text \<open>A new buffer: the array holds what the memory held (the parameter), \<open>cur_\<close> is its start.\<close>

definition FixedBuffer_new :: "char list \<Rightarrow> FixedBuffer" where
  "FixedBuffer_new memory = \<lparr>data = memory, cur = 0\<rparr>"

definition FixedBuffer_length :: "FixedBuffer \<Rightarrow> int" where
  "FixedBuffer_length fb = int (cur fb)"

definition avail :: "FixedBuffer \<Rightarrow> int" where
  "avail fb = int (length (data fb)) - int (cur fb)"

definition FixedBuffer_add :: "size_t \<Rightarrow> FixedBuffer \<Rightarrow> FixedBuffer res" where
  "FixedBuffer_add len fb =
     definedR (cur fb + len \<le> length (data fb)) (Inr (fb\<lparr>cur := cur fb + len\<rparr>))"

text \<open>
  \<open>append\<close> compares \<open>avail()\<close>, converted to \<open>size_t\<close>, with the length: a line that does
  not leave at least one byte free is dropped as a whole.
\<close>

definition FixedBuffer_append :: "string \<Rightarrow> FixedBuffer \<Rightarrow> FixedBuffer res" where
  "FixedBuffer_append buf fb =
     (if nat (avail fb mod 18446744073709551616) > length buf
      then res_bind (copy_to (cur fb) buf (data fb))
             (\<lambda>d. FixedBuffer_add (length buf) (fb\<lparr>data := d\<rparr>))
      else Inr fb)"

definition FixedBuffer_reset :: "FixedBuffer \<Rightarrow> FixedBuffer" where
  "FixedBuffer_reset fb = fb\<lparr>cur := 0\<rparr>"

definition FixedBuffer_bzero :: "FixedBuffer \<Rightarrow> FixedBuffer" where
  "FixedBuffer_bzero fb = fb\<lparr>data := replicate (length (data fb)) (CHR 0x00)\<rparr>"

definition debugString :: "FixedBuffer \<Rightarrow> FixedBuffer res" where
  "debugString fb = res_bind (copy_to (cur fb) [CHR 0x00] (data fb)) (\<lambda>d. Inr (fb\<lparr>data := d\<rparr>))"

definition asString :: "FixedBuffer \<Rightarrow> string" where
  "asString fb = take (nat (FixedBuffer_length fb)) (data fb)"

subsection \<open>Integer conversion\<close>

text \<open>
  \<open>convert\<close> takes the digits with the truncating remainder of C++, which is negative for
  a negative value, and looks them up in a table centred on zero.  The \<open>do ... while\<close>
  loop is \<open>convert_loop\<close>; the value of the template parameter type is an integer.
\<close>

definition digits :: string where
  "digits = ''9876543210123456789''"

definition zero_at :: "int \<Rightarrow> char" where
  "zero_at lsd = digits ! nat (9 + lsd)"

lemma sdiv10_shrinks: "i sdiv 10 \<noteq> 0 \<Longrightarrow> \<bar>i sdiv 10\<bar> < \<bar>i\<bar>" for i :: int
  by (auto simp: signed_divide_int_def abs_mult sgn_if)

function convert_loop :: "int \<Rightarrow> string \<Rightarrow> string" where
  "convert_loop i p =
     (let lsd = i smod 10; i' = i sdiv 10; p' = p @ [zero_at lsd]
      in if i' \<noteq> 0 then convert_loop i' p' else p')"
  by pat_completeness auto
termination
  by (relation "measure (\<lambda>(i, p). nat \<bar>i\<bar>)") (auto simp: sdiv10_shrinks)

declare convert_loop.simps [simp del]

definition convert :: "int \<Rightarrow> string" where
  "convert value =
     (let p = convert_loop value [];
          p' = (if value < 0 then p @ ''-'' else p)
      in rev p')"

definition digitsHex :: string where
  "digitsHex = ''0123456789ABCDEF''"

function convertHex_loop :: "nat \<Rightarrow> string \<Rightarrow> string" where
  "convertHex_loop i p =
     (let lsd = i mod 16; i' = i div 16; p' = p @ [digitsHex ! lsd]
      in if i' \<noteq> 0 then convertHex_loop i' p' else p')"
  by pat_completeness auto
termination
  by (relation "measure fst") auto

declare convertHex_loop.simps [simp del]

text \<open>
  \<open>convertHex\<close> writes its digits but has no \<open>return\<close> statement: using its result, as the
  only caller does, is undefined.  The model returns what was written and the fault that
  the caller runs into.
\<close>

definition convertHex :: "nat \<Rightarrow> string \<times> size_t res" where
  "convertHex value = (rev (convertHex_loop value []), Inl Undefined)"

subsection \<open>The output operators\<close>

text \<open>
  The arguments of \<open>operator<<\<close>.  \<open>LInt\<close> stands for all integer types, which share
  \<open>formatInteger\<close>; \<open>LCStr\<close> is a C string without its terminator, \<open>LString\<close> a
  \<open>std::string\<close>, a \<open>Fmt\<close>, a \<open>T\<close> or a \<open>SourceFile\<close> with a known length; \<open>LDouble\<close>
  carries what \<open>snprintf\<close> makes of the number with \<open>"%.12g"\<close>.
\<close>

datatype log_arg =
    LBool bool | LInt int | LPtr nat | LDouble string | LChar char | LCStr string | LString string

definition write_at_current :: "string \<Rightarrow> FixedBuffer \<Rightarrow> FixedBuffer res" where
  "write_at_current cs fb =
     res_bind (copy_to (cur fb) cs (data fb)) (\<lambda>d. Inr (fb\<lparr>data := d\<rparr>))"

definition formatInteger :: "int \<Rightarrow> FixedBuffer \<Rightarrow> FixedBuffer res" where
  "formatInteger v fb =
     (if avail fb \<ge> int kMaxNumericSize
      then res_bind (write_at_current (convert v @ [CHR 0x00]) fb)
             (FixedBuffer_add (length (convert v)))
      else Inr fb)"

definition formatPointer :: "nat \<Rightarrow> FixedBuffer \<Rightarrow> FixedBuffer res" where
  "formatPointer v fb =
     (if avail fb \<ge> int kMaxNumericSize
      then res_bind (write_at_current (''0x'' @ fst (convertHex v) @ [CHR 0x00]) fb)
             (\<lambda>fb'. res_bind (snd (convertHex v)) (\<lambda>len. FixedBuffer_add (len + 2) fb'))
      else Inr fb)"

definition formatDouble :: "string \<Rightarrow> FixedBuffer \<Rightarrow> FixedBuffer res" where
  "formatDouble printed fb =
     (if avail fb \<ge> int kMaxNumericSize
      then res_bind (write_at_current (take (kMaxNumericSize - 1) printed @ [CHR 0x00]) fb)
             (FixedBuffer_add (length printed))
      else Inr fb)"

fun LogStream_put :: "log_arg \<Rightarrow> FixedBuffer \<Rightarrow> FixedBuffer res" where
  "LogStream_put (LBool v) s = FixedBuffer_append (if v then ''1'' else ''0'') s"
| "LogStream_put (LInt v) s = formatInteger v s"
| "LogStream_put (LPtr v) s = formatPointer v s"
| "LogStream_put (LDouble p) s = formatDouble p s"
| "LogStream_put (LChar v) s = FixedBuffer_append [v] s"
| "LogStream_put (LCStr v) s = FixedBuffer_append v s"
| "LogStream_put (LString v) s = FixedBuffer_append v s"

subsection \<open>Decimal notation\<close>

definition digit_char :: "nat \<Rightarrow> char" where
  "digit_char d = ''0123456789'' ! d"

fun show_nat :: "nat \<Rightarrow> string" where
  "show_nat n = (if n < 10 then [digit_char n] else show_nat (n div 10) @ [digit_char (n mod 10)])"

declare show_nat.simps [simp del]

definition show_int :: "int \<Rightarrow> string" where
  "show_int v = (if v < 0 then ''-'' @ show_nat (nat (- v)) else show_nat (nat v))"

definition digit_val :: "char \<Rightarrow> nat" where
  "digit_val c = of_char c - 48"

definition read_nat :: "string \<Rightarrow> nat" where
  "read_nat cs = foldl (\<lambda>n c. 10 * n + digit_val c) 0 cs"

definition read_int :: "string \<Rightarrow> int" where
  "read_int cs = (case cs of c # cs' \<Rightarrow> if c = CHR ''-'' then - int (read_nat cs') else int (read_nat cs)
                  | [] \<Rightarrow> 0)"

lemma digit_cases:
  fixes d :: nat
  assumes "d < 10"
  obtains "d = 0" | "d = 1" | "d = 2" | "d = 3" | "d = 4" | "d = 5" | "d = 6" | "d = 7" | "d = 8" | "d = 9"
proof -
  have "d = 0 \<or> d = 1 \<or> d = 2 \<or> d = 3 \<or> d = 4 \<or> d = 5 \<or> d = 6 \<or> d = 7 \<or> d = 8 \<or> d = 9"
    using assms by arith
  then show thesis using that by blast
qed

lemma zero_at_digit:
  assumes "d < 10"
  shows "zero_at (int d) = digit_char d" and "zero_at (- int d) = digit_char d"
  using assms by (auto elim!: digit_cases simp: zero_at_def digits_def digit_char_def)

lemma digit_val_char [simp]: "d < 10 \<Longrightarrow> digit_val (digit_char d) = d"
  by (auto elim!: digit_cases simp: digit_char_def digit_val_def)

lemma digit_char_not_minus [simp]: "d < 10 \<Longrightarrow> digit_char d \<noteq> CHR ''-''"
  by (auto elim!: digit_cases simp: digit_char_def)

text \<open>One step of the conversion loop, for a value of either sign.\<close>

lemma signed_div_nat:
  assumes "i = int n \<or> i = - int n"
  shows "i smod 10 = (if i < 0 then - int (n mod 10) else int (n mod 10))"
    and "i sdiv 10 = (if i < 0 then - int (n div 10) else int (n div 10))"
proof -
  show div: "i sdiv 10 = (if i < 0 then - int (n div 10) else int (n div 10))"
    using assms by (auto simp: signed_divide_int_def sgn_if zdiv_int)
  show "i smod 10 = (if i < 0 then - int (n mod 10) else int (n mod 10))"
    using assms by (auto simp: signed_modulo_int_def sgn_if zmod_int)
qed

lemma convert_loop_nat:
  "i = int n \<or> i = - int n \<Longrightarrow> convert_loop i p = p @ rev (show_nat n)"
proof (induction n arbitrary: i p rule: less_induct)
  case (less n)
  have lsd: "zero_at (i smod 10) = digit_char (n mod 10)"
    using signed_div_nat(1) [OF less.prems] zero_at_digit [of "n mod 10"] by (simp split: if_splits)
  note q = signed_div_nat(2) [OF less.prems]
  show ?case
  proof (cases "n < 10")
    case True
    then have "i sdiv 10 = 0" using q by simp
    with lsd True show ?thesis
      by (simp add: convert_loop.simps [of i p] show_nat.simps [of n])
  next
    case False
    then have ne: "i sdiv 10 \<noteq> 0" using q less.prems by (auto split: if_splits)
    have "i sdiv 10 = int (n div 10) \<or> i sdiv 10 = - int (n div 10)" using q by simp
    from less.IH [OF _ this] False have
      "convert_loop (i sdiv 10) (p @ [digit_char (n mod 10)])
        = (p @ [digit_char (n mod 10)]) @ rev (show_nat (n div 10))" by simp
    with lsd ne False show ?thesis
      by (simp add: convert_loop.simps [of i p] show_nat.simps [of n] Let_def)
  qed
qed

lemma convert_show: "convert v = show_int v"
proof (cases "v < 0")
  case True
  then have "convert_loop v [] = rev (show_nat (nat (- v)))"
    using convert_loop_nat [of v "nat (- v)" "[]"] by simp
  with True show ?thesis by (simp add: convert_def show_int_def)
next
  case False
  then have "convert_loop v [] = rev (show_nat (nat v))"
    using convert_loop_nat [of v "nat v" "[]"] by simp
  with False show ?thesis by (simp add: convert_def show_int_def)
qed

lemma read_show_nat: "read_nat (show_nat n) = n"
proof (induction n rule: show_nat.induct)
  case (1 n)
  then show ?case
    by (cases "n < 10") (simp_all add: show_nat.simps [of n] read_nat_def)
qed

lemma show_nat_head: "\<exists>c cs. show_nat n = c # cs \<and> c \<noteq> CHR ''-''"
proof (induction n rule: show_nat.induct)
  case (1 n)
  show ?case
  proof (cases "n < 10")
    case True
    then show ?thesis by (simp add: show_nat.simps [of n])
  next
    case False
    with 1 obtain c cs where "show_nat (n div 10) = c # cs" "c \<noteq> CHR ''-''" by auto
    with False show ?thesis by (simp add: show_nat.simps [of n])
  qed
qed

lemma read_show_int: "read_int (show_int v) = v"
  using show_nat_head [of "nat v"] read_show_nat [of "nat v"] read_show_nat [of "nat (- v)"]
  by (auto simp: show_int_def read_int_def)

lemma length_show_nat: "n < 10 ^ k \<Longrightarrow> 0 < k \<Longrightarrow> length (show_nat n) \<le> k"
proof (induction k arbitrary: n)
  case 0
  then show ?case by simp
next
  case (Suc k)
  show ?case
  proof (cases "n < 10")
    case True
    then show ?thesis by (simp add: show_nat.simps [of n])
  next
    case False
    with Suc.prems have "n div 10 < 10 ^ k" "0 < k"
      by (auto simp: less_mult_imp_div_less mult.commute intro: Nat.gr0I)
    with Suc.IH [of "n div 10"] False show ?thesis by (simp add: show_nat.simps [of n])
  qed
qed

lemma length_show_nat_pos: "0 < length (show_nat n)"
  using show_nat_head [of n] by auto

subsection \<open>Invariant and one output operation\<close>

definition fb_wf :: "FixedBuffer \<Rightarrow> bool" where
  "fb_wf fb \<longleftrightarrow> cur fb \<le> length (data fb) \<and> length (data fb) \<le> kLargeBuffer"

definition render :: "log_arg \<Rightarrow> string" where
  "render a = (case a of LBool v \<Rightarrow> if v then ''1'' else ''0'' | LInt v \<Rightarrow> show_int v
     | LPtr v \<Rightarrow> ''0x'' @ fst (convertHex v) | LDouble p \<Rightarrow> p | LChar c \<Rightarrow> [c]
     | LCStr v \<Rightarrow> v | LString v \<Rightarrow> v)"

text \<open>
  Arguments the operators are given: an integer fits in 64 bits, signed or unsigned, a
  printed double has fewer than 32 characters, and no pointer is logged.
\<close>

definition arg_ok :: "log_arg \<Rightarrow> bool" where
  "arg_ok a \<longleftrightarrow> (case a of LInt v \<Rightarrow> - 9223372036854775808 \<le> v \<and> v \<le> 18446744073709551615
     | LDouble p \<Rightarrow> length p < kMaxNumericSize | LPtr v \<Rightarrow> False | _ \<Rightarrow> True)"

lemma asString_new: "asString (FixedBuffer_new m) = []"
  by (simp add: asString_def FixedBuffer_new_def FixedBuffer_length_def)

lemma fb_wf_new: "length m \<le> kLargeBuffer \<Longrightarrow> fb_wf (FixedBuffer_new m)"
  by (simp add: fb_wf_def FixedBuffer_new_def)

lemma avail_size: "fb_wf fb \<Longrightarrow> nat (avail fb mod 18446744073709551616) = length (data fb) - cur fb"
  by (auto simp: fb_wf_def avail_def kLargeBuffer_def)

lemma write_add:
  assumes "fb_wf fb" and "cur fb + length (cs @ ts) \<le> length (data fb)"
  shows "\<exists>fb'. res_bind (copy_to (cur fb) (cs @ ts) (data fb))
            (\<lambda>d. FixedBuffer_add (length cs) (fb\<lparr>data := d\<rparr>)) = Inr fb'
    \<and> fb_wf fb' \<and> asString fb' = asString fb @ cs \<and> length (data fb') = length (data fb)"
  using assms
  by (simp add: copy_to_def FixedBuffer_add_def fb_wf_def asString_def FixedBuffer_length_def
      overwrite_def min_absorb2)

lemma length_asString: "fb_wf fb \<Longrightarrow> length (asString fb) = cur fb"
  by (simp add: fb_wf_def asString_def FixedBuffer_length_def)

lemma append_fits:
  assumes "fb_wf fb" and "length (asString fb) + length buf < length (data fb)"
  shows "\<exists>fb'. FixedBuffer_append buf fb = Inr fb' \<and> fb_wf fb'
    \<and> asString fb' = asString fb @ buf \<and> length (data fb') = length (data fb)"
  using write_add [OF assms(1), of buf "[]"] assms
  by (auto simp: FixedBuffer_append_def avail_size length_asString)

lemma append_dropped:
  assumes "fb_wf fb" and "\<not> length (asString fb) + length buf < length (data fb)"
  shows "FixedBuffer_append buf fb = Inr fb"
  using assms by (auto simp: FixedBuffer_append_def avail_size length_asString)

lemma numeric_fits:
  assumes "fb_wf fb" and "length cs < kMaxNumericSize"
    and "length (asString fb) + kMaxNumericSize \<le> length (data fb)"
  shows "\<exists>fb'. res_bind (write_at_current (cs @ [CHR 0x00]) fb) (FixedBuffer_add (length cs)) = Inr fb'
    \<and> fb_wf fb' \<and> asString fb' = asString fb @ cs \<and> length (data fb') = length (data fb)"
  using write_add [OF assms(1), of cs "[CHR 0x00]"] assms
  by (auto simp: write_at_current_def res_bind_assoc length_asString)

lemma avail_numeric:
  "fb_wf fb \<Longrightarrow> int kMaxNumericSize \<le> avail fb \<longleftrightarrow> length (asString fb) + kMaxNumericSize \<le> length (data fb)"
  by (auto simp: avail_def length_asString fb_wf_def)

lemma length_show_int:
  assumes "- 9223372036854775808 \<le> v" and "v \<le> 18446744073709551615"
  shows "length (show_int v) \<le> 20"
proof (cases "v < 0")
  case True
  with assms have "nat (- v) < 10 ^ 19" by simp
  from length_show_nat [OF this] True show ?thesis by (simp add: show_int_def)
next
  case False
  with assms have "nat v < 10 ^ 20" by simp
  from length_show_nat [OF this] False show ?thesis by (simp add: show_int_def)
qed

text \<open>How much room an argument needs to be taken.\<close>

definition need :: "log_arg \<Rightarrow> nat" where
  "need a = (case a of LInt v \<Rightarrow> kMaxNumericSize | LDouble p \<Rightarrow> kMaxNumericSize
     | _ \<Rightarrow> Suc (length (render a)))"

lemma put_fits:
  assumes "fb_wf s" and "arg_ok a" and "length (asString s) + need a \<le> length (data s)"
  shows "\<exists>s'. LogStream_put a s = Inr s' \<and> fb_wf s' \<and> asString s' = asString s @ render a
    \<and> length (data s') = length (data s)"
proof (cases a)
  case (LInt v)
  then have "length (convert v) < kMaxNumericSize"
    using assms(2) length_show_int [of v] by (simp add: arg_ok_def convert_show kMaxNumericSize_def)
  with numeric_fits [OF assms(1) this] assms LInt show ?thesis
    by (simp add: formatInteger_def avail_numeric need_def render_def convert_show)
next
  case (LDouble p)
  with numeric_fits [OF assms(1), of p] assms show ?thesis
    by (simp add: formatDouble_def avail_numeric need_def render_def arg_ok_def)
qed (use assms append_fits [OF assms(1), of "render a"] in
      \<open>auto simp: need_def render_def arg_ok_def\<close>)

lemma put_dropped:
  assumes "fb_wf s" and "arg_ok a" and "\<not> length (asString s) + need a \<le> length (data s)"
  shows "LogStream_put a s = Inr s"
proof (cases a)
  case (LInt v)
  with assms show ?thesis by (simp add: formatInteger_def avail_numeric need_def)
next
  case (LDouble p)
  with assms show ?thesis by (simp add: formatDouble_def avail_numeric need_def)
qed (use assms append_dropped [OF assms(1), of "render a"] in
      \<open>auto simp: need_def render_def arg_ok_def\<close>)

subsection \<open>The interface: a sink that takes an item whole or not at all\<close>

locale log_sink =
  fixes wf :: "'s \<Rightarrow> bool"
    and text_of :: "'s \<Rightarrow> string"
    and capacity :: "'s \<Rightarrow> nat"
    and item_ok :: "'a \<Rightarrow> bool"
    and item_need :: "'a \<Rightarrow> nat"
    and item_text :: "'a \<Rightarrow> string"
    and put :: "'a \<Rightarrow> 's \<Rightarrow> 's res"
  assumes put_whole: "wf s \<Longrightarrow> item_ok a \<Longrightarrow> length (text_of s) + item_need a \<le> capacity s \<Longrightarrow>
      \<exists>s'. put a s = Inr s' \<and> wf s' \<and> text_of s' = text_of s @ item_text a \<and> capacity s' = capacity s"
    and put_none: "wf s \<Longrightarrow> item_ok a \<Longrightarrow> \<not> length (text_of s) + item_need a \<le> capacity s \<Longrightarrow> put a s = Inr s"
    and need_text: "item_ok a \<Longrightarrow> length (item_text a) < item_need a"
begin

text \<open>The items a run takes, given the bytes in use and the capacity.\<close>

lemma put_total:
  assumes "wf s" and "item_ok a"
  shows "\<exists>s'. put a s = Inr s' \<and> wf s' \<and> capacity s' = capacity s
    \<and> text_of s' = text_of s @ (if length (text_of s) + item_need a \<le> capacity s then item_text a else [])"
  using put_whole [OF assms] put_none [OF assms] assms(1) by auto

lemma run_total:
  assumes "wf s" and "list_all item_ok as"
  shows "\<exists>s'. foldR put as s = Inr s' \<and> wf s' \<and> capacity s' = capacity s
    \<and> (\<exists>bs. subseq bs as \<and> text_of s' = text_of s @ concat (map item_text bs))"
  using assms
proof (induction as arbitrary: s)
  case Nil
  then show ?case by (auto intro: exI [of _ "[]"])
next
  case (Cons a as)
  let ?taken = "length (text_of s) + item_need a \<le> capacity s"
  obtain s1 where s1: "put a s = Inr s1" "wf s1" "capacity s1 = capacity s"
      "text_of s1 = text_of s @ (if ?taken then item_text a else [])"
    using put_total [of s a] Cons.prems by auto
  obtain s2 bs where s2: "foldR put as s1 = Inr s2" "wf s2" "capacity s2 = capacity s1"
      "subseq bs as" "text_of s2 = text_of s1 @ concat (map item_text bs)"
    using Cons.IH [OF s1(2)] Cons.prems(2) by auto
  have "subseq (if ?taken then a # bs else bs) (a # as)" using s2(4) by auto
  moreover have "text_of s2 = text_of s @ concat (map item_text (if ?taken then a # bs else bs))"
    using s2(5) s1(4) by auto
  ultimately show ?case using s1 s2 by auto
qed

lemma run_fits:
  assumes "wf s" and "list_all item_ok as"
    and "length (text_of s) + sum_list (map item_need as) \<le> capacity s"
  shows "\<exists>s'. foldR put as s = Inr s' \<and> wf s' \<and> capacity s' = capacity s
    \<and> text_of s' = text_of s @ concat (map item_text as)"
  using assms
proof (induction as arbitrary: s)
  case Nil
  then show ?case by simp
next
  case (Cons a as)
  then obtain s1 where s1: "put a s = Inr s1" "wf s1" "capacity s1 = capacity s"
      "text_of s1 = text_of s @ item_text a"
    using put_whole [of s a] by auto
  moreover have "length (item_text a) < item_need a" using Cons.prems(2) need_text by simp
  ultimately have "length (text_of s1) + sum_list (map item_need as) \<le> capacity s1"
    using Cons.prems(3) by simp
  with Cons.IH [OF s1(2)] Cons.prems(2) s1 show ?case by auto
qed

end

interpretation ls: log_sink fb_wf asString "\<lambda>s. length (data s)" arg_ok need render LogStream_put
proof unfold_locales
  show "arg_ok a \<Longrightarrow> length (render a) < need a" for a
    by (cases a) (auto simp: arg_ok_def need_def render_def kMaxNumericSize_def
        intro: le_less_trans [OF length_show_int])
qed (use put_fits put_dropped in auto)

interpretation fb: log_sink fb_wf asString "\<lambda>s. length (data s)" "\<lambda>_. True" "\<lambda>l. Suc (length l)" "\<lambda>l. l"
    FixedBuffer_append
  using append_fits append_dropped by unfold_locales auto

subsection \<open>Properties\<close>

text \<open>
  C19 (equivalence). The table-driven conversion of an integer gives its decimal notation,
  for every value of either sign, including the most negative one of each type.
\<close>
theorem convert_is_decimal: "convert v = show_int v"
  by (rule convert_show)

text \<open>
  Reading the converted digits back gives the number that was formatted.
\<close>
theorem convert_roundtrip: "read_int (convert v) = v"
  by (simp add: convert_show read_show_int)

text \<open>
  An integer of at most 64 bits, signed or unsigned, converts to at most 20
  characters, so its digits and the terminating zero byte stay inside the 32 bytes that
  \<open>formatInteger\<close> asks for.
\<close>
theorem convert_length_bound:
  assumes "- 9223372036854775808 \<le> v" and "v \<le> 18446744073709551615"
  shows "length (convert v @ [CHR 0x00]) \<le> 21 \<and> 21 \<le> kMaxNumericSize"
  using length_show_int [OF assms] by (simp add: convert_show kMaxNumericSize_def)

theorem convert_length_bound_witness: "length (convert (- 9223372036854775808) @ [CHR 0x00]) \<le> 21"
  using convert_length_bound [of "- 9223372036854775808"] by simp

text \<open>
  C18 (bounds). Any sequence of log arguments without pointers, streamed into a buffer of
  any size up to 4,000,000 bytes, runs without a fault and without a write outside the
  array, and what the buffer holds afterwards is the old text followed by the renderings
  of a subsequence of the arguments: each argument is taken whole or dropped whole.
\<close>
theorem log_stream_whole_arguments:
  assumes "fb_wf s" and "list_all arg_ok as"
  shows "\<exists>s'. foldR LogStream_put as s = Inr s' \<and> fb_wf s' \<and> length (data s') = length (data s)
    \<and> (\<exists>bs. subseq bs as \<and> asString s' = asString s @ concat (map render bs))"
  using assms by (rule ls.run_total)

theorem log_stream_whole_arguments_witness:
  "\<exists>s'. foldR LogStream_put [LCStr ''abc'', LInt 7, LCStr ''de''] (FixedBuffer_new (replicate 5 (CHR 0x00)))
      = Inr s' \<and> fb_wf s'"
proof -
  have "fb_wf (FixedBuffer_new (replicate 5 (CHR 0x00)))"
    by (intro fb_wf_new) (simp add: kLargeBuffer_def)
  from log_stream_whole_arguments [OF this, of "[LCStr ''abc'', LInt 7, LCStr ''de'']"]
  show ?thesis by (auto simp: arg_ok_def)
qed

end
