(* ===== verification/Civil_Time.thy ===== *)
theory Civil_Time
  imports Log_Stream
begin

section \<open>Calendar time and printed numbers\<close>

text \<open>
  What the sources use of the C library to print a time: \<open>gmtime_r\<close>, the broken-down time
  of a number of seconds since 1970 in the proleptic Gregorian calendar without leap
  seconds, and the conversions \<open>%d\<close>, \<open>%Nd\<close> and \<open>%0Nd\<close> of \<open>printf\<close>.  The lemmas give the
  ranges of the fields, the inverse \<open>timegm\<close> and the widths of the printed numbers, which
  the log components rely on.
\<close>

subsection \<open>Printed integers\<close>

text \<open>\<open>%Nd\<close> pads with spaces on the left, \<open>%0Nd\<close> with zeros behind the sign.\<close>

definition fmt_d :: "nat \<Rightarrow> int \<Rightarrow> string" where
  "fmt_d w v = replicate (w - length (show_int v)) CHR '' '' @ show_int v"

definition fmt_0d :: "nat \<Rightarrow> int \<Rightarrow> string" where
  "fmt_0d w v =
     (if v < 0 then CHR ''-'' # replicate (w - Suc (length (show_nat (nat (- v))))) CHR ''0'' @ show_nat (nat (- v))
      else replicate (w - length (show_nat (nat v))) CHR ''0'' @ show_nat (nat v))"

text \<open>
  \<open>snprintf(buf, size, ...)\<close> stores at most \<open>size - 1\<close> characters and a zero byte, and returns
  the length of the whole text.
\<close>

definition snprintf :: "nat \<Rightarrow> string \<Rightarrow> string \<times> int" where
  "snprintf n text = (take (n - 1) text, int (length text))"

lemma length_fmt_d: "length (fmt_d w v) = max w (length (show_int v))"
  by (simp add: fmt_d_def)

lemma length_fmt_0d:
  assumes "0 \<le> v" and "v < 10 ^ w" and "0 < w"
  shows "length (fmt_0d w v) = w"
proof -
  have "nat v < 10 ^ w" using assms(1,2) by (simp add: nat_less_iff)
  from length_show_nat [OF this assms(3)] assms(1) show ?thesis by (simp add: fmt_0d_def)
qed

lemma read_nat_pad: "read_nat (replicate k CHR ''0'' @ cs) = read_nat cs"
proof -
  have "foldl (\<lambda>n c. 10 * n + digit_val c) 0 (replicate k CHR ''0'') = 0"
    by (induction k) (simp_all add: digit_val_def)
  then show ?thesis by (simp add: read_nat_def)
qed

lemma read_fmt_0d: "0 \<le> v \<Longrightarrow> int (read_nat (fmt_0d w v)) = v"
  by (simp add: fmt_0d_def read_nat_pad read_show_nat)

lemma fmt_0d_inject: "0 \<le> v \<Longrightarrow> 0 \<le> v' \<Longrightarrow> fmt_0d w v = fmt_0d w v' \<Longrightarrow> v = v'"
  by (metis read_fmt_0d)

subsection \<open>Broken-down time\<close>

record tm =
  tm_sec :: int
  tm_min :: int
  tm_hour :: int
  tm_mday :: int
  tm_mon :: int
  tm_year :: int

definition leap :: "nat \<Rightarrow> bool" where
  "leap y \<longleftrightarrow> y mod 4 = 0 \<and> (y mod 100 \<noteq> 0 \<or> y mod 400 = 0)"

definition year_len :: "nat \<Rightarrow> nat" where
  "year_len y = (if leap y then 366 else 365)"

definition month_lens :: "nat \<Rightarrow> nat list" where
  "month_lens y = [31, if leap y then 29 else 28, 31, 30, 31, 30, 31, 31, 30, 31, 30, 31]"

text \<open>The year, from \<open>y\<close> on, and the day of it that day number \<open>d\<close> falls into.\<close>

function find_year :: "nat \<Rightarrow> nat \<Rightarrow> nat \<times> nat" where
  "find_year y d = (if d < year_len y then (y, d) else find_year (Suc y) (d - year_len y))"
  by pat_completeness auto
termination
  by (relation "measure snd") (auto simp: year_len_def)

declare find_year.simps [simp del]

fun find_month :: "nat list \<Rightarrow> nat \<Rightarrow> nat \<times> nat" where
  "find_month [] d = (0, d)"
| "find_month (m # ms) d =
     (if d < m then (0, d) else (let (k, r) = find_month ms (d - m) in (Suc k, r)))"

text \<open>
  Days are counted from 1 January 2000, day 10957 of the epoch, in cycles of 400 years or
  146097 days.
\<close>

definition gmtime_r :: "int \<Rightarrow> tm" where
  "gmtime_r t =
     (let d = t div 86400 - 10957; sod = t mod 86400;
          (y, doy) = find_year 0 (nat (d mod 146097));
          (mon, mday) = find_month (month_lens y) doy
      in \<lparr>tm_sec = sod mod 60, tm_min = sod div 60 mod 60, tm_hour = sod div 3600,
          tm_mday = int mday + 1, tm_mon = int mon,
          tm_year = 100 + 400 * (d div 146097) + int y\<rparr>)"

definition days_before :: "nat \<Rightarrow> nat" where
  "days_before y = sum_list (map year_len [0..<y])"

definition timegm :: "tm \<Rightarrow> int" where
  "timegm t =
     (let y = nat ((tm_year t - 100) mod 400)
      in (10957 + 146097 * ((tm_year t - 100) div 400) + int (days_before y)
           + int (sum_list (take (nat (tm_mon t)) (month_lens y))) + tm_mday t - 1) * 86400
         + tm_hour t * 3600 + tm_min t * 60 + tm_sec t)"

subsection \<open>The fields and their inverse\<close>

lemma find_year_spec:
  "find_year y d = (y', r) \<Longrightarrow> y \<le> y' \<and> days_before y + d = days_before y' + r \<and> r < year_len y'"
proof (induction y d rule: find_year.induct)
  case (1 y d)
  show ?case
  proof (cases "d < year_len y")
    case True
    with 1 show ?thesis by (simp add: find_year.simps [of y d])
  next
    case False
    with 1 have "Suc y \<le> y' \<and> days_before (Suc y) + (d - year_len y) = days_before y' + r \<and> r < year_len y'"
      by (simp add: find_year.simps [of y d])
    with False show ?thesis by (simp add: days_before_def)
  qed
qed

lemma days_before_mono: "y \<le> z \<Longrightarrow> days_before y \<le> days_before z"
  by (induction rule: dec_induct) (simp_all add: days_before_def)

text \<open>Counting the leap years: one more number below \<open>Suc y\<close> is divisible by \<open>m\<close> if \<open>y\<close> is.\<close>

lemma multiples_Suc:
  "m = Suc k \<Longrightarrow> (Suc y + k) div m = (y + k) div m + (if y mod m = 0 then 1 else 0)" for m :: nat
  using div_Suc [of "y + k" m] mod_add_self2 [of y m] by simp

lemma days_before_Suc: "days_before (Suc y) = days_before y + year_len y"
  by (simp add: days_before_def)

lemma year_len_sum:
  "year_len y + (if y mod 100 = 0 then 1 else 0)
    = 365 + (if y mod 4 = 0 then 1 else 0) + (if y mod 400 = 0 then 1 else 0)"
proof -
  have "y mod 400 = 0 \<Longrightarrow> y mod 100 = 0" "y mod 100 = 0 \<Longrightarrow> y mod 4 = 0"
    using dvd_trans [of 100 400 y] dvd_trans [of 4 100 y] by (simp_all add: mod_eq_0_iff_dvd)
  then show ?thesis
    unfolding year_len_def leap_def by (simp split: if_split)
qed

lemma days_before_closed:
  "days_before y + (y + 99) div 100 = 365 * y + (y + 3) div 4 + (y + 399) div 400"
proof (induction y)
  case 0
  then show ?case by (simp add: days_before_def)
next
  case (Suc y)
  have "(Suc y + 3) div 4 = (y + 3) div 4 + (if y mod 4 = 0 then 1 else 0)"
    "(Suc y + 99) div 100 = (y + 99) div 100 + (if y mod 100 = 0 then 1 else 0)"
    "(Suc y + 399) div 400 = (y + 399) div 400 + (if y mod 400 = 0 then 1 else 0)"
    by (rule multiples_Suc, simp)+
  with Suc year_len_sum [of y] show ?case
    unfolding days_before_Suc mult_Suc_right by linarith
qed

lemma days_before_cycle: "days_before 400 = 146097"
  using days_before_closed [of 400] by simp

lemma find_year_in_cycle:
  assumes "find_year 0 d = (y, r)" and "d < 146097"
  shows "y < 400"
proof (rule ccontr)
  assume "\<not> y < 400"
  then have "days_before 400 \<le> days_before y" by (intro days_before_mono) simp
  moreover have "d = days_before y + r"
    using find_year_spec [OF assms(1)] by (simp add: days_before_def)
  ultimately show False using assms(2) by (simp add: days_before_cycle)
qed

lemma find_month_spec:
  "find_month ms d = (k, r) \<Longrightarrow> d < sum_list ms \<Longrightarrow>
     k < length ms \<and> d = sum_list (take k ms) + r \<and> r < ms ! k"
proof (induction ms arbitrary: d k r)
  case Nil
  then show ?case by simp
next
  case (Cons m ms)
  show ?case
  proof (cases "d < m")
    case True
    with Cons.prems show ?thesis by auto
  next
    case False
    then obtain j where j: "find_month ms (d - m) = (j, r)" "k = Suc j"
      using Cons.prems(1) by (auto split: prod.splits)
    have "j < length ms \<and> d - m = sum_list (take j ms) + r \<and> r < ms ! j"
      using Cons.prems(2) False by (intro Cons.IH [OF j(1)]) simp
    with False j(2) show ?thesis by auto
  qed
qed

lemma sum_month_lens: "sum_list (month_lens y) = year_len y"
  by (simp add: month_lens_def year_len_def)

lemma length_month_lens [simp]: "length (month_lens y) = 12"
  by (simp add: month_lens_def)

lemma month_lens_le: "k < 12 \<Longrightarrow> month_lens y ! k \<le> 31"
proof -
  have "list_all (\<lambda>m. m \<le> 31) (month_lens y)" by (simp add: month_lens_def)
  then show "k < 12 \<Longrightarrow> month_lens y ! k \<le> 31" by (simp add: list_all_length)
qed

definition tm_ok :: "tm \<Rightarrow> bool" where
  "tm_ok t \<longleftrightarrow> 0 \<le> tm_sec t \<and> tm_sec t < 60 \<and> 0 \<le> tm_min t \<and> tm_min t < 60
     \<and> 0 \<le> tm_hour t \<and> tm_hour t < 24 \<and> 1 \<le> tm_mday t \<and> tm_mday t \<le> 31
     \<and> 0 \<le> tm_mon t \<and> tm_mon t < 12"

text \<open>The day of a cycle of 400 years, taken apart into year, month and day.\<close>

lemma cycle_day:
  assumes "find_year 0 d = (y, doy)" and "find_month (month_lens y) doy = (mon, mday)" and "d < 146097"
  shows "y < 400" and "mon < 12" and "mday < 31"
    and "d = days_before y + (sum_list (take mon (month_lens y)) + mday)"
proof -
  show "y < 400" using find_year_in_cycle [OF assms(1,3)] .
  have ys: "d = days_before y + doy" "doy < year_len y"
    using find_year_spec [OF assms(1)] by (simp_all add: days_before_def)
  have ms: "mon < 12" "doy = sum_list (take mon (month_lens y)) + mday" "mday < month_lens y ! mon"
    using find_month_spec [OF assms(2)] ys(2) by (simp_all add: sum_month_lens)
  show "mon < 12" by (fact ms(1))
  show "mday < 31" using month_lens_le [OF ms(1), of y] ms(3) by simp
  show "d = days_before y + (sum_list (take mon (month_lens y)) + mday)" using ys(1) ms(2) by simp
qed

lemma gmtime_parts:
  obtains y mon mday where
    "gmtime_r t = \<lparr>tm_sec = t mod 86400 mod 60, tm_min = t mod 86400 div 60 mod 60,
        tm_hour = t mod 86400 div 3600, tm_mday = int mday + 1, tm_mon = int mon,
        tm_year = 100 + 400 * ((t div 86400 - 10957) div 146097) + int y\<rparr>"
    and "y < 400" and "mon < 12" and "mday < 31"
    and "(t div 86400 - 10957) mod 146097 = int (days_before y + (sum_list (take mon (month_lens y)) + mday))"
proof -
  define e where "e = t div 86400 - 10957"
  obtain y doy where y: "find_year 0 (nat (e mod 146097)) = (y, doy)" by (rule prod.exhaust)
  obtain mon mday where m: "find_month (month_lens y) doy = (mon, mday)" by (rule prod.exhaust)
  have d: "nat (e mod 146097) < 146097" "int (nat (e mod 146097)) = e mod 146097"
    by (simp_all add: nat_less_iff)
  note c = cycle_day [OF y m d(1)]
  have "e mod 146097 = int (days_before y + (sum_list (take mon (month_lens y)) + mday))"
    using d(2) c(4) by (simp only:)
  moreover have "gmtime_r t = \<lparr>tm_sec = t mod 86400 mod 60, tm_min = t mod 86400 div 60 mod 60,
        tm_hour = t mod 86400 div 3600, tm_mday = int mday + 1, tm_mon = int mon,
        tm_year = 100 + 400 * (e div 146097) + int y\<rparr>"
    by (simp only: gmtime_r_def Let_def e_def [symmetric] y m prod.case)
  ultimately show thesis using that c(1-3) unfolding e_def by blast
qed

lemma gmtime_ok: "tm_ok (gmtime_r t)"
  by (rule gmtime_parts [of t]) (auto simp: tm_ok_def)

lemma gmtime_year:
  assumes "0 \<le> t" and "t < 253402300800"
  shows "- 300 \<le> tm_year (gmtime_r t) \<and> tm_year (gmtime_r t) < 8100"
proof (rule gmtime_parts [of t])
  fix y mon mday
  assume g: "gmtime_r t = \<lparr>tm_sec = t mod 86400 mod 60, tm_min = t mod 86400 div 60 mod 60,
        tm_hour = t mod 86400 div 3600, tm_mday = int mday + 1, tm_mon = int mon,
        tm_year = 100 + 400 * ((t div 86400 - 10957) div 146097) + int y\<rparr>" and y: "y < 400"
  have "0 \<le> t div 86400" "t div 86400 < 2932897" using assms by auto
  then have "- 1 \<le> (t div 86400 - 10957) div 146097" "(t div 86400 - 10957) div 146097 \<le> 19" by auto
  with g y show ?thesis by simp
qed

lemma second_of_day: "s mod 86400 = s mod 86400 div 3600 * 3600 + s mod 86400 div 60 mod 60 * 60 + s mod 86400 mod 60"
  for s :: int
proof -
  let ?r = "s mod 86400"
  have "?r div 3600 = ?r div 60 div 60" using zdiv_zmult2_eq [of 60 ?r 60] by simp
  moreover have "?r div 60 = ?r div 60 div 60 * 60 + ?r div 60 mod 60" by simp
  moreover have "?r = ?r div 60 * 60 + ?r mod 60" by simp
  ultimately show ?thesis by linarith
qed

lemma timegm_gmtime: "timegm (gmtime_r t) = t"
proof (rule gmtime_parts [of t])
  fix y mon mday
  assume g: "gmtime_r t = \<lparr>tm_sec = t mod 86400 mod 60, tm_min = t mod 86400 div 60 mod 60,
        tm_hour = t mod 86400 div 3600, tm_mday = int mday + 1, tm_mon = int mon,
        tm_year = 100 + 400 * ((t div 86400 - 10957) div 146097) + int y\<rparr>" and y: "y < 400"
    and m: "(t div 86400 - 10957) mod 146097 = int (days_before y + (sum_list (take mon (month_lens y)) + mday))"
  have era: "(400 * ((t div 86400 - 10957) div 146097) + int y) div 400 = (t div 86400 - 10957) div 146097"
    "int y mod 400 = int y" using y by simp_all
  have "timegm (gmtime_r t) = (10957 + (146097 * ((t div 86400 - 10957) div 146097) + (t div 86400 - 10957) mod 146097)) * 86400
      + (t mod 86400 div 3600 * 3600 + t mod 86400 div 60 mod 60 * 60 + t mod 86400 mod 60)"
    by (simp add: timegm_def g era m Let_def)
  also have "\<dots> = t div 86400 * 86400 + t mod 86400"
    by (simp add: second_of_day [symmetric])
  finally show ?thesis by simp
qed

lemma gmtime_inject: "gmtime_r s = gmtime_r t \<longleftrightarrow> s = t"
  by (metis timegm_gmtime)

subsection \<open>Widths of the printed fields\<close>

lemma show_int_inject: "show_int a = show_int b \<Longrightarrow> a = b"
  by (metis read_show_int)

lemma length_show_nat_ge: "10 ^ k \<le> n \<Longrightarrow> Suc k \<le> length (show_nat n)"
proof (induction k arbitrary: n)
  case 0
  then show ?case using length_show_nat_pos [of n] by (simp add: Suc_le_eq)
next
  case (Suc k)
  then have "10 ^ k \<le> n div 10" by (simp add: less_eq_div_iff_mult_less_eq mult.commute)
  moreover have "(10::nat) \<le> 10 * 10 ^ k" by simp
  then have "\<not> n < 10" using Suc.prems unfolding power_Suc by linarith
  ultimately show ?case using Suc.IH [of "n div 10"] by (simp add: show_nat.simps [of n])
qed

text \<open>The times from 1970 to 9999, whose years have four digits.\<close>

definition time_ok :: "int \<Rightarrow> bool" where
  "time_ok t \<longleftrightarrow> 0 \<le> t \<and> t < 253402300800"

lemma show_year:
  assumes "time_ok t"
  shows "length (show_int (tm_year (gmtime_r t) + 1900)) = 4" and "0 \<le> tm_year (gmtime_r t) + 1900"
proof -
  have y: "1600 \<le> tm_year (gmtime_r t) + 1900" "tm_year (gmtime_r t) + 1900 < 10000"
    using assms gmtime_year [of t] by (simp_all add: time_ok_def)
  show "0 \<le> tm_year (gmtime_r t) + 1900" using y(1) by simp
  have "length (show_nat (nat (tm_year (gmtime_r t) + 1900))) \<le> 4"
    using y by (intro length_show_nat) simp_all
  moreover have "Suc 3 \<le> length (show_nat (nat (tm_year (gmtime_r t) + 1900)))"
    using y by (intro length_show_nat_ge) simp
  ultimately show "length (show_int (tm_year (gmtime_r t) + 1900)) = 4"
    using y(1) by (simp add: show_int_def)
qed

lemma length_fmt_02d: "0 \<le> v \<Longrightarrow> v < 100 \<Longrightarrow> length (fmt_0d 2 v) = 2"
  by (rule length_fmt_0d) simp_all

text \<open>Each field of the broken-down time has a fixed width, so the text determines the time.\<close>

lemma tm_widths:
  assumes "tm_ok tm"
  shows "length (fmt_0d 2 (tm_mon tm + 1)) = 2" "length (fmt_0d 2 (tm_mday tm)) = 2"
    "length (fmt_0d 2 (tm_hour tm)) = 2" "length (fmt_0d 2 (tm_min tm)) = 2" "length (fmt_0d 2 (tm_sec tm)) = 2"
  using assms by (simp_all add: tm_ok_def length_fmt_02d)

end
