(* ===== verification/Logging.thy ===== *)
theory Logging
  imports Civil_Time
begin

section \<open>Log lines\<close>

text \<open>
  Model of \<open>include/Logging.h\<close>, \<open>src/Logging.cpp\<close>, \<open>include/CurrentThread.h\<close> and the
  thread-identity part of \<open>src/Thread.cpp\<close>: one log statement, from the macro through the
  constructor of \<open>Logger\<close>, the streamed arguments and the destructor, to the call of the
  output function.  A thread keeps the texts of its identity and of the last second it
  logged in (\<open>thread_locals\<close>); the clock, the thread id, \<open>errno\<close> and its text, and the
  memory the stack buffer is placed in come from outside (\<open>log_env\<close>).
\<close>

subsection \<open>Thread-local state\<close>

record thread_locals =
  t_cachedTid :: int
  t_tidString :: "char list"
  t_threadName :: string
  t_time :: "char list"
  t_lastSecond :: int

definition fresh_thread :: thread_locals where
  "fresh_thread = \<lparr>t_cachedTid = 0, t_tidString = replicate 32 CHR 0x00, t_threadName = ''unknown'',
     t_time = replicate 32 CHR 0x00, t_lastSecond = 0\<rparr>"

text \<open>A zero-terminated text is stored at the start of a character array, the rest is kept.\<close>

definition store_text :: "string \<Rightarrow> char list \<Rightarrow> char list" where
  "store_text cs arr = overwrite 0 (cs @ [CHR 0x00]) arr"

definition c_str :: "char list \<Rightarrow> string" where
  "c_str arr = takeWhile (\<lambda>c. c \<noteq> CHR 0x00) arr"

definition cacheTid :: "int \<Rightarrow> thread_locals \<Rightarrow> thread_locals res" where
  "cacheTid gettid ts =
     (if t_cachedTid ts = 0
      then (let (buf, n) = snprintf 32 (fmt_d 5 gettid)
            in assertR (n = 5)
                 (Inr (ts\<lparr>t_cachedTid := gettid, t_tidString := store_text buf (t_tidString ts)\<rparr>)))
      else Inr ts)"

definition tid :: "int \<Rightarrow> thread_locals \<Rightarrow> (int \<times> thread_locals) res" where
  "tid gettid ts =
     res_bind (if t_cachedTid ts = 0 then cacheTid gettid ts else Inr ts)
       (\<lambda>ts'. Inr (t_cachedTid ts', ts'))"

definition tidString :: "thread_locals \<Rightarrow> string" where
  "tidString ts = c_str (t_tidString ts)"

definition isMainThread :: "int \<Rightarrow> int \<Rightarrow> thread_locals \<Rightarrow> (bool \<times> thread_locals) res" where
  "isMainThread gettid getpid ts =
     res_bind (tid gettid ts) (\<lambda>(t, ts'). Inr (t = getpid, ts'))"

subsection \<open>Levels and source files\<close>

datatype severity = TRACE | DEBUG | INFO | WARN | ERROR | FATAL

definition LogLevelName :: "severity \<Rightarrow> string" where
  "LogLevelName level = (case level of TRACE \<Rightarrow> ''TRACE'' | DEBUG \<Rightarrow> ''DEBUG'' | INFO \<Rightarrow> ''INFO''
     | WARN \<Rightarrow> ''WARN'' | ERROR \<Rightarrow> ''ERROR'' | FATAL \<Rightarrow> ''FATAL'')"

definition level_num :: "severity \<Rightarrow> nat" where
  "level_num level = (case level of TRACE \<Rightarrow> 0 | DEBUG \<Rightarrow> 1 | INFO \<Rightarrow> 2 | WARN \<Rightarrow> 3 | ERROR \<Rightarrow> 4 | FATAL \<Rightarrow> 5)"

text \<open>Enumerators are compared by their values.\<close>

lemma level_num_eq_iff: "level_num a = level_num b \<longleftrightarrow> a = b"
  by (cases a; cases b) (simp_all add: level_num_def)

instantiation severity :: linorder
begin

definition less_eq_severity :: "severity \<Rightarrow> severity \<Rightarrow> bool" where
  "less_eq_severity a b \<longleftrightarrow> level_num a \<le> level_num b"

definition less_severity :: "severity \<Rightarrow> severity \<Rightarrow> bool" where
  "less_severity a b \<longleftrightarrow> level_num a < level_num b"

instance
  by standard (auto simp: less_eq_severity_def less_severity_def level_num_eq_iff)

end

lemmas severity_order = less_eq_severity_def less_severity_def level_num_def

lemma severity_bounds: "TRACE \<le> level" "level \<le> FATAL"
  by (cases level; simp add: severity_order)+

definition initLogLevel :: "bool \<Rightarrow> bool \<Rightarrow> severity" where
  "initLogLevel env_trace env_debug = (if env_trace then TRACE else if env_debug then DEBUG else INFO)"

text \<open>\<open>strrchr\<close>: the offset of the last slash.\<close>

fun strrchr_slash :: "string \<Rightarrow> nat option" where
  "strrchr_slash [] = None"
| "strrchr_slash (c # cs) =
     (case strrchr_slash cs of Some i \<Rightarrow> Some (Suc i) | None \<Rightarrow> if c = CHR ''/'' then Some 0 else None)"

text \<open>Both constructors keep the part of the path behind the last slash, with its length.\<close>

definition SourceFile :: "string \<Rightarrow> string" where
  "SourceFile arr =
     (case strrchr_slash arr of
        Some slash \<Rightarrow> take (length arr - (slash + 1)) (drop (slash + 1) arr)
      | None \<Rightarrow> arr)"

subsection \<open>Logger\<close>

record log_env =
  log_now :: int
  log_gettid :: int
  log_errno :: int
  log_strerror :: "int \<Rightarrow> string"
  log_memory :: "char list"

record Impl =
  log_time :: int
  logStream :: FixedBuffer
  level :: severity
  line :: int
  basename_of :: string

definition Fmt :: "string \<Rightarrow> string res" where
  "Fmt text = (let (buf, len) = snprintf 32 text in assertR (len < 32) (Inr buf))"

definition time_text :: "int \<Rightarrow> string" where
  "time_text seconds =
     (let tm = gmtime_r seconds
      in fmt_d 4 (tm_year tm + 1900) @ fmt_0d 2 (tm_mon tm + 1) @ fmt_0d 2 (tm_mday tm) @ '' ''
         @ fmt_0d 2 (tm_hour tm) @ '':'' @ fmt_0d 2 (tm_min tm) @ '':'' @ fmt_0d 2 (tm_sec tm))"

definition formatTime :: "Impl \<Rightarrow> thread_locals \<Rightarrow> (Impl \<times> thread_locals) res" where
  "formatTime impl ts =
     (let seconds = log_time impl sdiv 1000000; microseconds = log_time impl smod 1000000
      in res_bind
           (if seconds \<noteq> t_lastSecond ts
            then (let (buf, len) = snprintf 32 (time_text seconds)
                  in assertR (len = 17)
                       (Inr (ts\<lparr>t_lastSecond := seconds, t_time := store_text buf (t_time ts)\<rparr>)))
            else Inr ts)
           (\<lambda>ts'. res_bind (Fmt (''.'' @ fmt_0d 6 microseconds @ ''Z ''))
              (\<lambda>us. assertR (length us = 9)
                 (res_bind (foldR LogStream_put [LString (take 17 (t_time ts')), LString us] (logStream impl))
                    (\<lambda>s. Inr (impl\<lparr>logStream := s\<rparr>, ts'))))))"

definition Impl_new :: "log_env \<Rightarrow> severity \<Rightarrow> int \<Rightarrow> string \<Rightarrow> int \<Rightarrow> thread_locals \<Rightarrow> (Impl \<times> thread_locals) res" where
  "Impl_new env lvl savedErrno src ln ts =
     res_bind (formatTime \<lparr>log_time = log_now env, logStream = FixedBuffer_new (log_memory env), level = lvl,
                           line = ln, basename_of = src\<rparr> ts)
       (\<lambda>(impl, ts1). res_bind (tid (log_gettid env) ts1)
          (\<lambda>(_, ts2). res_bind
             (foldR LogStream_put
                ([LCStr (tidString ts2), LCStr (LogLevelName lvl)]
                 @ (if savedErrno \<noteq> 0
                    then [LCStr (log_strerror env savedErrno), LCStr '' (errno='', LInt savedErrno, LCStr '') '']
                    else []))
                (logStream impl))
             (\<lambda>s. Inr (impl\<lparr>logStream := s\<rparr>, ts2))))"

definition finish :: "Impl \<Rightarrow> Impl res" where
  "finish impl =
     res_bind (foldR LogStream_put
         [LCStr '' - '', LString (basename_of impl), LCStr '':'', LInt (line impl), LChar CHR 0x0A] (logStream impl))
       (\<lambda>s. Inr (impl\<lparr>logStream := s\<rparr>))"

text \<open>The four constructors.\<close>

datatype log_ctor = Logger_plain | Logger_level severity | Logger_func severity string | Logger_abort bool

definition Logger_new :: "log_env \<Rightarrow> string \<Rightarrow> int \<Rightarrow> log_ctor \<Rightarrow> thread_locals \<Rightarrow> (Impl \<times> thread_locals) res" where
  "Logger_new env path ln c ts =
     (case c of
        Logger_plain \<Rightarrow> Impl_new env INFO 0 (SourceFile path) ln ts
      | Logger_level lvl \<Rightarrow> Impl_new env lvl 0 (SourceFile path) ln ts
      | Logger_func lvl func \<Rightarrow>
          res_bind (Impl_new env lvl 0 (SourceFile path) ln ts)
            (\<lambda>(impl, ts'). res_bind (foldR LogStream_put [LCStr func, LChar CHR '' ''] (logStream impl))
               (\<lambda>s. Inr (impl\<lparr>logStream := s\<rparr>, ts')))
      | Logger_abort toAbort \<Rightarrow>
          Impl_new env (if toAbort then FATAL else ERROR) (log_errno env) (SourceFile path) ln ts)"

text \<open>
  The global state of the logger: the configured level and the two functions the lines go
  to, which act on a world \<open>'w\<close>, for example the state of the asynchronous logger.
\<close>

record 'w log_globals =
  g_logLevel :: severity
  g_output :: "string \<Rightarrow> 'w \<Rightarrow> 'w res"
  g_flush :: "'w \<Rightarrow> 'w res"

definition logLevel :: "'w log_globals \<Rightarrow> severity" where
  "logLevel g = g_logLevel g"

definition setLogLevel :: "severity \<Rightarrow> 'w log_globals \<Rightarrow> 'w log_globals" where
  "setLogLevel lvl g = g\<lparr>g_logLevel := lvl\<rparr>"

definition setOutput :: "(string \<Rightarrow> 'w \<Rightarrow> 'w res) \<Rightarrow> 'w log_globals \<Rightarrow> 'w log_globals" where
  "setOutput out g = g\<lparr>g_output := out\<rparr>"

definition setFlush :: "('w \<Rightarrow> 'w res) \<Rightarrow> 'w log_globals \<Rightarrow> 'w log_globals" where
  "setFlush flush g = g\<lparr>g_flush := flush\<rparr>"

text \<open>The default functions write to the standard output, each after a trace line of its own.\<close>

definition defaultOutput :: "string \<Rightarrow> string \<Rightarrow> string res" where
  "defaultOutput msg out = Inr (out @ ''into defaultOutput-------------'' @ [CHR 0x0A] @ msg)"

definition defaultFlush :: "string \<Rightarrow> string res" where
  "defaultFlush out = Inr (out @ ''into defaultFlush--------------'' @ [CHR 0x0A])"

text \<open>
  The destructor hands the finished line to the output function and calls the flush
  function for a fatal line; the call of \<open>abort\<close> is commented out.
\<close>

definition Logger_delete :: "'w log_globals \<Rightarrow> Impl \<Rightarrow> 'w \<Rightarrow> 'w res" where
  "Logger_delete g impl w =
     res_bind (finish impl)
       (\<lambda>impl'. res_bind (g_output g (asString (logStream impl')) w)
          (\<lambda>w'. if level impl' = FATAL then g_flush g w' else Inr w'))"

subsection \<open>Log statements\<close>

datatype log_macro = LOG_TRACE | LOG_DEBUG | LOG_INFO | LOG_WARN | LOG_ERROR | LOG_FATAL | LOG_SYSERR | LOG_SYSFATAL

text \<open>
  The guards of the first three macros compare \<open>Logger::LogLevel()\<close>, a value-initialised
  \<open>LogLevel\<close>, which is \<open>TRACE\<close>, and not the configured level \<open>Logger::logLevel()\<close>.
\<close>

definition macro_guard :: "log_macro \<Rightarrow> bool" where
  "macro_guard m = (case m of LOG_TRACE \<Rightarrow> TRACE \<le> TRACE | LOG_DEBUG \<Rightarrow> TRACE \<le> DEBUG
     | LOG_INFO \<Rightarrow> TRACE \<le> INFO | _ \<Rightarrow> True)"

definition macro_ctor :: "log_macro \<Rightarrow> string \<Rightarrow> log_ctor" where
  "macro_ctor m func = (case m of LOG_TRACE \<Rightarrow> Logger_func TRACE func | LOG_DEBUG \<Rightarrow> Logger_func DEBUG func
     | LOG_INFO \<Rightarrow> Logger_func INFO func | LOG_WARN \<Rightarrow> Logger_level WARN | LOG_ERROR \<Rightarrow> Logger_level ERROR
     | LOG_FATAL \<Rightarrow> Logger_level FATAL | LOG_SYSERR \<Rightarrow> Logger_abort False | LOG_SYSFATAL \<Rightarrow> Logger_abort True)"

definition log_statement ::
  "'w log_globals \<Rightarrow> log_env \<Rightarrow> log_macro \<Rightarrow> string \<Rightarrow> int \<Rightarrow> string \<Rightarrow> log_arg list
     \<Rightarrow> thread_locals \<Rightarrow> 'w \<Rightarrow> ('w \<times> thread_locals) res" where
  "log_statement g env m path ln func args ts w =
     (if macro_guard m
      then res_bind (Logger_new env path ln (macro_ctor m func) ts)
             (\<lambda>(impl, ts'). res_bind (foldR LogStream_put args (logStream impl))
                (\<lambda>s. res_bind (Logger_delete g (impl\<lparr>logStream := s\<rparr>) w) (\<lambda>w'. Inr (w', ts'))))
      else Inr (w, ts))"

text \<open>\<open>CheckNotFull\<close> logs a fatal line for a null pointer and returns the pointer anyway.\<close>

definition CheckNotFull ::
  "'w log_globals \<Rightarrow> log_env \<Rightarrow> string \<Rightarrow> int \<Rightarrow> string \<Rightarrow> 'p option \<Rightarrow> thread_locals \<Rightarrow> 'w
     \<Rightarrow> ('p option \<times> 'w \<times> thread_locals) res" where
  "CheckNotFull g env path ln names ptr ts w =
     (if ptr = None
      then res_bind (Logger_new env path ln (Logger_level FATAL) ts)
             (\<lambda>(impl, ts'). res_bind (LogStream_put (LCStr names) (logStream impl))
                (\<lambda>s. res_bind (Logger_delete g (impl\<lparr>logStream := s\<rparr>) w) (\<lambda>w'. Inr (ptr, w', ts'))))
      else Inr (ptr, w, ts))"

subsection \<open>The cached texts\<close>

definition thread_ok :: "thread_locals \<Rightarrow> bool" where
  "thread_ok ts \<longleftrightarrow> length (t_tidString ts) = 32 \<and> length (t_time ts) = 32
     \<and> (t_cachedTid ts \<noteq> 0 \<longrightarrow> tidString ts = fmt_d 5 (t_cachedTid ts))
     \<and> (t_lastSecond ts \<noteq> 0 \<longrightarrow> take 17 (t_time ts) = time_text (t_lastSecond ts))"

lemma thread_ok_fresh: "thread_ok fresh_thread"
  by (simp add: thread_ok_def fresh_thread_def)

lemma length_time_text: "time_ok s \<Longrightarrow> length (time_text s) = 17"
  using tm_widths [OF gmtime_ok [of s]] show_year(1) [of s]
  by (simp add: time_text_def Let_def length_fmt_d)

lemma show_nat_no_nul: "CHR 0x00 \<notin> set (show_nat n)"
proof (induction n rule: show_nat.induct)
  case (1 n)
  have "digit_char d \<noteq> CHR 0x00" if "d < 10" for d
    using that by (elim digit_cases) (simp_all add: digit_char_def)
  from this [of n] this [of "n mod 10"] 1 show ?case
    by (cases "n < 10") (auto simp: show_nat.simps [of n])
qed

lemma c_str_store:
  assumes "CHR 0x00 \<notin> set cs"
  shows "c_str (store_text cs arr) = cs"
  using assms by (auto simp: c_str_def store_text_def overwrite_def takeWhile_append)

lemma fmt_d_no_nul: "CHR 0x00 \<notin> set (fmt_d w v)"
  using show_nat_no_nul by (auto simp: fmt_d_def show_int_def)

lemma fmt_d5:
  "length (fmt_d 5 v) = 5 \<longleftrightarrow> - 10000 < v \<and> v < 100000"
proof -
  have "length (show_int v) \<le> 5 \<longleftrightarrow> - 10000 < v \<and> v < 100000"
  proof (cases "v < 0")
    case True
    have "length (show_nat (nat (- v))) \<le> 4 \<longleftrightarrow> nat (- v) < 10 ^ 4"
      using length_show_nat [of "nat (- v)" 4] length_show_nat_ge [of 4 "nat (- v)"] by linarith
    with True show ?thesis by (auto simp: show_int_def)
  next
    case False
    have "length (show_nat (nat v)) \<le> 5 \<longleftrightarrow> nat v < 10 ^ 5"
      using length_show_nat [of "nat v" 5] length_show_nat_ge [of 5 "nat v"] by linarith
    with False show ?thesis by (auto simp: show_int_def)
  qed
  then show ?thesis by (auto simp: length_fmt_d max_def)
qed

lemma cacheTid_cases:
  "cacheTid v ts =
     (if t_cachedTid ts = 0
      then if - 10000 < v \<and> v < 100000
           then Inr (ts\<lparr>t_cachedTid := v, t_tidString := store_text (fmt_d 5 v) (t_tidString ts)\<rparr>)
           else Inl Assert_failed
      else Inr ts)"
  using fmt_d5 [of v] by (auto simp: cacheTid_def snprintf_def Let_def)

lemma tid_ok:
  assumes "thread_ok ts" and "t_cachedTid ts = 0 \<or> t_cachedTid ts = v" and "0 < v" and "v < 100000"
  shows "\<exists>ts'. tid v ts = Inr (v, ts') \<and> thread_ok ts' \<and> tidString ts' = fmt_d 5 v \<and> t_cachedTid ts' = v"
proof (cases "t_cachedTid ts = 0")
  case True
  let ?ts = "ts\<lparr>t_cachedTid := v, t_tidString := store_text (fmt_d 5 v) (t_tidString ts)\<rparr>"
  have "tidString ?ts = fmt_d 5 v" by (simp add: tidString_def c_str_store fmt_d_no_nul)
  moreover have "length (store_text (fmt_d 5 v) (t_tidString ts)) = 32"
    using assms(1,3,4) fmt_d5 [of v] by (simp add: store_text_def thread_ok_def)
  ultimately have "thread_ok ?ts" using assms(1) by (simp add: thread_ok_def)
  with True assms(3,4) \<open>tidString ?ts = fmt_d 5 v\<close> show ?thesis by (simp add: tid_def cacheTid_cases)
next
  case False
  with assms show ?thesis by (auto simp: tid_def thread_ok_def)
qed

definition us_text :: "int \<Rightarrow> string" where
  "us_text t = ''.'' @ fmt_0d 6 (t mod 1000000) @ ''Z ''"

lemma length_us_text: "length (us_text t) = 9"
  using length_fmt_0d [of "t mod 1000000" 6] by (simp add: us_text_def)

lemma Fmt_ok: "length cs < 32 \<Longrightarrow> Fmt cs = Inr cs"
  by (simp add: Fmt_def snprintf_def)

lemma signed_parts: "0 \<le> t \<Longrightarrow> t sdiv 1000000 = t div 1000000 \<and> t smod 1000000 = t mod 1000000" for t :: int
  by (cases "t = 0") (simp_all add: signed_divide_int_def signed_modulo_int_def)

lemma formatTime_ok:
  assumes "thread_ok ts" and "1000000 \<le> log_time impl" and "time_ok (log_time impl div 1000000)"
  shows "\<exists>ts'. thread_ok ts' \<and> t_cachedTid ts' = t_cachedTid ts
    \<and> formatTime impl ts
        = res_bind (foldR LogStream_put
              [LString (time_text (log_time impl div 1000000)), LString (us_text (log_time impl))] (logStream impl))
            (\<lambda>s. Inr (impl\<lparr>logStream := s\<rparr>, ts'))"
proof -
  define sec where "sec = log_time impl div 1000000"
  have parts: "log_time impl sdiv 1000000 = sec" "log_time impl smod 1000000 = log_time impl mod 1000000"
    using signed_parts [of "log_time impl"] assms(2) by (simp_all add: sec_def)
  have sec: "sec \<noteq> 0" "time_ok sec" using assms(2,3) by (auto simp: sec_def)
  have us: "Fmt (''.'' @ fmt_0d 6 (log_time impl mod 1000000) @ ''Z '') = Inr (us_text (log_time impl))"
    using Fmt_ok [of "us_text (log_time impl)"] length_us_text by (simp add: us_text_def)
  have step: "formatTime impl ts
      = res_bind (foldR LogStream_put [LString (time_text sec), LString (us_text (log_time impl))] (logStream impl))
            (\<lambda>s. Inr (impl\<lparr>logStream := s\<rparr>, ts'))"
    if "(if sec \<noteq> t_lastSecond ts
         then (let (buf, len) = snprintf 32 (time_text sec)
               in assertR (len = 17) (Inr (ts\<lparr>t_lastSecond := sec, t_time := store_text buf (t_time ts)\<rparr>)))
         else Inr ts) = Inr ts'" and "take 17 (t_time ts') = time_text sec" for ts'
    unfolding formatTime_def Let_def parts that(1) [unfolded Let_def] res_bind_simps us
    using that(2) length_us_text by simp
  show ?thesis
  proof (cases "sec = t_lastSecond ts")
    case True
    with step [of ts] assms(1) sec show ?thesis
      by (intro exI [of _ ts]) (simp add: thread_ok_def sec_def)
  next
    case False
    let ?ts = "ts\<lparr>t_lastSecond := sec, t_time := store_text (time_text sec) (t_time ts)\<rparr>"
    have t: "length (store_text (time_text sec) (t_time ts)) = 32"
        "take 17 (store_text (time_text sec) (t_time ts)) = time_text sec"
      using assms(1) length_time_text [OF sec(2)] by (simp_all add: store_text_def overwrite_def thread_ok_def)
    then have "thread_ok ?ts" using assms(1) by (simp add: thread_ok_def tidString_def)
    with step [of ?ts] t False length_time_text [OF sec(2)] show ?thesis
      by (intro exI [of _ ?ts]) (simp add: snprintf_def sec_def)
  qed
qed

subsection \<open>The whole line\<close>

definition macro_level :: "log_macro \<Rightarrow> severity" where
  "macro_level m = (case m of LOG_TRACE \<Rightarrow> TRACE | LOG_DEBUG \<Rightarrow> DEBUG | LOG_INFO \<Rightarrow> INFO | LOG_WARN \<Rightarrow> WARN
     | LOG_ERROR \<Rightarrow> ERROR | LOG_FATAL \<Rightarrow> FATAL | LOG_SYSERR \<Rightarrow> ERROR | LOG_SYSFATAL \<Rightarrow> FATAL)"

definition macro_errno :: "log_env \<Rightarrow> log_macro \<Rightarrow> int" where
  "macro_errno env m = (if m = LOG_SYSERR \<or> m = LOG_SYSFATAL then log_errno env else 0)"

definition errno_args :: "log_env \<Rightarrow> int \<Rightarrow> log_arg list" where
  "errno_args env e =
     (if e \<noteq> 0 then [LCStr (log_strerror env e), LCStr '' (errno='', LInt e, LCStr '') ''] else [])"

definition func_args :: "log_macro \<Rightarrow> string \<Rightarrow> log_arg list" where
  "func_args m func = (if m = LOG_TRACE \<or> m = LOG_DEBUG \<or> m = LOG_INFO then [LCStr func, LChar CHR '' ''] else [])"

text \<open>Everything a statement streams, in order.\<close>

definition line_args :: "log_env \<Rightarrow> log_macro \<Rightarrow> string \<Rightarrow> int \<Rightarrow> string \<Rightarrow> log_arg list \<Rightarrow> log_arg list" where
  "line_args env m path ln func args =
     [LString (time_text (log_now env div 1000000)), LString (us_text (log_now env))]
     @ ([LCStr (fmt_d 5 (log_gettid env)), LCStr (LogLevelName (macro_level m))] @ errno_args env (macro_errno env m))
     @ func_args m func @ args
     @ [LCStr '' - '', LString (SourceFile path), LCStr '':'', LInt ln, LChar CHR 0x0A]"

definition env_ok :: "log_env \<Rightarrow> thread_locals \<Rightarrow> bool" where
  "env_ok env ts \<longleftrightarrow> length (log_memory env) = kSmallBuffer \<and> 1000000 \<le> log_now env
     \<and> time_ok (log_now env div 1000000) \<and> 0 < log_gettid env
     \<and> (t_cachedTid ts = 0 \<or> t_cachedTid ts = log_gettid env)"

lemma Impl_new_ok:
  assumes "thread_ok ts" and "env_ok env ts" and "log_gettid env < 100000"
  shows "\<exists>ts'. thread_ok ts' \<and> t_cachedTid ts' = log_gettid env
    \<and> Impl_new env lvl e src ln ts
        = res_bind (foldR LogStream_put
              ([LString (time_text (log_now env div 1000000)), LString (us_text (log_now env))]
               @ ([LCStr (fmt_d 5 (log_gettid env)), LCStr (LogLevelName lvl)] @ errno_args env e))
              (FixedBuffer_new (log_memory env)))
            (\<lambda>s. Inr (\<lparr>log_time = log_now env, logStream = s, level = lvl, line = ln, basename_of = src\<rparr>, ts'))"
proof -
  let ?impl = "\<lparr>log_time = log_now env, logStream = FixedBuffer_new (log_memory env), level = lvl,
                line = ln, basename_of = src\<rparr>"
  obtain ts1 where ts1: "thread_ok ts1" "t_cachedTid ts1 = t_cachedTid ts"
      "formatTime ?impl ts = res_bind (foldR LogStream_put
              [LString (time_text (log_now env div 1000000)), LString (us_text (log_now env))]
              (FixedBuffer_new (log_memory env))) (\<lambda>s. Inr (?impl\<lparr>logStream := s\<rparr>, ts1))"
    using formatTime_ok [of ts ?impl] assms(1,2) by (auto simp: env_ok_def)
  obtain ts2 where ts2: "tid (log_gettid env) ts1 = Inr (log_gettid env, ts2)" "thread_ok ts2"
      "tidString ts2 = fmt_d 5 (log_gettid env)" "t_cachedTid ts2 = log_gettid env"
    using tid_ok [OF ts1(1), of "log_gettid env"] ts1(2) assms(2,3) by (auto simp: env_ok_def)
  have "Impl_new env lvl e src ln ts
        = res_bind (foldR LogStream_put
              ([LString (time_text (log_now env div 1000000)), LString (us_text (log_now env))]
               @ ([LCStr (fmt_d 5 (log_gettid env)), LCStr (LogLevelName lvl)] @ errno_args env e))
              (FixedBuffer_new (log_memory env)))
            (\<lambda>s. Inr (\<lparr>log_time = log_now env, logStream = s, level = lvl, line = ln, basename_of = src\<rparr>, ts2))"
    unfolding Impl_new_def ts1(3) foldR_append res_bind_assoc errno_args_def
    by (simp add: ts2(1,3) res_bind_assoc)
  with ts2 show ?thesis by blast
qed

text \<open>The destructor, on what the constructor and the arguments have streamed so far.\<close>

definition emit :: "'w log_globals \<Rightarrow> severity \<Rightarrow> string \<Rightarrow> 'w \<Rightarrow> 'w res" where
  "emit g lvl text w = res_bind (g_output g text w) (\<lambda>w'. if lvl = FATAL then g_flush g w' else Inr w')"

lemma Logger_new_ok:
  assumes "thread_ok ts" and "env_ok env ts" and "log_gettid env < 100000"
  shows "\<exists>ts'. thread_ok ts' \<and> t_cachedTid ts' = log_gettid env
    \<and> Logger_new env path ln (macro_ctor m func) ts
        = res_bind (foldR LogStream_put
              (([LString (time_text (log_now env div 1000000)), LString (us_text (log_now env))]
               @ ([LCStr (fmt_d 5 (log_gettid env)), LCStr (LogLevelName (macro_level m))]
                  @ errno_args env (macro_errno env m))) @ func_args m func)
              (FixedBuffer_new (log_memory env)))
            (\<lambda>s. Inr (\<lparr>log_time = log_now env, logStream = s, level = macro_level m, line = ln,
                       basename_of = SourceFile path\<rparr>, ts'))"
proof -
  obtain ts' where ts': "thread_ok ts'" "t_cachedTid ts' = log_gettid env"
    "Impl_new env (macro_level m) (macro_errno env m) (SourceFile path) ln ts
        = res_bind (foldR LogStream_put
              ([LString (time_text (log_now env div 1000000)), LString (us_text (log_now env))]
               @ ([LCStr (fmt_d 5 (log_gettid env)), LCStr (LogLevelName (macro_level m))]
                  @ errno_args env (macro_errno env m)))
              (FixedBuffer_new (log_memory env)))
            (\<lambda>s. Inr (\<lparr>log_time = log_now env, logStream = s, level = macro_level m, line = ln,
                       basename_of = SourceFile path\<rparr>, ts'))"
    using Impl_new_ok [OF assms] by blast
  have "Logger_new env path ln (macro_ctor m func) ts
      = res_bind (Impl_new env (macro_level m) (macro_errno env m) (SourceFile path) ln ts)
          (\<lambda>(impl, ts'). res_bind (foldR LogStream_put (func_args m func) (logStream impl))
             (\<lambda>s. Inr (impl\<lparr>logStream := s\<rparr>, ts')))"
    by (cases m) (simp_all add: Logger_new_def macro_ctor_def macro_level_def macro_errno_def func_args_def
        res_bind_def split: sum.splits)
  also note ts'(3)
  finally have "Logger_new env path ln (macro_ctor m func) ts
        = res_bind (foldR LogStream_put
              (([LString (time_text (log_now env div 1000000)), LString (us_text (log_now env))]
               @ ([LCStr (fmt_d 5 (log_gettid env)), LCStr (LogLevelName (macro_level m))]
                  @ errno_args env (macro_errno env m))) @ func_args m func)
              (FixedBuffer_new (log_memory env)))
            (\<lambda>s. Inr (\<lparr>log_time = log_now env, logStream = s, level = macro_level m, line = ln,
                       basename_of = SourceFile path\<rparr>, ts'))"
    by (simp only: foldR_append res_bind_assoc) (simp add: res_bind_assoc)
  with ts' show ?thesis by blast
qed

lemma log_statement_eq:
  assumes "thread_ok ts" and "env_ok env ts" and "log_gettid env < 100000"
  shows "\<exists>ts'. thread_ok ts' \<and> t_cachedTid ts' = log_gettid env
    \<and> log_statement g env m path ln func args ts w
        = res_bind (foldR LogStream_put (line_args env m path ln func args) (FixedBuffer_new (log_memory env)))
            (\<lambda>s. res_bind (emit g (macro_level m) (asString s) w) (\<lambda>w'. Inr (w', ts')))"
proof -
  have guard: "macro_guard m" by (cases m) (simp_all add: macro_guard_def severity_bounds)
  from Logger_new_ok [OF assms, of path ln m func] obtain ts' where
    ts': "thread_ok ts'" "t_cachedTid ts' = log_gettid env"
      "Logger_new env path ln (macro_ctor m func) ts
        = res_bind (foldR LogStream_put
              (([LString (time_text (log_now env div 1000000)), LString (us_text (log_now env))]
               @ ([LCStr (fmt_d 5 (log_gettid env)), LCStr (LogLevelName (macro_level m))]
                  @ errno_args env (macro_errno env m))) @ func_args m func)
              (FixedBuffer_new (log_memory env)))
            (\<lambda>s. Inr (\<lparr>log_time = log_now env, logStream = s, level = macro_level m, line = ln,
                       basename_of = SourceFile path\<rparr>, ts'))" by blast
  have "log_statement g env m path ln func args ts w
        = res_bind (foldR LogStream_put (line_args env m path ln func args) (FixedBuffer_new (log_memory env)))
            (\<lambda>s. res_bind (emit g (macro_level m) (asString s) w) (\<lambda>w'. Inr (w', ts')))"
    unfolding log_statement_def Logger_delete_def finish_def emit_def line_args_def ts'(3)
    by (simp only: guard if_True foldR_append res_bind_assoc append_assoc) (simp add: res_bind_assoc)
  with ts' show ?thesis by blast
qed

text \<open>The text a line is meant to have.\<close>

definition line_text :: "log_env \<Rightarrow> log_macro \<Rightarrow> string \<Rightarrow> int \<Rightarrow> string \<Rightarrow> log_arg list \<Rightarrow> string" where
  "line_text env m path ln func args =
     time_text (log_now env div 1000000) @ us_text (log_now env) @ fmt_d 5 (log_gettid env)
     @ LogLevelName (macro_level m)
     @ (if macro_errno env m \<noteq> 0
        then log_strerror env (macro_errno env m) @ '' (errno='' @ show_int (macro_errno env m) @ '') '' else [])
     @ (if m = LOG_TRACE \<or> m = LOG_DEBUG \<or> m = LOG_INFO then func @ '' '' else [])
     @ concat (map render args)
     @ '' - '' @ SourceFile path @ '':'' @ show_int ln @ [CHR 0x0A]"

lemma render_line_args: "concat (map render (line_args env m path ln func args)) = line_text env m path ln func args"
  by (simp add: line_args_def line_text_def errno_args_def func_args_def render_def)

definition int32 :: "int \<Rightarrow> bool" where
  "int32 v \<longleftrightarrow> - 2147483648 \<le> v \<and> v < 2147483648"

lemma line_args_ok:
  assumes "list_all arg_ok args" and "int32 ln" and "int32 (log_errno env)"
  shows "list_all arg_ok (line_args env m path ln func args)"
  using assms by (simp add: line_args_def errno_args_def func_args_def macro_errno_def arg_ok_def int32_def)

text \<open>The room a line needs in the stack buffer of 4000 bytes.\<close>

definition line_need :: "log_env \<Rightarrow> log_macro \<Rightarrow> string \<Rightarrow> int \<Rightarrow> string \<Rightarrow> log_arg list \<Rightarrow> nat" where
  "line_need env m path ln func args = sum_list (map need (line_args env m path ln func args))"

lemma SourceFile_rev: "SourceFile path = rev (takeWhile (\<lambda>c. c \<noteq> CHR ''/'') (rev path))"
proof -
  have "case strrchr_slash path of
      Some i \<Rightarrow> i < length path \<and> rev (takeWhile (\<lambda>c. c \<noteq> CHR ''/'') (rev path)) = drop (i + 1) path
        \<and> CHR ''/'' \<in> set path
    | None \<Rightarrow> CHR ''/'' \<notin> set path" for path
    by (induction path rule: strrchr_slash.induct) (auto split: option.splits simp: takeWhile_tail takeWhile_append)
  note last_slash = this [of path]
  show ?thesis
  proof (cases "strrchr_slash path")
    case None
    with last_slash have "takeWhile (\<lambda>c. c \<noteq> CHR ''/'') (rev path) = rev path"
      by (auto simp: takeWhile_eq_all_conv)
    then show ?thesis unfolding SourceFile_def None by (simp only: option.case rev_rev_ident)
  qed (use last_slash in \<open>simp add: SourceFile_def\<close>)
qed

subsection \<open>Properties\<close>

text \<open>
  C34 (functional). A log statement that fits into the stack buffer hands exactly one line
  to the output function: the time of the statement to the microsecond, the thread id, the
  level, for the system-error macros the text and number of \<open>errno\<close>, for the first three
  macros the function name, then the arguments, and at the end the file name without its
  directory, the line number and a newline.  The flush function is called for the two fatal
  macros only.  The texts the thread has cached from earlier statements, of its id and of
  the second, are right for every history, and the configured level plays no role.
\<close>
theorem log_statement_emits_line:
  assumes "thread_ok ts" and "env_ok env ts" and "log_gettid env < 100000"
    and "list_all arg_ok args" and "int32 ln" and "int32 (log_errno env)"
    and "line_need env m path ln func args \<le> kSmallBuffer"
  shows "\<exists>ts'. thread_ok ts' \<and> t_cachedTid ts' = log_gettid env
    \<and> log_statement g env m path ln func args ts w
        = res_bind (g_output g (line_text env m path ln func args) w)
            (\<lambda>w'. res_bind (if m = LOG_FATAL \<or> m = LOG_SYSFATAL then g_flush g w' else Inr w')
                    (\<lambda>w''. Inr (w'', ts')))"
proof -
  let ?fb = "FixedBuffer_new (log_memory env)"
  have wf: "fb_wf ?fb" using assms(2) by (intro fb_wf_new) (simp add: env_ok_def kSmallBuffer_def kLargeBuffer_def)
  have "data ?fb = log_memory env" by (simp add: FixedBuffer_new_def)
  then have "length (asString ?fb) + sum_list (map need (line_args env m path ln func args)) \<le> length (data ?fb)"
    using assms(2,7) by (simp add: asString_new line_need_def env_ok_def)
  from ls.run_fits [OF wf line_args_ok [OF assms(4-6)] this] obtain s where
    s: "foldR LogStream_put (line_args env m path ln func args) ?fb = Inr s"
      "asString s = line_text env m path ln func args"
    unfolding asString_new render_line_args append_Nil by blast
  have "macro_level m = FATAL \<longleftrightarrow> m = LOG_FATAL \<or> m = LOG_SYSFATAL"
    by (cases m) (simp_all add: macro_level_def)
  with log_statement_eq [OF assms(1-3), of g m path ln func args w] s show ?thesis
    by (simp add: emit_def res_bind_assoc)
qed

theorem log_statement_emits_line_witness:
  "\<exists>ts'. log_statement \<lparr>g_logLevel = ERROR, g_output = (\<lambda>msg out. Inr (out @ [msg])), g_flush = Inr\<rparr>
      \<lparr>log_now = 1700000000000123, log_gettid = 4711, log_errno = 0, log_strerror = (\<lambda>_. []),
       log_memory = replicate 4000 CHR 0x00\<rparr>
      LOG_TRACE ''../src/Acceptor.cpp'' 27 ''handleRead'' [LCStr ''fd='', LInt 9] fresh_thread []
    = Inr ([''20231114 22:13:20.000123Z  4711TRACEhandleRead fd=9 - Acceptor.cpp:27'' @ [CHR 0x0A]], ts')"
proof -
  let ?env = "\<lparr>log_now = 1700000000000123, log_gettid = 4711, log_errno = 0, log_strerror = (\<lambda>_. []),
       log_memory = replicate 4000 CHR 0x00\<rparr>"
  have ok: "env_ok ?env fresh_thread"
    by (simp add: env_ok_def fresh_thread_def kSmallBuffer_def time_ok_def)
  have "gmtime_r 1700000000 = \<lparr>tm_sec = 20, tm_min = 13, tm_hour = 22, tm_mday = 14, tm_mon = 10, tm_year = 123\<rparr>"
    by (simp add: gmtime_r_def find_year.simps year_len_def leap_def month_lens_def)
  then have texts: "time_text 1700000000 = ''20231114 22:13:20''"
    by (simp add: time_text_def fmt_d_def fmt_0d_def show_int_def show_nat.simps digit_char_def)
  have us: "us_text 1700000000000123 = ''.000123Z ''"
  proof -
    have "show_nat 123 = ''123''" by (simp add: show_nat.simps digit_char_def)
    then have "fmt_0d 6 123 = replicate 3 CHR ''0'' @ ''123''" by (simp add: fmt_0d_def)
    then show ?thesis by (simp add: us_text_def numeral_3_eq_3)
  qed
  have others: "fmt_d 5 4711 = '' 4711''" "show_int 9 = ''9''" "show_int 27 = ''27''"
    by (simp_all add: fmt_d_def show_int_def show_nat.simps digit_char_def)
  have path: "SourceFile ''../src/Acceptor.cpp'' = ''Acceptor.cpp''" by (simp add: SourceFile_def)
  have need: "line_need ?env LOG_TRACE ''../src/Acceptor.cpp'' 27 ''handleRead'' [LCStr ''fd='', LInt 9] \<le> kSmallBuffer"
    by (simp add: line_need_def line_args_def need_def render_def func_args_def errno_args_def macro_errno_def
        macro_level_def LogLevelName_def texts us others path kMaxNumericSize_def kSmallBuffer_def)
  have "line_text ?env LOG_TRACE ''../src/Acceptor.cpp'' 27 ''handleRead'' [LCStr ''fd='', LInt 9]
      = ''20231114 22:13:20.000123Z  4711TRACEhandleRead fd=9 - Acceptor.cpp:27'' @ [CHR 0x0A]"
    by (simp add: line_text_def macro_errno_def macro_level_def LogLevelName_def render_def texts us others path)
  with log_statement_emits_line [OF thread_ok_fresh ok _ _ _ _ need,
      of "\<lparr>g_logLevel = ERROR, g_output = (\<lambda>msg out. Inr (out @ [msg])), g_flush = Inr\<rparr>" "[]"]
  show ?thesis by (auto simp: arg_ok_def int32_def)
qed

text \<open>
  C38 (error). The identity of a thread is printed with \<open>"%5d"\<close> and asserted to have five
  characters.  On a system that hands out thread ids from 100000 on, the first log
  statement of such a thread, at whatever level, aborts the process.
\<close>
theorem long_thread_id_aborts:
  assumes "thread_ok ts" and "env_ok env ts" and "t_cachedTid ts = 0" and "100000 \<le> log_gettid env"
  shows "log_statement g env m path ln func args ts w = Inl Assert_failed"
proof -
  let ?impl = "\<lambda>lvl. \<lparr>log_time = log_now env, logStream = FixedBuffer_new (log_memory env), level = lvl,
                line = ln, basename_of = SourceFile path\<rparr>"
  have Impl: "Impl_new env lvl e (SourceFile path) ln ts = Inl Assert_failed" for lvl e
  proof -
    obtain ts1 where ts1: "t_cachedTid ts1 = 0"
      "formatTime (?impl lvl) ts = res_bind (foldR LogStream_put
              [LString (time_text (log_now env div 1000000)), LString (us_text (log_now env))]
              (FixedBuffer_new (log_memory env))) (\<lambda>s. Inr (?impl lvl\<lparr>logStream := s\<rparr>, ts1))"
      using formatTime_ok [of ts "?impl lvl"] assms by (auto simp: env_ok_def)
    have "fb_wf (FixedBuffer_new (log_memory env))"
      using assms(2) by (intro fb_wf_new) (simp add: env_ok_def kSmallBuffer_def kLargeBuffer_def)
    then obtain s where "foldR LogStream_put
        [LString (time_text (log_now env div 1000000)), LString (us_text (log_now env))]
        (FixedBuffer_new (log_memory env)) = Inr s"
      using ls.run_total [of "FixedBuffer_new (log_memory env)"
          "[LString (time_text (log_now env div 1000000)), LString (us_text (log_now env))]"]
      by (simp only: list.pred_inject arg_ok_def log_arg.case) blast
    moreover have "tid (log_gettid env) ts1 = Inl Assert_failed"
      using ts1(1) assms(4) by (simp add: tid_def cacheTid_cases)
    ultimately show ?thesis by (simp only: Impl_new_def ts1(2) res_bind_simps prod.case)
  qed
  have "macro_guard m" by (cases m) (simp_all add: macro_guard_def severity_bounds)
  moreover have "Logger_new env path ln (macro_ctor m func) ts = Inl Assert_failed"
    using Impl by (cases m) (simp_all add: Logger_new_def macro_ctor_def)
  ultimately show ?thesis by (simp add: log_statement_def)
qed

theorem long_thread_id_aborts_witness:
  "log_statement \<lparr>g_logLevel = ERROR, g_output = (\<lambda>msg out. Inr (out @ [msg])), g_flush = Inr\<rparr>
      \<lparr>log_now = 1700000000000123, log_gettid = 100000, log_errno = 0, log_strerror = (\<lambda>_. []),
       log_memory = replicate 4000 CHR 0x00\<rparr>
      LOG_TRACE ''a.cpp'' 1 ''f'' [] fresh_thread [] = Inl Assert_failed"
  by (rule long_thread_id_aborts [OF thread_ok_fresh])
    (simp_all add: env_ok_def fresh_thread_def kSmallBuffer_def time_ok_def)

text \<open>Changing the configured level changes nothing.\<close>

lemma level_has_no_effect:
  "log_statement (setLogLevel lvl g) env m path ln func args ts w = log_statement g env m path ln func args ts w"
  by (simp add: log_statement_def Logger_delete_def setLogLevel_def cong: if_cong)

end
