(* ===== verification/Inet_Address.thy ===== *)
theory Inet_Address
  imports Logging "HOL-Library.Word"
begin

unbundle bit_operations_syntax

section \<open>Addresses and socket calls\<close>

text \<open>
  Model of \<open>include/InetAddress.h\<close>, \<open>src/InetAddress.cpp\<close>, \<open>include/SocketsOps.h\<close>,
  \<open>src/SocketsOps.cpp\<close> and \<open>src/Socket.cpp\<close>: socket addresses in network byte order and
  their textual form, which the server uses as the identity of a client, and the wrappers
  of the socket calls.  The answers of the system calls and of \<open>inet_pton\<close> are parameters.
  The host is little-endian, so a conversion between host and network order reverses the
  bytes.  A wrapper that only logs returns the severities it logs; a fatal line does not
  abort (the \<open>abort\<close> is commented out in \<open>Logger::~Logger\<close>).
\<close>

subsection \<open>Addresses\<close>

record sockaddr_in =
  sin_family :: nat
  sin_port :: "16 word"
  sin_addr :: "32 word"

definition AF_INET :: nat where "AF_INET = 2"
definition INADDR_ANY :: "32 word" where "INADDR_ANY = 0"

definition sockaddr_zero :: sockaddr_in where
  "sockaddr_zero = \<lparr>sin_family = 0, sin_port = 0, sin_addr = 0\<rparr>"

definition hostToNetwork16 :: "16 word \<Rightarrow> 16 word" where
  "hostToNetwork16 w = push_bit 8 w OR drop_bit 8 w"

definition networkToHost16 :: "16 word \<Rightarrow> 16 word" where
  "networkToHost16 w = push_bit 8 w OR drop_bit 8 w"

definition hostToNetwork32 :: "32 word \<Rightarrow> 32 word" where
  "hostToNetwork32 w = push_bit 24 w OR (push_bit 8 w AND 0xFF0000) OR (drop_bit 8 w AND 0xFF00) OR drop_bit 24 w"

definition networkToHost32 :: "32 word \<Rightarrow> 32 word" where
  "networkToHost32 w = push_bit 24 w OR (push_bit 8 w AND 0xFF0000) OR (drop_bit 8 w AND 0xFF00) OR drop_bit 24 w"

text \<open>\<open>htobe64\<close> and \<open>be64toh\<close> on a little-endian machine: byte \<open>i\<close> becomes byte \<open>7 - i\<close>.\<close>

definition hostToNetwork64 :: "64 word \<Rightarrow> 64 word" where
  "hostToNetwork64 w = foldr (\<lambda>i v. push_bit (56 - 8 * i) (take_bit 8 (drop_bit (8 * i) w)) OR v) [0..<8] 0"

definition networkToHost64 :: "64 word \<Rightarrow> 64 word" where
  "networkToHost64 w = foldr (\<lambda>i v. push_bit (56 - 8 * i) (take_bit 8 (drop_bit (8 * i) w)) OR v) [0..<8] 0"

text \<open>Byte \<open>i\<close> of the address in memory, and \<open>inet_ntop\<close>, which prints the four bytes in order.\<close>

definition addr_byte :: "nat \<Rightarrow> 32 word \<Rightarrow> nat" where
  "addr_byte i a = unat (take_bit 8 (drop_bit (8 * i) a))"

definition inet_ntop :: "32 word \<Rightarrow> string" where
  "inet_ntop a = show_nat (addr_byte 0 a) @ ''.'' @ show_nat (addr_byte 1 a) @ ''.''
     @ show_nat (addr_byte 2 a) @ ''.'' @ show_nat (addr_byte 3 a)"

text \<open>\<open>snprintf(buf, size, ...)\<close> keeps at most \<open>size - 1\<close> characters of the text.\<close>

definition toHostPort :: "nat \<Rightarrow> sockaddr_in \<Rightarrow> string" where
  "toHostPort n addr =
     (let host = inet_ntop (sin_addr addr); port = networkToHost16 (sin_port addr)
      in take (n - 1) (host @ '':'' @ show_nat (unat port)))"

definition InetAddress_toHostPort :: "sockaddr_in \<Rightarrow> string" where
  "InetAddress_toHostPort addr = toHostPort 32 addr"

definition getAsString :: "sockaddr_in \<Rightarrow> string" where
  "getAsString addr = InetAddress_toHostPort addr"

definition InetAddress_port :: "16 word \<Rightarrow> sockaddr_in" where
  "InetAddress_port port =
     sockaddr_zero\<lparr>sin_family := AF_INET, sin_addr := hostToNetwork32 INADDR_ANY,
                   sin_port := hostToNetwork16 port\<rparr>"

definition fromHostPort :: "(string \<Rightarrow> 32 word option) \<Rightarrow> string \<Rightarrow> 16 word \<Rightarrow> sockaddr_in \<Rightarrow> sockaddr_in" where
  "fromHostPort inet_pton ip port addr =
     (let addr1 = addr\<lparr>sin_family := AF_INET, sin_port := hostToNetwork16 port\<rparr>
      in case inet_pton ip of Some a \<Rightarrow> addr1\<lparr>sin_addr := a\<rparr> | None \<Rightarrow> addr1)"

definition InetAddress_ip_port :: "(string \<Rightarrow> 32 word option) \<Rightarrow> string \<Rightarrow> 16 word \<Rightarrow> sockaddr_in" where
  "InetAddress_ip_port inet_pton ip port = fromHostPort inet_pton ip port sockaddr_zero"

subsection \<open>Socket calls\<close>

datatype errno = EPERM | EINTR | EBADF | EAGAIN | ENOMEM | EFAULT | EINVAL | ENFILE | EMFILE
  | EPROTO | ENOTSOCK | EOPNOTSUPP | ECONNABORTED | ENOBUFS | OtherError int

text \<open>The answer of \<open>accept4(2)\<close>: a descriptor and the peer, or an error.\<close>

type_synonym accept_answer = "errno + (int \<times> sockaddr_in)"

definition sockets_accept :: "accept_answer \<Rightarrow> sockaddr_in \<Rightarrow> int \<times> sockaddr_in \<times> severity list" where
  "sockets_accept answer addr =
     (case answer of
        Inr (connfd, peer) \<Rightarrow> (connfd, peer, [])
      | Inl savedErrno \<Rightarrow>
          (case savedErrno of
             EAGAIN \<Rightarrow> (- 1, addr, [ERROR])
           | ECONNABORTED \<Rightarrow> (- 1, addr, [ERROR])
           | EINTR \<Rightarrow> (- 1, addr, [ERROR])
           | EPROTO \<Rightarrow> (- 1, addr, [ERROR])
           | EPERM \<Rightarrow> (- 1, addr, [ERROR])
           | EMFILE \<Rightarrow> (- 1, addr, [ERROR])
           | _ \<Rightarrow> (- 1, addr, [ERROR, FATAL])))"

definition Socket_accept :: "accept_answer \<Rightarrow> sockaddr_in \<Rightarrow> int \<times> sockaddr_in \<times> severity list" where
  "Socket_accept answer peeraddr =
     (let (connfd, addr, logged) = sockets_accept answer sockaddr_zero
      in (connfd, if connfd \<ge> 0 then addr else peeraddr, logged))"

definition createNonblockingOrDie :: "int \<Rightarrow> int \<times> severity list" where
  "createNonblockingOrDie sockfd = (sockfd, if sockfd < 0 then [FATAL] else [])"

definition bindOrDie :: "int \<Rightarrow> severity list" where
  "bindOrDie ret = (if ret < 0 then [FATAL] else [])"

definition listenOrDie :: "int \<Rightarrow> severity list" where
  "listenOrDie ret = (if ret < 0 then [FATAL] else [])"

definition getLocalAddr :: "sockaddr_in option \<Rightarrow> sockaddr_in \<times> severity list" where
  "getLocalAddr answer = (case answer of Some a \<Rightarrow> (a, []) | None \<Rightarrow> (sockaddr_zero, [ERROR]))"

subsection \<open>Byte order and bytes\<close>

lemma swap16_involutive: "networkToHost16 (hostToNetwork16 w) = w"
  unfolding networkToHost16_def hostToNetwork16_def
  by (rule bit_word_eqI) (auto simp: bit_simps)

lemma bit_swap64:
  assumes "q < 8" and "r < 8"
  shows "bit (hostToNetwork64 w) (8 * q + r) \<longleftrightarrow> bit w (8 * (7 - q) + r)"
proof -
  from assms(1) have "q = 0 \<or> q = 1 \<or> q = 2 \<or> q = 3 \<or> q = 4 \<or> q = 5 \<or> q = 6 \<or> q = 7" by linarith
  with assms(2) show ?thesis
    by (elim disjE) (simp_all add: hostToNetwork64_def upt_rec bit_simps)
qed

lemma swap64_involutive: "networkToHost64 (hostToNetwork64 w) = w"
proof (rule bit_word_eqI)
  fix n assume n: "n < LENGTH(64)"
  define q r where "q = n div 8" and "r = n mod 8"
  have "q < 8" "r < 8" "n = 8 * q + r" using n by (simp_all add: q_def r_def)
  moreover have "networkToHost64 = hostToNetwork64" by (rule ext) (simp add: networkToHost64_def hostToNetwork64_def)
  ultimately show "bit (networkToHost64 (hostToNetwork64 w)) n \<longleftrightarrow> bit w n"
    using bit_swap64 [of q r "hostToNetwork64 w"] bit_swap64 [of "7 - q" r w] by simp
qed

lemma networkToHost16_inj: "networkToHost16 v = networkToHost16 w \<Longrightarrow> v = w"
  using swap16_involutive [of v] swap16_involutive [of w]
  by (simp add: networkToHost16_def hostToNetwork16_def)

lemma addr_byte_bound: "addr_byte i a < 256"
proof -
  have "unat (take_bit 8 (drop_bit (8 * i) a)) = take_bit 8 (unat (drop_bit (8 * i) a))"
    by (simp add: unsigned_take_bit_eq)
  also have "\<dots> < 2 ^ 8" by (rule take_bit_nat_less_exp)
  finally show ?thesis by (simp add: addr_byte_def)
qed

lemma addr_bytes_determine:
  assumes "\<And>i. i < 4 \<Longrightarrow> addr_byte i a = addr_byte i b"
  shows "a = b"
proof (rule bit_word_eqI)
  fix n assume "n < LENGTH(32)"
  then have n: "n div 8 < 4" by simp
  have "take_bit 8 (drop_bit (8 * (n div 8)) a) = take_bit 8 (drop_bit (8 * (n div 8)) b)"
    using assms [OF n] unfolding addr_byte_def by (rule unsigned_word_eqI)
  then have "bit (take_bit 8 (drop_bit (8 * (n div 8)) a)) (n mod 8)
      = bit (take_bit 8 (drop_bit (8 * (n div 8)) b)) (n mod 8)" by simp
  then show "bit a n = bit b n" by (simp add: bit_take_bit_iff bit_drop_bit_eq)
qed

lemma show_nat_digits: "set (show_nat n) \<subseteq> set ''0123456789''"
proof (induction n rule: show_nat.induct)
  case (1 n)
  have "digit_char d \<in> set ''0123456789''" if "d < 10" for d
    unfolding digit_char_def using that by (intro nth_mem) simp
  then have "digit_char (n mod 10) \<in> set ''0123456789''" "n < 10 \<Longrightarrow> digit_char n \<in> set ''0123456789''"
    by simp_all
  with 1 show ?case by (cases "n < 10") (simp_all add: show_nat.simps [of n])
qed

lemma show_nat_no_separator: "CHR ''.'' \<notin> set (show_nat n)" "CHR '':'' \<notin> set (show_nat n)"
  using show_nat_digits [of n] by auto

lemma show_nat_inject: "show_nat m = show_nat n \<Longrightarrow> m = n"
  by (metis read_show_nat)

lemma split_at_first:
  "c \<notin> set xs \<Longrightarrow> c \<notin> set ys \<Longrightarrow> xs @ c # zs = ys @ c # ws \<longleftrightarrow> xs = ys \<and> zs = ws"
proof (induction xs arbitrary: ys)
  case Nil
  then show ?case by (cases ys) auto
next
  case (Cons x xs)
  then show ?case by (cases ys) auto
qed

lemma inet_ntop_inject:
  assumes "inet_ntop a = inet_ntop b"
  shows "a = b"
proof (rule addr_bytes_determine)
  have *: "addr_byte 0 a = addr_byte 0 b" "addr_byte 1 a = addr_byte 1 b"
    "addr_byte 2 a = addr_byte 2 b" "addr_byte 3 a = addr_byte 3 b"
    using assms by (auto simp: inet_ntop_def split_at_first show_nat_no_separator dest: show_nat_inject)
  fix i :: nat assume "i < 4"
  then consider "i = 0" | "i = 1" | "i = 2" | "i = 3" by linarith
  then show "addr_byte i a = addr_byte i b" using * by cases simp_all
qed

lemma length_inet_ntop: "length (inet_ntop a) \<le> 15"
proof -
  have "length (show_nat (addr_byte i a)) \<le> 3" for i
    using addr_byte_bound [of i a] by (intro length_show_nat) simp_all
  from this [of 0] this [of 1] this [of 2] this [of 3] show ?thesis by (simp add: inet_ntop_def)
qed

lemma inet_ntop_no_colon: "CHR '':'' \<notin> set (inet_ntop a)"
  by (simp add: inet_ntop_def show_nat_no_separator)

lemma toHostPort_whole:
  "InetAddress_toHostPort addr = inet_ntop (sin_addr addr) @ '':'' @ show_nat (unat (networkToHost16 (sin_port addr)))"
proof -
  have "unat (networkToHost16 (sin_port addr)) < 2 ^ 16" using unsigned_less [of "networkToHost16 (sin_port addr)", where ?'a = nat] by simp
  then have "length (show_nat (unat (networkToHost16 (sin_port addr)))) \<le> 5"
    by (intro length_show_nat) simp_all
  with length_inet_ntop [of "sin_addr addr"] show ?thesis
    by (simp add: InetAddress_toHostPort_def toHostPort_def Let_def)
qed

subsection \<open>Properties\<close>

text \<open>
  C28 (safety). The textual form of a peer's address, which the server uses as the key of
  the register table, is never cut off by its 32-byte buffer and identifies the peer: two
  addresses with the same text have the same host and the same port.
\<close>
theorem toHostPort_identifies_peer:
  "length (InetAddress_toHostPort a) \<le> 21
   \<and> (InetAddress_toHostPort a = InetAddress_toHostPort b
        \<longleftrightarrow> sin_addr a = sin_addr b \<and> sin_port a = sin_port b)"
proof
  have "unat (networkToHost16 (sin_port a)) < 2 ^ 16" using unsigned_less [of "networkToHost16 (sin_port a)", where ?'a = nat] by simp
  then have "length (show_nat (unat (networkToHost16 (sin_port a)))) \<le> 5"
    by (intro length_show_nat) simp_all
  with length_inet_ntop [of "sin_addr a"] show "length (InetAddress_toHostPort a) \<le> 21"
    by (simp add: toHostPort_whole)
  show "InetAddress_toHostPort a = InetAddress_toHostPort b
        \<longleftrightarrow> sin_addr a = sin_addr b \<and> sin_port a = sin_port b"
    by (auto simp: toHostPort_whole split_at_first inet_ntop_no_colon
        dest!: inet_ntop_inject show_nat_inject unsigned_word_eqI networkToHost16_inj)
qed

text \<open>The documented contract of \<open>Socket::accept\<close>, for every answer of the kernel.\<close>

lemma accept_contract:
  "Socket_accept answer peeraddr =
     (case answer of
        Inr (fd, peer) \<Rightarrow> (fd, if fd \<ge> 0 then peer else peeraddr, [])
      | Inl e \<Rightarrow> (- 1, peeraddr,
          if e \<in> {EAGAIN, ECONNABORTED, EINTR, EPROTO, EPERM, EMFILE} then [ERROR] else [ERROR, FATAL]))"
  by (auto simp: Socket_accept_def sockets_accept_def split: sum.splits errno.splits)

end
