(* ===== verification/Tcp_Connection.thy ===== *)
theory Tcp_Connection
  imports Event_Loop Net_Buffer Inet_Address
begin

unbundle bit_operations_syntax

section \<open>Connections\<close>

text \<open>
  Model of \<open>include/TcpConnection.h\<close> and \<open>src/TcpConnection.cpp\<close>.  The state extends the
  event loop's: connections are objects at addresses, and for every descriptor the bytes
  that \<open>write(2)\<close> accepted and whether the sending side was shut down.  The answers of
  \<open>write(2)\<close> and \<open>readv(2)\<close> come from a \<open>kernel\<close>, indexed by the number of the call.  The
  callbacks that the server installs are parameters of the handlers that call them, and
  what the loop is asked to run later is a value of the type \<open>net_functor\<close>.
\<close>

subsection \<open>State\<close>

datatype StateE = kConnecting | kConnected | kDisconnecting | kDisconnected

record TcpConnection =
  conn_loop :: nat
  conn_name :: string
  state :: StateE
  socket :: int
  channel :: nat
  localAddr :: sockaddr_in
  peerAddr :: sockaddr_in
  writeCompleteCallback :: bool  \<comment> \<open>whether the callback is set\<close>
  inputBuffer :: Buffer
  outputBuffer :: Buffer

text \<open>The callbacks bound into channels and the functors queued in the loop.\<close>

datatype net_callback = ConnRead nat | ConnWrite nat | ConnClose nat | ConnError nat
  | WakeupRead | AcceptRead | TimerRead

datatype net_functor = ConnectEstablished nat | ConnectDestroyed nat | WriteComplete nat
  | SendInLoop nat string | ShutdownInLoop nat | RemoveConnectionInLoop nat | AcceptorListen

record net_state = "(net_callback, net_functor) loop_state" +
  conns :: "nat \<rightharpoonup> TcpConnection"
  calls :: nat
  wire :: "int \<Rightarrow> string"
  shut :: "int \<Rightarrow> bool"

record kernel =
  k_write :: "nat \<Rightarrow> int \<Rightarrow> string \<Rightarrow> int"
  k_readv :: "nat \<Rightarrow> int \<Rightarrow> nat \<Rightarrow> int + string"

definition TcpConnection_new :: "nat \<Rightarrow> string \<Rightarrow> int \<Rightarrow> nat \<Rightarrow> sockaddr_in \<Rightarrow> sockaddr_in \<Rightarrow> TcpConnection" where
  "TcpConnection_new loop nameArg sockfd ch local peer =
     \<lparr>conn_loop = loop, conn_name = nameArg, state = kConnecting, socket = sockfd, channel = ch, localAddr = local,
      peerAddr = peer, writeCompleteCallback = False, inputBuffer = Buffer_new, outputBuffer = Buffer_new\<rparr>"

text \<open>The constructor: a new channel at address \<open>ch\<close>, its four callbacks, the object at \<open>a\<close>.\<close>

definition TcpConnection_ctor :: "nat \<Rightarrow> nat \<Rightarrow> nat \<Rightarrow> string \<Rightarrow> int \<Rightarrow> sockaddr_in \<Rightarrow> sockaddr_in \<Rightarrow>
    'm net_state_scheme \<Rightarrow> 'm net_state_scheme" where
  "TcpConnection_ctor a ch loop nameArg sockfd local peer s =
     s\<lparr>store := (store s)(ch \<mapsto> (Channel_new loop sockfd)\<lparr>readCallback := Some (ConnRead a),
          writeCallback := Some (ConnWrite a), closeCallback := Some (ConnClose a),
          errorCallback := Some (ConnError a)\<rparr>),
       conns := (conns s)(a \<mapsto> TcpConnection_new loop nameArg sockfd ch local peer)\<rparr>"

definition with_conn :: "nat \<Rightarrow> (TcpConnection \<Rightarrow> 'm net_state_scheme \<Rightarrow> 'r res) \<Rightarrow> 'm net_state_scheme \<Rightarrow> 'r res" where
  "with_conn a f s = (case conns s a of None \<Rightarrow> Inl Undefined | Some c \<Rightarrow> f c s)"

definition set_conn :: "nat \<Rightarrow> TcpConnection \<Rightarrow> 'm net_state_scheme \<Rightarrow> 'm net_state_scheme" where
  "set_conn a c s = s\<lparr>conns := (conns s)(a \<mapsto> c)\<rparr>"

definition sys_write :: "kernel \<Rightarrow> int \<Rightarrow> string \<Rightarrow> 'm net_state_scheme \<Rightarrow> int \<times> 'm net_state_scheme" where
  "sys_write K f d s =
     (let n = k_write K (calls s) f d
      in (n, s\<lparr>calls := calls s + 1, wire := (wire s)(f := wire s f @ take (nat n) d)\<rparr>))"

subsection \<open>Opening and closing\<close>

definition connected :: "TcpConnection \<Rightarrow> bool" where
  "connected c \<longleftrightarrow> state c = kConnected"

definition connectEstablished :: "(nat \<Rightarrow> 'm net_state_scheme \<Rightarrow> 'm net_state_scheme res) \<Rightarrow> nat \<Rightarrow>
    'm net_state_scheme \<Rightarrow> 'm net_state_scheme res" where
  "connectEstablished connectionCallback a =
     with_conn a (\<lambda>c s. assertR (state c = kConnecting)
       (res_bind (enableReading (channel c) (set_conn a (c\<lparr>state := kConnected\<rparr>) s))
         (connectionCallback a)))"

definition connectDestroyed :: "(nat \<Rightarrow> 'm net_state_scheme \<Rightarrow> 'm net_state_scheme res) \<Rightarrow> nat \<Rightarrow>
    'm net_state_scheme \<Rightarrow> 'm net_state_scheme res" where
  "connectDestroyed connectionCallback a =
     with_conn a (\<lambda>c s. assertR (state c = kConnected \<or> state c = kDisconnecting)
       (res_bind (disableAll (channel c) (set_conn a (c\<lparr>state := kDisconnected\<rparr>) s))
         (\<lambda>s1. res_bind (connectionCallback a s1) (EventLoop_removeChannel (channel c)))))"

definition handleClose :: "(nat \<Rightarrow> 'm net_state_scheme \<Rightarrow> 'm net_state_scheme res) \<Rightarrow> nat \<Rightarrow>
    'm net_state_scheme \<Rightarrow> 'm net_state_scheme res" where
  "handleClose closeCb a =
     with_conn a (\<lambda>c s. assertR (state c = kConnected \<or> state c = kDisconnecting)
       (res_bind (disableAll (channel c) s) (closeCb a)))"

text \<open>\<open>handleError\<close> asks for the pending socket error and logs it.\<close>

definition handleError :: "nat \<Rightarrow> 'm net_state_scheme \<Rightarrow> 'm net_state_scheme res" where
  "handleError a = with_conn a (\<lambda>c. with_channel (channel c) (\<lambda>ch s. Inr (s\<lparr>calls := calls s + 1\<rparr>)))"

subsection \<open>Reading\<close>

definition TcpConnection_handleRead :: "kernel \<Rightarrow>
    (nat \<Rightarrow> 'm net_state_scheme \<Rightarrow> 'm net_state_scheme res) \<Rightarrow>
    (nat \<Rightarrow> 'm net_state_scheme \<Rightarrow> 'm net_state_scheme res) \<Rightarrow> nat \<Rightarrow>
    'm net_state_scheme \<Rightarrow> 'm net_state_scheme res" where
  "TcpConnection_handleRead K messageCallback closeCb a =
     with_conn a (\<lambda>c. with_channel (channel c) (\<lambda>ch s.
       let rv = k_readv K (calls s) (fd ch) (writableBytes (inputBuffer c) + extrabuf_size) in
       res_bind (readFd rv (inputBuffer c)) (\<lambda>(n, savedErrno, b).
         let s1 = set_conn a (c\<lparr>inputBuffer := b\<rparr>) (s\<lparr>calls := calls s + 1\<rparr>) in
         if n > 0 then messageCallback a s1
         else if n = 0 then handleClose closeCb a s1
         else handleError a s1)))"

subsection \<open>Writing\<close>

definition shutdownInLoop :: "nat \<Rightarrow> 'm net_state_scheme \<Rightarrow> 'm net_state_scheme res" where
  "shutdownInLoop a =
     with_conn a (\<lambda>c. with_channel (channel c) (\<lambda>ch s.
       Inr (if \<not> isWriting ch then s\<lparr>shut := (shut s)(socket c := True)\<rparr> else s)))"

definition shutdown :: "bool \<Rightarrow> nat \<Rightarrow> 'm net_state_scheme \<Rightarrow> 'm net_state_scheme res" where
  "shutdown inLoop a =
     with_conn a (\<lambda>c s.
       if state c = kConnected then
         let s1 = set_conn a (c\<lparr>state := kDisconnecting\<rparr>) s
         in if inLoop then shutdownInLoop a s1 else Inr (queueInLoop inLoop (ShutdownInLoop a) s1)
       else Inr s)"

definition handleWrite :: "kernel \<Rightarrow> nat \<Rightarrow> 'm net_state_scheme \<Rightarrow> 'm net_state_scheme res" where
  "handleWrite K a =
     with_conn a (\<lambda>c. with_channel (channel c) (\<lambda>ch s.
       if isWriting ch then
         let (n, s1) = sys_write K (fd ch) (readable (outputBuffer c)) s in
         if n > 0 then
           res_bind (retrieve (nat n) (outputBuffer c)) (\<lambda>ob.
             let s2 = set_conn a (c\<lparr>outputBuffer := ob\<rparr>) s1 in
             if readableBytes ob = 0 then
               res_bind (disableWriting (channel c) s2) (\<lambda>s3.
                 let s4 = (if writeCompleteCallback c then queueInLoop True (WriteComplete a) s3 else s3)
                 in if state c = kDisconnecting then shutdownInLoop a s4 else Inr s4)
             else Inr s2)
         else Inr s1
       else Inr s))"

text \<open>
  The direct write passes \<open>strlen(message.data())\<close> bytes, that is, the message up to its
  first zero byte.
\<close>

definition c_strlen_prefix :: "string \<Rightarrow> string" where
  "c_strlen_prefix m = takeWhile (\<lambda>c. c \<noteq> CHR 0x00) m"

definition sendInLoop :: "kernel \<Rightarrow> string \<Rightarrow> nat \<Rightarrow> 'm net_state_scheme \<Rightarrow> 'm net_state_scheme res" where
  "sendInLoop K message a =
     with_conn a (\<lambda>c. with_channel (channel c) (\<lambda>ch s.
       let (nwrote, s1) =
         (if readableBytes (outputBuffer c) = 0 \<and> \<not> isWriting ch then
            let (n, s') = sys_write K (fd ch) (c_strlen_prefix message) s
            in (n, if n \<ge> 0 \<and> \<not> nat n < length message \<and> writeCompleteCallback c
                   then queueInLoop True (WriteComplete a) s' else s')
          else (0, s))
       in assertR (nwrote \<ge> 0)
         (if nat nwrote < length message then
            res_bind (Buffer_append (drop (nat nwrote) message) (outputBuffer c)) (\<lambda>ob.
              let s2 = set_conn a (c\<lparr>outputBuffer := ob\<rparr>) s1
              in if \<not> isWriting ch then enableWriting (channel c) s2 else Inr s2)
          else Inr s1)))"

definition send :: "kernel \<Rightarrow> bool \<Rightarrow> string \<Rightarrow> nat \<Rightarrow> 'm net_state_scheme \<Rightarrow> 'm net_state_scheme res" where
  "send K inLoop message a =
     with_conn a (\<lambda>c s.
       if state c = kConnected then
         if inLoop then sendInLoop K message a s
         else Inr (queueInLoop inLoop (SendInLoop a message) s)
       else Inr s)"

subsection \<open>The invariant of a connection\<close>

text \<open>
  \<open>conn_at s a c ch\<close>: the connection \<open>c\<close> at address \<open>a\<close> owns the watched channel \<open>ch\<close> of
  its socket, and its buffers are well formed.  \<open>flow_ok\<close>: the channel waits for writability
  exactly while output is left.  The stream of a connection is what went out followed by
  what waits in the output buffer.
\<close>

definition conn_at :: "'m net_state_scheme \<Rightarrow> nat \<Rightarrow> TcpConnection \<Rightarrow> net_callback Channel \<Rightarrow> bool" where
  "conn_at s a c ch \<longleftrightarrow> poll_wf s \<and> conns s a = Some c \<and> attached s (channel c) ch
     \<and> fd ch = socket c \<and> loopOf ch = loopId s \<and> conn_loop c = loopId s \<and> buf_wf (inputBuffer c) \<and> buf_wf (outputBuffer c)"

definition flow_ok :: "TcpConnection \<Rightarrow> net_callback Channel \<Rightarrow> bool" where
  "flow_ok c ch \<longleftrightarrow> (isWriting ch \<longleftrightarrow> readable (outputBuffer c) \<noteq> [])"

definition stream :: "'m net_state_scheme \<Rightarrow> TcpConnection \<Rightarrow> string" where
  "stream s c = wire s (socket c) @ readable (outputBuffer c)"

text \<open>\<open>write(2)\<close> returns -1 or a number of bytes that is at most what it was given.\<close>

definition kernel_ok :: "kernel \<Rightarrow> bool" where
  "kernel_ok K \<longleftrightarrow> (\<forall>t f d. - 1 \<le> k_write K t f d \<and> k_write K t f d \<le> int (length d))"

text \<open>What an operation on one connection leaves alone.\<close>

definition frame :: "nat \<Rightarrow> TcpConnection \<Rightarrow> TcpConnection \<Rightarrow> 'm net_state_scheme \<Rightarrow> 'm net_state_scheme \<Rightarrow> bool" where
  "frame a c c' s s' \<longleftrightarrow> socket c' = socket c \<and> channel c' = channel c \<and> conn_name c' = conn_name c
     \<and> peerAddr c' = peerAddr c \<and> conns s' = (conns s)(a \<mapsto> c') \<and> loopId s' = loopId s
     \<and> channels s' = channels s \<and> dom (store s') = dom (store s) \<and> net_state.more s' = net_state.more s
     \<and> (\<exists>fs. pendingFunctors s' = pendingFunctors s @ fs \<and> (\<forall>f \<in> set fs. f = WriteComplete a))
     \<and> (\<forall>f. f \<noteq> socket c \<longrightarrow> wire s' f = wire s f)
     \<and> (\<forall>b c2 ch2. b \<noteq> a \<longrightarrow> channel c2 \<noteq> channel c \<longrightarrow> conn_at s b c2 ch2 \<longrightarrow> conn_at s' b c2 ch2)"

lemma poll_cong:
  assumes "store s' = store s" "pollfds s' = pollfds s" "channels s' = channels s"
  shows "poll_wf s' = poll_wf s" "attached s' = attached s" "entry s' = entry s"
  using assms by (simp_all add: poll_wf_def attached_def entry_def fun_eq_iff)

lemma conn_at_cong:
  assumes "store s' = store s" "pollfds s' = pollfds s" "channels s' = channels s"
    "loopId s' = loopId s" "conns s' b = conns s b"
  shows "conn_at s' b c ch = conn_at s b c ch"
  using assms poll_cong [OF assms(1-3)] by (simp add: conn_at_def)

lemma frame_trans:
  assumes "frame a c c1 s s1" and "frame a c1 c2 s1 s2"
  shows "frame a c c2 s s2"
  using assms unfolding frame_def by auto

lemma frame_local:
  assumes "store s' = store s" "pollfds s' = pollfds s" "channels s' = channels s" "loopId s' = loopId s"
    "conns s' = (conns s)(a \<mapsto> c')" "net_state.more s' = net_state.more s"
    "\<forall>f. f \<noteq> socket c \<longrightarrow> wire s' f = wire s f"
    "\<exists>fs. pendingFunctors s' = pendingFunctors s @ fs \<and> (\<forall>f \<in> set fs. f = WriteComplete a)"
    "socket c' = socket c" "channel c' = channel c" "conn_name c' = conn_name c" "peerAddr c' = peerAddr c"
  shows "frame a c c' s s'"
  using assms conn_at_cong [OF assms(1-4)] by (auto simp: frame_def)

text \<open>Changing the interest of the connection's channel.\<close>

lemma conn_setEvents:
  assumes "conn_at s a c ch"
  shows "\<exists>s' p. Channel_setEvents f (channel c) s = Inr s' \<and> conn_at s' a c (ch\<lparr>events := f ch\<rparr>)
    \<and> frame a c c s s'
    \<and> s' = s\<lparr>store := (store s)(channel c \<mapsto> ch\<lparr>events := f ch\<rparr>), pollfds := (pollfds s)[nat (index ch) := p]\<rparr>"
proof -
  from assms have wf: "poll_wf s" and at: "attached s (channel c) ch" and own: "loopOf ch = loopId s"
    and c: "conns s a = Some c" by (simp_all add: conn_at_def)
  obtain s' p where s': "Channel_setEvents f (channel c) s = Inr s'"
      "s' = s\<lparr>store := (store s)(channel c \<mapsto> ch\<lparr>events := f ch\<rparr>), pollfds := (pollfds s)[nat (index ch) := p]\<rparr>"
      "poll_wf s'" "attached s' (channel c) (ch\<lparr>events := f ch\<rparr>)"
    using setEvents_attached [OF wf at own, of f] by blast
  have others: "attached s' k ck" if "k \<noteq> channel c" "attached s k ck" for k ck
    using pw.set_ok [OF wf at own, of f] s'(1) that by auto
  have "conn_at s' a c (ch\<lparr>events := f ch\<rparr>)" using assms s'(2-4) by (simp add: conn_at_def)
  moreover have "conn_at s' b c2 ch2" if "channel c2 \<noteq> channel c" "conn_at s b c2 ch2" for b c2 ch2
    using others [of "channel c2" ch2] that s'(2,3) by (simp add: conn_at_def)
  then have "frame a c c s s'" using s'(2) c at by (auto simp: frame_def attached_def)
  ultimately show ?thesis using s'(1,2) by blast
qed

lemma write_bit_off: "(e AND NOT kWriteEvent) AND kWriteEvent = 0"
  by (simp add: event_consts and.assoc)

subsection \<open>Sending and flushing keep the stream\<close>

lemma conn_at_run:
  assumes "conn_at s a c ch"
  shows "with_conn a f s = f c s" and "with_channel (channel c) g s = g ch s"
  using assms by (simp_all add: conn_at_def attached_def with_conn_def with_channel_def)

lemma conn_at_local:
  assumes "conn_at s a c ch" "store s' = store s" "pollfds s' = pollfds s" "channels s' = channels s"
    "loopId s' = loopId s" "conns s' a = Some c'" "channel c' = channel c" "socket c' = socket c"
    "conn_loop c' = conn_loop c" "buf_wf (inputBuffer c')" "buf_wf (outputBuffer c')"
  shows "conn_at s' a c' ch"
  using assms poll_cong [OF assms(2-4)] by (simp add: conn_at_def)

lemma readableBytes_empty: "buf_wf b \<Longrightarrow> readableBytes b = 0 \<longleftrightarrow> readable b = []"
  by (metis buf_wf_bounds(4) length_0_conv)

lemma queueInLoop_more [simp]:
  "conns (queueInLoop i f s) = conns s" "wire (queueInLoop i f s) = wire s" "shut (queueInLoop i f s) = shut s"
  "calls (queueInLoop i f s) = calls s" "net_state.more (queueInLoop i f s) = net_state.more s"
  by (simp_all add: queueInLoop_def push_functor_def wakeup_def Let_def)

lemma c_strlen_prefix_take: "n \<le> length (c_strlen_prefix m) \<Longrightarrow> take n (c_strlen_prefix m) = take n m"
  unfolding c_strlen_prefix_def by (metis takeWhile_eq_take
      take_take min_def)

text \<open>The branch of \<open>sendInLoop\<close> that queues the rest of a message, from either entry.\<close>

lemma queue_rest:
  assumes c: "conn_at s a c ch" and room: "buf_room (length rest) (outputBuffer c)" and "rest \<noteq> []"
  shows "\<exists>s' c' ch'. res_bind (Buffer_append rest (outputBuffer c)) (\<lambda>ob.
        let s2 = set_conn a (c\<lparr>outputBuffer := ob\<rparr>) s
        in if \<not> isWriting ch then enableWriting (channel c) s2 else Inr s2) = Inr s'
      \<and> conn_at s' a c' ch' \<and> isWriting ch' \<and> frame a c c' s s' \<and> state c' = state c
      \<and> readable (outputBuffer c') = readable (outputBuffer c) @ rest \<and> wire s' = wire s \<and> shut s' = shut s
      \<and> writerIndex (outputBuffer c') \<le> writerIndex (outputBuffer c) + length rest"
proof -
  have wf: "buf_wf (outputBuffer c)" using c by (simp add: conn_at_def)
  obtain ob where ob: "Buffer_append rest (outputBuffer c) = Inr ob" "buf_wf ob"
      "readable ob = readable (outputBuffer c) @ rest" "writerIndex ob \<le> writerIndex (outputBuffer c) + length rest"
    using bq.put_ok [OF wf room] Buffer_append_writer wf room unfolding buf_room_def by blast
  let ?c = "c\<lparr>outputBuffer := ob\<rparr>" and ?s = "set_conn a (c\<lparr>outputBuffer := ob\<rparr>) s"
  have cs: "conns s a = Some c" "buf_wf (inputBuffer c)" using c by (simp_all add: conn_at_def)
  have c2: "conn_at ?s a ?c ch"
    by (rule conn_at_local [OF c]) (use ob cs in \<open>simp_all add: set_conn_def\<close>)
  have f2: "frame a c ?c s ?s" by (rule frame_local) (simp_all add: set_conn_def)
  show ?thesis
  proof (cases "isWriting ch")
    case True
    with c2 f2 ob show ?thesis
      by (intro exI [of _ ?s] exI [of _ ?c] exI [of _ ch]) (simp add: Let_def set_conn_def)
  next
    case False
    obtain s' p where s': "enableWriting (channel c) ?s = Inr s'"
        "conn_at s' a ?c (ch\<lparr>events := events ch OR kWriteEvent\<rparr>)" "frame a ?c ?c ?s s'"
        "s' = ?s\<lparr>store := (store ?s)(channel ?c \<mapsto> ch\<lparr>events := events ch OR kWriteEvent\<rparr>),
           pollfds := (pollfds ?s)[nat (index ch) := p]\<rparr>"
      using conn_setEvents [OF c2, of "\<lambda>c. events c OR kWriteEvent"] by (auto simp: enableWriting_def)
    have fr: "frame a c ?c s s'" using f2 s'(3) by (rule frame_trans)
    have st: "wire s' = wire s" "shut s' = shut s" using s'(4) by (simp_all add: set_conn_def)
    have "isWriting (ch\<lparr>events := events ch OR kWriteEvent\<rparr>)" by (simp add: isWriting_def event_consts)
    moreover have "res_bind (Buffer_append rest (outputBuffer c)) (\<lambda>ob.
        let s2 = set_conn a (c\<lparr>outputBuffer := ob\<rparr>) s
        in if \<not> isWriting ch then enableWriting (channel c) s2 else Inr s2) = Inr s'"
      using ob(1) s'(1) False by (simp add: Let_def)
    ultimately show ?thesis using s'(2) fr st ob
      by (intro exI [of _ s'] exI [of _ ?c] exI [of _ "ch\<lparr>events := events ch OR kWriteEvent\<rparr>"]) simp
  qed
qed

text \<open>
  Sending: with output waiting the message is queued behind it; otherwise it is written
  directly and the rest queued.  Only a failing direct write makes it fault.
\<close>

definition direct_write :: "TcpConnection \<Rightarrow> net_callback Channel \<Rightarrow> bool" where
  "direct_write c ch \<longleftrightarrow> readableBytes (outputBuffer c) = 0 \<and> \<not> isWriting ch"

lemma sendInLoop_queued:
  assumes c: "conn_at s a c ch" and fl: "flow_ok c ch" and nd: "\<not> direct_write c ch"
    and room: "buf_room (length m) (outputBuffer c)"
  shows "\<exists>s' c' ch'. sendInLoop K m a s = Inr s' \<and> conn_at s' a c' ch' \<and> flow_ok c' ch' \<and> frame a c c' s s'
    \<and> state c' = state c \<and> stream s' c' = stream s c @ m \<and> shut s' = shut s
    \<and> writerIndex (outputBuffer c') \<le> writerIndex (outputBuffer c) + length m"
proof (cases "m = []")
  case True
  have "frame a c c s s" using c by (auto simp: frame_def conn_at_def)
  with True c fl nd show ?thesis
    by (intro exI [of _ s] exI [of _ c] exI [of _ ch])
      (auto simp: sendInLoop_def conn_at_run [OF c] direct_write_def)
next
  case False
  obtain s' c' ch' where r: "res_bind (Buffer_append m (outputBuffer c)) (\<lambda>ob.
        let s2 = set_conn a (c\<lparr>outputBuffer := ob\<rparr>) s
        in if \<not> isWriting ch then enableWriting (channel c) s2 else Inr s2) = Inr s'"
      "conn_at s' a c' ch'" "isWriting ch'" "frame a c c' s s'" "state c' = state c"
      "readable (outputBuffer c') = readable (outputBuffer c) @ m" "wire s' = wire s" "shut s' = shut s"
      "writerIndex (outputBuffer c') \<le> writerIndex (outputBuffer c) + length m"
    using queue_rest [OF c room False] by blast
  have "sendInLoop K m a s = Inr s'"
    using r(1) nd False by (auto simp: sendInLoop_def conn_at_run [OF c] direct_write_def)
  moreover have "flow_ok c' ch'" using r(3,6) False by (simp add: flow_ok_def)
  moreover have "stream s' c' = stream s c @ m"
    using r(4,6,7) by (simp add: stream_def frame_def)
  ultimately show ?thesis using r by blast
qed

lemma sendInLoop_fails:
  assumes c: "conn_at s a c ch" and d: "direct_write c ch"
    and "k_write K (calls s) (socket c) (c_strlen_prefix m) < 0"
  shows "sendInLoop K m a s = Inl Assert_failed"
  using assms by (simp add: sendInLoop_def conn_at_run [OF c] direct_write_def sys_write_def Let_def conn_at_def)

lemma sendInLoop_direct:
  assumes c: "conn_at s a c ch" and fl: "flow_ok c ch" and d: "direct_write c ch"
    and K: "kernel_ok K" and w: "0 \<le> k_write K (calls s) (socket c) (c_strlen_prefix m)"
    and room: "buf_room (length m) (outputBuffer c)"
  shows "\<exists>s' c' ch'. sendInLoop K m a s = Inr s' \<and> conn_at s' a c' ch' \<and> flow_ok c' ch' \<and> frame a c c' s s'
    \<and> state c' = state c \<and> stream s' c' = stream s c @ m \<and> shut s' = shut s
    \<and> writerIndex (outputBuffer c') \<le> writerIndex (outputBuffer c) + length m"
proof -
  let ?n = "k_write K (calls s) (socket c) (c_strlen_prefix m)"
  define k where "k = nat ?n"
  have fdc: "fd ch = socket c" and wfb: "buf_wf (inputBuffer c)" "buf_wf (outputBuffer c)"
    and cs: "conns s a = Some c" using c by (simp_all add: conn_at_def)
  have k: "k \<le> length (c_strlen_prefix m)" using K w by (simp add: kernel_ok_def k_def nat_le_iff)
  have empty: "readable (outputBuffer c) = []" using d readableBytes_empty wfb(2) by (simp add: direct_write_def)
  have nw: "\<not> isWriting ch" using d by (simp add: direct_write_def)
  define s0 where "s0 = s\<lparr>calls := calls s + 1, wire := (wire s)(socket c := wire s (socket c) @ take k m)\<rparr>"
  define s1 where "s1 = (if \<not> k < length m \<and> writeCompleteCallback c then queueInLoop True (WriteComplete a) s0 else s0)"
  have s1f: "store s1 = store s" "pollfds s1 = pollfds s" "channels s1 = channels s" "loopId s1 = loopId s"
    "conns s1 = (conns s)(a \<mapsto> c)" "net_state.more s1 = net_state.more s" "shut s1 = shut s"
    "wire s1 = (wire s)(socket c := wire s (socket c) @ take k m)"
    using cs by (auto simp: s1_def s0_def)
  have p1: "\<exists>fs. pendingFunctors s1 = pendingFunctors s @ fs \<and> (\<forall>f \<in> set fs. f = WriteComplete a)" by (simp add: s1_def s0_def)
  have c1: "conn_at s1 a c ch" by (rule conn_at_local [OF c]) (use s1f wfb in simp_all)
  have f1: "frame a c c s s1" by (rule frame_local) (use s1f p1 in simp_all)
  have run: "sendInLoop K m a s = (if k < length m then res_bind (Buffer_append (drop k m) (outputBuffer c)) (\<lambda>ob.
        let s2 = set_conn a (c\<lparr>outputBuffer := ob\<rparr>) s1
        in if \<not> isWriting ch then enableWriting (channel c) s2 else Inr s2) else Inr s1)"
    using d w c_strlen_prefix_take [OF k]
    by (simp add: sendInLoop_def conn_at_run [OF c] direct_write_def sys_write_def Let_def fdc
        s1_def s0_def k_def)
  show ?thesis
  proof (cases "k < length m")
    case True
    then have room': "buf_room (length (drop k m)) (outputBuffer c)" "drop k m \<noteq> []"
      using room by (simp_all add: buf_room_def)
    obtain s' c' ch' where r: "res_bind (Buffer_append (drop k m) (outputBuffer c)) (\<lambda>ob.
          let s2 = set_conn a (c\<lparr>outputBuffer := ob\<rparr>) s1
          in if \<not> isWriting ch then enableWriting (channel c) s2 else Inr s2) = Inr s'"
        "conn_at s' a c' ch'" "isWriting ch'" "frame a c c' s1 s'" "state c' = state c"
        "readable (outputBuffer c') = readable (outputBuffer c) @ drop k m" "wire s' = wire s1" "shut s' = shut s1"
        "writerIndex (outputBuffer c') \<le> writerIndex (outputBuffer c) + length (drop k m)"
      using queue_rest [OF c1 room'] by blast
    have "frame a c c' s s'" using f1 r(4) by (rule frame_trans)
    moreover have "stream s' c' = stream s c @ m"
      using r(4,6,7) s1f(8) empty by (simp add: stream_def frame_def)
    moreover have "flow_ok c' ch'" using r(3,6) True by (simp add: flow_ok_def)
    ultimately show ?thesis using r run True s1f(7) by (intro exI [of _ s'] exI [of _ c'] exI [of _ ch']) simp
  next
    case False
    then have "stream s1 c = stream s c @ m" using s1f(8) empty by (simp add: stream_def)
    with False run c1 f1 fl s1f(7) show ?thesis by (intro exI [of _ s1] exI [of _ c] exI [of _ ch]) simp
  qed
qed

text \<open>
  Flushing: the kernel takes a prefix of the output; when nothing is left the channel
  stops waiting for writability and a connection that was shut down is half-closed.
\<close>

lemma handleWrite_idle:
  assumes c: "conn_at s a c ch" and "\<not> isWriting ch"
  shows "handleWrite K a s = Inr s"
  using assms by (simp add: handleWrite_def conn_at_run [OF c])

lemma handleWrite_none:
  assumes c: "conn_at s a c ch" and "isWriting ch"
    and "k_write K (calls s) (socket c) (readable (outputBuffer c)) \<le> 0"
  shows "handleWrite K a s = Inr (s\<lparr>calls := calls s + 1\<rparr>)"
proof -
  have "fd ch = socket c" using c by (simp add: conn_at_def)
  with assms(2,3) show ?thesis
    by (simp add: handleWrite_def conn_at_run [OF c] sys_write_def Let_def)
qed

text \<open>When the output buffer has become empty: no more writing, the notice, the half-close.\<close>

lemma finish_output:
  assumes c: "conn_at s a c ch"
  shows "\<exists>s' ch'. res_bind (disableWriting (channel c) s) (\<lambda>s3.
        let s4 = (if notify then queueInLoop True (WriteComplete a) s3 else s3)
        in if state c = kDisconnecting then shutdownInLoop a s4 else Inr s4) = Inr s'
    \<and> conn_at s' a c ch' \<and> \<not> isWriting ch' \<and> frame a c c s s' \<and> wire s' = wire s
    \<and> shut s' = (if state c = kDisconnecting then (shut s)(socket c := True) else shut s)"
proof -
  let ?ch = "ch\<lparr>events := events ch AND NOT kWriteEvent\<rparr>"
  obtain s3 p where s3: "disableWriting (channel c) s = Inr s3" "conn_at s3 a c ?ch" "frame a c c s s3"
      "s3 = s\<lparr>store := (store s)(channel c \<mapsto> ?ch), pollfds := (pollfds s)[nat (index ch) := p]\<rparr>"
    using conn_setEvents [OF c, of "\<lambda>c. events c AND NOT kWriteEvent"] by (auto simp: disableWriting_def)
  have idle: "\<not> isWriting ?ch" by (simp add: isWriting_def write_bit_off)
  define s4 where "s4 = (if notify then queueInLoop True (WriteComplete a) s3 else s3)"
  define s5 where "s5 = (if state c = kDisconnecting then s4\<lparr>shut := (shut s4)(socket c := True)\<rparr> else s4)"
  have s5f: "store s5 = store s3" "pollfds s5 = pollfds s3" "channels s5 = channels s3" "loopId s5 = loopId s3"
    "conns s5 = conns s3" "net_state.more s5 = net_state.more s3" "wire s5 = wire s3"
    "shut s5 = (if state c = kDisconnecting then (shut s)(socket c := True) else shut s)"
    using s3(4) by (simp_all add: s5_def s4_def)
  have c4: "conn_at s4 a c ?ch"
    by (rule conn_at_local [OF s3(2)]) (use s3(2) in \<open>simp_all add: s4_def conn_at_def\<close>)
  have "conn_at s5 a c ?ch"
    by (rule conn_at_local [OF s3(2)]) (use s5f s3(2) in \<open>simp_all add: conn_at_def\<close>)
  moreover have "conns s3 = (conns s3)(a \<mapsto> c)" using s3(2) by (auto simp: conn_at_def)
  then have "frame a c c s3 s5" by (intro frame_local) (use s5f in \<open>simp_all add: s5_def s4_def\<close>)
  then have "frame a c c s s5" using s3(3) frame_trans by blast
  moreover have "shutdownInLoop a s4 = Inr (s4\<lparr>shut := (shut s4)(socket c := True)\<rparr>)"
    unfolding shutdownInLoop_def conn_at_run [OF c4] using idle by simp
  then have "(if state c = kDisconnecting then shutdownInLoop a s4 else Inr s4) = Inr s5" by (simp add: s5_def)
  then have "res_bind (disableWriting (channel c) s) (\<lambda>s3.
        let s4 = (if notify then queueInLoop True (WriteComplete a) s3 else s3)
        in if state c = kDisconnecting then shutdownInLoop a s4 else Inr s4) = Inr s5"
    unfolding s3(1) res_bind_simps Let_def s4_def [symmetric] .
  moreover have "wire s5 = wire s" using s5f(7) s3(4) by simp
  ultimately show ?thesis using idle s5f(8) by blast
qed

lemma handleWrite_taken:
  assumes c: "conn_at s a c ch" and wr: "isWriting ch" and K: "kernel_ok K"
    and w: "0 < k_write K (calls s) (socket c) (readable (outputBuffer c))"
  defines "k \<equiv> nat (k_write K (calls s) (socket c) (readable (outputBuffer c)))"
  obtains s2 c' where "channel c' = channel c" and "state c' = state c" and "socket c' = socket c"
    and "handleWrite K a s = (if readable (outputBuffer c') = [] then
      res_bind (disableWriting (channel c') s2) (\<lambda>s3.
        let s4 = (if writeCompleteCallback c then queueInLoop True (WriteComplete a) s3 else s3)
        in if state c' = kDisconnecting then shutdownInLoop a s4 else Inr s4) else Inr s2)"
    and "conn_at s2 a c' ch" and "frame a c c' s s2" and "stream s2 c' = stream s c" and "shut s2 = shut s"
    and "readable (outputBuffer c') = drop k (readable (outputBuffer c))"
    and "writerIndex (outputBuffer c') = writerIndex (outputBuffer c)"
proof -
  let ?out = "readable (outputBuffer c)"
  have fdc: "fd ch = socket c" and wfb: "buf_wf (inputBuffer c)" "buf_wf (outputBuffer c)"
    and cs: "conns s a = Some c" using c by (simp_all add: conn_at_def)
  have k: "k \<le> length ?out" using K w by (simp add: kernel_ok_def k_def nat_le_iff)
  obtain ob where ob: "retrieve k (outputBuffer c) = Inr ob" "buf_wf ob" "readable ob = drop k ?out"
      "writerIndex ob = writerIndex (outputBuffer c)"
    using bq.get_ok [OF wfb(2) k] retrieve_writer by blast
  define c' where "c' = c\<lparr>outputBuffer := ob\<rparr>"
  define s2 where "s2 = set_conn a c' (s\<lparr>calls := calls s + 1, wire := (wire s)(socket c := wire s (socket c) @ take k ?out)\<rparr>)"
  have s2f: "store s2 = store s" "pollfds s2 = pollfds s" "channels s2 = channels s" "loopId s2 = loopId s"
    "conns s2 = (conns s)(a \<mapsto> c')" "net_state.more s2 = net_state.more s" "shut s2 = shut s"
    "wire s2 = (wire s)(socket c := wire s (socket c) @ take k ?out)"
    by (simp_all add: s2_def set_conn_def)
  have c'f: "channel c' = channel c" "socket c' = socket c" "state c' = state c" "outputBuffer c' = ob"
    "conn_name c' = conn_name c" "peerAddr c' = peerAddr c" "buf_wf (inputBuffer c')" "conn_loop c' = conn_loop c"
    using wfb by (simp_all add: c'_def)
  show thesis
  proof (rule that [of c' s2])
    show "conn_at s2 a c' ch" by (rule conn_at_local [OF c]) (use s2f c'f ob in simp_all)
    show "frame a c c' s s2" by (rule frame_local) (use s2f c'f in \<open>simp_all add: s2_def set_conn_def\<close>)
    show "stream s2 c' = stream s c" using s2f(8) c'f ob(3) by (simp add: stream_def)
    show "handleWrite K a s = (if readable (outputBuffer c') = [] then
      res_bind (disableWriting (channel c') s2) (\<lambda>s3.
        let s4 = (if writeCompleteCallback c then queueInLoop True (WriteComplete a) s3 else s3)
        in if state c' = kDisconnecting then shutdownInLoop a s4 else Inr s4) else Inr s2)"
      using wr w ob readableBytes_empty [of ob]
      by (simp add: handleWrite_def conn_at_run [OF c] sys_write_def Let_def fdc k_def s2_def c'_def)
  qed (use c'f s2f ob in simp_all)
qed

lemma handleWrite_some:
  assumes c: "conn_at s a c ch" and fl: "flow_ok c ch" and wr: "isWriting ch" and K: "kernel_ok K"
    and w: "0 < k_write K (calls s) (socket c) (readable (outputBuffer c))"
  defines "k \<equiv> nat (k_write K (calls s) (socket c) (readable (outputBuffer c)))"
  shows "\<exists>s' c' ch'. handleWrite K a s = Inr s' \<and> conn_at s' a c' ch' \<and> flow_ok c' ch' \<and> frame a c c' s s'
    \<and> state c' = state c \<and> stream s' c' = stream s c
    \<and> readable (outputBuffer c') = drop k (readable (outputBuffer c))
    \<and> shut s' = (if readable (outputBuffer c') = [] \<and> state c = kDisconnecting
                  then (shut s)(socket c := True) else shut s)
    \<and> writerIndex (outputBuffer c') \<le> writerIndex (outputBuffer c)"
proof (rule handleWrite_taken [OF c wr K w, folded k_def])
  fix s2 c'
  assume c'f: "channel c' = channel c" "state c' = state c" "socket c' = socket c"
    and run: "handleWrite K a s = (if readable (outputBuffer c') = [] then
      res_bind (disableWriting (channel c') s2) (\<lambda>s3.
        let s4 = (if writeCompleteCallback c then queueInLoop True (WriteComplete a) s3 else s3)
        in if state c' = kDisconnecting then shutdownInLoop a s4 else Inr s4) else Inr s2)"
    and c2: "conn_at s2 a c' ch" and f2: "frame a c c' s s2" and st2: "stream s2 c' = stream s c" and sh: "shut s2 = shut s"
    and out: "readable (outputBuffer c') = drop k (readable (outputBuffer c))"
      "writerIndex (outputBuffer c') = writerIndex (outputBuffer c)"
  show ?thesis
  proof (cases "readable (outputBuffer c') = []")
    case False
    then have "handleWrite K a s = Inr s2" using run by simp
    moreover have "flow_ok c' ch" using False wr by (simp add: flow_ok_def)
    ultimately show ?thesis using c2 f2 st2 c'f out False sh
      by (intro exI [of _ s2] exI [of _ c'] exI [of _ ch]) simp
  next
    case True
    obtain s5 ch' where s5: "handleWrite K a s = Inr s5"
      "conn_at s5 a c' ch'" "\<not> isWriting ch'" "frame a c' c' s2 s5" "wire s5 = wire s2"
      "shut s5 = (if state c' = kDisconnecting then (shut s2)(socket c' := True) else shut s2)"
      using finish_output [OF c2, of "writeCompleteCallback c"] run True by auto
    have "frame a c c' s s5" using f2 s5(4) by (rule frame_trans)
    moreover have "flow_ok c' ch'" using s5(3) True by (simp add: flow_ok_def)
    moreover have "stream s5 c' = stream s c" using st2 s5(5) by (simp add: stream_def)
    ultimately show ?thesis using s5(1,2,6) sh c'f out True
      by (intro exI [of _ s5] exI [of _ c'] exI [of _ ch']) simp
  qed
qed

subsection \<open>The interface: a byte stream that can be closed\<close>

text \<open>
  What the application relies on when it uses a connection: the abstract state is the
  sequence of bytes accepted for the peer and whether the sending side is being closed.
\<close>

datatype out_event = EvSend string | EvWritable | EvShutdown

fun spec_step :: "out_event \<Rightarrow> string \<times> bool \<Rightarrow> string \<times> bool" where
  "spec_step (EvSend m) (acc, cl) = (if cl then acc else acc @ m, cl)"
| "spec_step EvWritable (acc, cl) = (acc, cl)"
| "spec_step EvShutdown (acc, cl) = (acc, True)"

fun event_bytes :: "out_event \<Rightarrow> nat" where
  "event_bytes (EvSend m) = length m"
| "event_bytes _ = 0"

fun conn_event :: "kernel \<Rightarrow> nat \<Rightarrow> out_event \<Rightarrow> 'm net_state_scheme \<Rightarrow> 'm net_state_scheme res" where
  "conn_event K a (EvSend m) s = send K True m a s"
| "conn_event K a EvWritable s = handleWrite K a s"
| "conn_event K a EvShutdown s = shutdown True a s"

locale closable_stream =
  fixes ok :: "'s \<Rightarrow> bool" and view :: "'s \<Rightarrow> string \<times> bool" and room :: "nat \<Rightarrow> 's \<Rightarrow> bool"
    and step :: "out_event \<Rightarrow> 's \<Rightarrow> 's res" and refused :: bool
  assumes step_ok: "ok s \<Longrightarrow> room (event_bytes e + n) s \<Longrightarrow> step e s = Inr s' \<Longrightarrow>
      ok s' \<and> room n s' \<and> view s' = spec_step e (view s)"
    and step_fault: "ok s \<Longrightarrow> room (event_bytes e) s \<Longrightarrow> step e s = Inl x \<Longrightarrow> x = Assert_failed \<and> refused"
    and room_less: "room n s \<Longrightarrow> k \<le> n \<Longrightarrow> room k s"
begin

lemma run_ok:
  assumes "ok s" and "room (sum_list (map event_bytes es)) s"
  shows "case foldR step es s of
      Inr s' \<Rightarrow> ok s' \<and> view s' = fold spec_step es (view s)
    | Inl x \<Rightarrow> x = Assert_failed \<and> refused"
  using assms
proof (induction es arbitrary: s)
  case Nil
  then show ?case by simp
next
  case (Cons e es)
  show ?case
  proof (cases "step e s")
    case (Inl x)
    moreover have "room (event_bytes e) s" using Cons.prems(2) by (rule room_less) simp
    ultimately show ?thesis using step_fault [OF Cons.prems(1)] by simp
  next
    case (Inr s1)
    have "room (event_bytes e + sum_list (map event_bytes es)) s" using Cons.prems(2) by simp
    from step_ok [OF Cons.prems(1) this Inr]
    have "ok s1" "room (sum_list (map event_bytes es)) s1" "view s1 = spec_step e (view s)" by simp_all
    then show ?thesis using Cons.IH [of s1] Inr by (simp split: sum.splits)
  qed
qed

end

text \<open>
  A live connection: connected or closing, with the sending side shut down exactly when
  it is closing and nothing waits in the output buffer.
\<close>

definition conn_live :: "kernel \<Rightarrow> nat \<Rightarrow> int \<Rightarrow> 'm net_state_scheme \<Rightarrow> bool" where
  "conn_live K a f s \<longleftrightarrow> kernel_ok K \<and> (\<exists>c ch. conn_at s a c ch \<and> flow_ok c ch \<and> socket c = f
     \<and> (state c = kConnected \<or> state c = kDisconnecting)
     \<and> shut s f = (state c = kDisconnecting \<and> readable (outputBuffer c) = []))"

definition conn_view :: "nat \<Rightarrow> 'm net_state_scheme \<Rightarrow> string \<times> bool" where
  "conn_view a s = (case conns s a of None \<Rightarrow> ([], True)
     | Some c \<Rightarrow> (wire s (socket c) @ readable (outputBuffer c), state c = kDisconnecting))"

definition conn_room :: "nat \<Rightarrow> nat \<Rightarrow> 'm net_state_scheme \<Rightarrow> bool" where
  "conn_room a n s = (case conns s a of None \<Rightarrow> False | Some c \<Rightarrow> buf_room n (outputBuffer c))"

definition write_refused :: "kernel \<Rightarrow> int \<Rightarrow> bool" where
  "write_refused K f \<longleftrightarrow> (\<exists>t d. k_write K t f d < 0)"

lemma sendInLoop_cases:
  assumes "conn_at s a c ch" "flow_ok c ch" "kernel_ok K" "buf_room (length m) (outputBuffer c)"
  obtains "sendInLoop K m a s = Inl Assert_failed" "write_refused K (socket c)"
  | s' c' ch' where "sendInLoop K m a s = Inr s'" "conn_at s' a c' ch'" "flow_ok c' ch'" "frame a c c' s s'"
      "state c' = state c" "stream s' c' = stream s c @ m" "shut s' = shut s"
      "writerIndex (outputBuffer c') \<le> writerIndex (outputBuffer c) + length m"
proof (cases "direct_write c ch")
  case False
  then show thesis using sendInLoop_queued [OF assms(1,2) _ assms(4)] that(2) by metis
next
  case d: True
  show thesis
  proof (cases "k_write K (calls s) (socket c) (c_strlen_prefix m) < 0")
    case True
    with sendInLoop_fails [OF assms(1) d] that(1) show thesis by (auto simp: write_refused_def)
  next
    case False
    then have "0 \<le> k_write K (calls s) (socket c) (c_strlen_prefix m)" by simp
    from sendInLoop_direct [OF assms(1,2) d assms(3) this assms(4)] that(2) show thesis by metis
  qed
qed

lemma conn_liveE:
  assumes "conn_live K a f s"
  obtains c ch where "kernel_ok K" "conn_at s a c ch" "flow_ok c ch" "socket c = f" "conns s a = Some c"
    "state c = kConnected \<or> state c = kDisconnecting"
    "shut s f = (state c = kDisconnecting \<and> readable (outputBuffer c) = [])"
  using assms by (auto simp: conn_live_def conn_at_def)

lemma handleWrite_cases:
  assumes "conn_at s a c ch" "flow_ok c ch" "kernel_ok K"
  obtains s' c' ch' where "handleWrite K a s = Inr s'" "conn_at s' a c' ch'" "flow_ok c' ch'" "frame a c c' s s'"
      "state c' = state c" "stream s' c' = stream s c"
      "shut s' = (if isWriting ch \<and> readable (outputBuffer c') = [] \<and> state c = kDisconnecting
                  then (shut s)(socket c := True) else shut s)"
      "writerIndex (outputBuffer c') \<le> writerIndex (outputBuffer c)"
proof (cases "isWriting ch")
  case False
  have "frame a c c s s" using assms(1) by (auto simp: frame_def conn_at_def)
  with False assms that [of s c ch] handleWrite_idle [OF assms(1)] show thesis by simp
next
  case w: True
  show thesis
  proof (cases "0 < k_write K (calls s) (socket c) (readable (outputBuffer c))")
    case True
    from handleWrite_some [OF assms(1,2) w assms(3) True] w that show thesis by metis
  next
    case False
    let ?s = "s\<lparr>calls := calls s + 1\<rparr>"
    have ne: "readable (outputBuffer c) \<noteq> []" using assms(2) w by (simp add: flow_ok_def)
    have fr: "frame a c c s ?s"
      by (rule frame_local) (use assms(1) in \<open>auto simp: conn_at_def\<close>)
    have "conn_at ?s a c ch"
      by (rule conn_at_local [OF assms(1)]) (use assms(1) in \<open>auto simp: conn_at_def\<close>)
    moreover have "handleWrite K a s = Inr ?s" using handleWrite_none [OF assms(1) w] False by simp
    ultimately show thesis using that [of ?s c ch] fr assms(2) ne by (simp add: stream_def)
  qed
qed

lemma shutdown_run:
  assumes c: "conn_at s a c ch" and st: "state c = kConnected"
  defines "c' \<equiv> c\<lparr>state := kDisconnecting\<rparr>"
  shows "\<exists>s'. shutdown True a s = Inr s' \<and> conn_at s' a c' ch \<and> frame a c c' s s' \<and> wire s' = wire s
    \<and> shut s' = (if isWriting ch then shut s else (shut s)(socket c := True))"
proof -
  let ?s = "set_conn a c' s"
  have c1: "conn_at ?s a c' ch"
    by (rule conn_at_local [OF c]) (use c in \<open>simp_all add: set_conn_def c'_def conn_at_def\<close>)
  have f1: "frame a c c' s ?s" by (rule frame_local) (simp_all add: set_conn_def c'_def)
  define s' where "s' = (if isWriting ch then ?s else ?s\<lparr>shut := (shut ?s)(socket c := True)\<rparr>)"
  have s'f: "store s' = store ?s" "pollfds s' = pollfds ?s" "channels s' = channels ?s" "loopId s' = loopId ?s"
    "conns s' = conns ?s" "net_state.more s' = net_state.more ?s" "wire s' = wire ?s"
    by (simp_all add: s'_def)
  have "shutdownInLoop a ?s = Inr s'"
    unfolding shutdownInLoop_def conn_at_run [OF c1] by (simp add: s'_def c'_def)
  then have "shutdown True a s = Inr s'"
    using st unfolding shutdown_def conn_at_run [OF c] by (simp add: c'_def Let_def)
  moreover have "conn_at s' a c' ch"
    by (rule conn_at_local [OF c1]) (use s'f c1 in \<open>simp_all add: conn_at_def\<close>)
  moreover have "frame a c' c' ?s s'"
    by (rule frame_local) (use s'f c1 in \<open>simp_all add: set_conn_def s'_def\<close>)
  then have "frame a c c' s s'" using f1 frame_trans by blast
  moreover have "wire s' = wire s" "shut s' = (if isWriting ch then shut s else (shut s)(socket c := True))"
    by (simp_all add: s'_def set_conn_def)
  ultimately show ?thesis by blast
qed

lemma shutdown_ignored:
  assumes c: "conn_at s a c ch" and "state c \<noteq> kConnected"
  shows "shutdown i a s = Inr s" and "send K i m a s = Inr s"
  using assms(2) unfolding shutdown_def send_def conn_at_run [OF c] by simp_all

lemma send_connected:
  assumes c: "conn_at s a c ch" and "state c = kConnected"
  shows "send K True m a s = sendInLoop K m a s"
  using assms(2) unfolding send_def conn_at_run [OF c] by simp

text \<open>One event on a live connection, each case by the lemma of its operation.\<close>

definition event_refines :: "kernel \<Rightarrow> nat \<Rightarrow> int \<Rightarrow> out_event \<Rightarrow> nat \<Rightarrow> 'm net_state_scheme \<Rightarrow> bool" where
  "event_refines K a f e n s \<longleftrightarrow> (conn_event K a e s = Inl Assert_failed \<and> write_refused K f)
    \<or> (\<exists>s'. conn_event K a e s = Inr s' \<and> conn_live K a f s' \<and> conn_room a n s'
         \<and> conn_view a s' = spec_step e (conn_view a s))"

lemma event_refinesI:
  assumes "conn_event K a e s = Inr s'" and "kernel_ok K" and "conn_at s' a c' ch'" and "flow_ok c' ch'" and "socket c' = f"
    and "state c' = kConnected \<or> state c' = kDisconnecting"
    and "shut s' f = (state c' = kDisconnecting \<and> readable (outputBuffer c') = [])" and "buf_room n (outputBuffer c')"
    and "spec_step e (conn_view a s) = (stream s' c', state c' = kDisconnecting)"
  shows "event_refines K a f e n s"
proof -
  have "conns s' a = Some c'" using assms(3) by (simp add: conn_at_def)
  with assms show ?thesis
    by (auto simp: event_refines_def conn_live_def conn_room_def conn_view_def stream_def)
qed

lemma closing_ignores:
  assumes live: "conn_live K a f s" and room: "conn_room a n s" and "conns s a = Some c" and "state c \<noteq> kConnected"
    and e: "e = EvShutdown \<or> (\<exists>m. e = EvSend m)"
  shows "event_refines K a f e n s"
proof -
  obtain ch where c: "kernel_ok K" "conn_at s a c ch" "flow_ok c ch" "socket c = f" "state c = kDisconnecting"
    "shut s f = (state c = kDisconnecting \<and> readable (outputBuffer c) = [])"
    using conn_liveE [OF live] assms(3,4) by (metis option.inject)
  have "conn_event K a e s = Inr s" using e shutdown_ignored [OF c(2) assms(4)] by auto
  then show ?thesis
    by (rule event_refinesI [OF _ c(1-4) _ c(6)])
      (use room assms(3) c(5) e in \<open>auto simp: conn_room_def conn_view_def stream_def\<close>)
qed

lemma send_refines:
  assumes live: "conn_live K a f s" and room: "conn_room a (length m + n) s"
  shows "event_refines K a f (EvSend m) n s"
proof -
  obtain c ch where c: "kernel_ok K" "conn_at s a c ch" "flow_ok c ch" "socket c = f" "conns s a = Some c"
    "shut s f = (state c = kDisconnecting \<and> readable (outputBuffer c) = [])"
    using conn_liveE [OF live] by metis
  have rm: "buf_room (length m + n) (outputBuffer c)" "buf_room (length m) (outputBuffer c)"
    using room c(5) by (simp_all add: conn_room_def buf_room_def)
  show ?thesis
  proof (cases "state c = kConnected")
    case False
    have "conn_room a n s" using room c(5) by (simp add: conn_room_def buf_room_def)
    with closing_ignores [OF live _ c(5) False] show ?thesis by blast
  next
    case True
    have run: "conn_event K a (EvSend m) s = sendInLoop K m a s" using send_connected [OF c(2) True] by simp
    show ?thesis
    proof (cases rule: sendInLoop_cases [OF c(2,3,1) rm(2)])
      case 1
      then show ?thesis using run c(4) by (simp add: event_refines_def)
    next
      case (2 s' c' ch')
      have "conn_event K a (EvSend m) s = Inr s'" using run 2(1) by simp
      then show ?thesis
        by (rule event_refinesI [OF _ c(1) 2(2,3)])
          (use 2 c rm True in \<open>simp_all add: frame_def buf_room_def conn_view_def stream_def\<close>)
    qed
  qed
qed

lemma writable_refines:
  assumes live: "conn_live K a f s" and room: "conn_room a n s"
  shows "event_refines K a f EvWritable n s"
proof -
  obtain c ch where c: "kernel_ok K" "conn_at s a c ch" "flow_ok c ch" "socket c = f" "conns s a = Some c"
    "state c = kConnected \<or> state c = kDisconnecting"
    "shut s f = (state c = kDisconnecting \<and> readable (outputBuffer c) = [])"
    using conn_liveE [OF live] .
  obtain s' c' ch' where w: "handleWrite K a s = Inr s'" "conn_at s' a c' ch'" "flow_ok c' ch'" "frame a c c' s s'"
    "state c' = state c" "stream s' c' = stream s c"
    "shut s' = (if isWriting ch \<and> readable (outputBuffer c') = [] \<and> state c = kDisconnecting
                then (shut s)(socket c := True) else shut s)"
    "writerIndex (outputBuffer c') \<le> writerIndex (outputBuffer c)"
    by (rule handleWrite_cases [OF c(2,3,1)])
  have sh: "shut s' f = (state c' = kDisconnecting \<and> readable (outputBuffer c') = [])"
  proof (cases "isWriting ch")
    case True
    then have "readable (outputBuffer c) \<noteq> []" using c(3) by (simp add: flow_ok_def)
    then show ?thesis using w(5,7) c(4,7) True by auto
  next
    case False
    then have "handleWrite K a s = Inr s" by (rule handleWrite_idle [OF c(2)])
    then have "c' = c" "s' = s" using w(1,2) c(5) by (simp_all add: conn_at_def)
    with c(7) show ?thesis by simp
  qed
  have "conn_event K a EvWritable s = Inr s'" using w(1) by simp
  then show ?thesis
    by (rule event_refinesI [OF _ c(1) w(2,3) _ _ sh])
      (use w c room in \<open>auto simp: frame_def buf_room_def conn_room_def conn_view_def stream_def\<close>)
qed

lemma shutdown_refines:
  assumes live: "conn_live K a f s" and room: "conn_room a n s"
  shows "event_refines K a f EvShutdown n s"
proof -
  obtain c ch where c: "kernel_ok K" "conn_at s a c ch" "flow_ok c ch" "socket c = f" "conns s a = Some c"
    "shut s f = (state c = kDisconnecting \<and> readable (outputBuffer c) = [])"
    using conn_liveE [OF live] by metis
  show ?thesis
  proof (cases "state c = kConnected")
    case False
    with closing_ignores [OF live room c(5)] show ?thesis by blast
  next
    case True
    let ?c = "c\<lparr>state := kDisconnecting\<rparr>"
    obtain s' where d: "shutdown True a s = Inr s'" "conn_at s' a ?c ch" "wire s' = wire s"
        "shut s' = (if isWriting ch then shut s else (shut s)(socket c := True))"
      using shutdown_run [OF c(2) True] by blast
    have "conn_event K a EvShutdown s = Inr s'" using d(1) by simp
    then show ?thesis
      by (rule event_refinesI [OF _ c(1) d(2)])
        (use d c room True in \<open>auto simp: flow_ok_def stream_def conn_room_def conn_view_def\<close>)
  qed
qed

lemma conn_event_cases:
  assumes "conn_live K a f s" and "conn_room a (event_bytes e + n) s"
  shows "event_refines K a f e n s"
  using assms send_refines writable_refines shutdown_refines by (cases e) simp_all

interpretation cs: closable_stream "conn_live K a f" "conn_view a" "conn_room a" "conn_event K a" "write_refused K f"
proof unfold_locales
  fix s s' e n
  assume "conn_live K a f s" "conn_room a (event_bytes e + n) s" "conn_event K a e s = Inr s'"
  with conn_event_cases [of K a f s e n, unfolded event_refines_def]
  show "conn_live K a f s' \<and> conn_room a n s' \<and> conn_view a s' = spec_step e (conn_view a s)" by auto
next
  fix s e x
  assume "conn_live K a f s" "conn_room a (event_bytes e) s" "conn_event K a e s = Inl x"
  with conn_event_cases [of K a f s e 0, unfolded event_refines_def] show "x = Assert_failed \<and> write_refused K f" by auto
next
  fix n s k
  show "conn_room a n s \<Longrightarrow> k \<le> n \<Longrightarrow> conn_room a k s"
    by (auto simp: conn_room_def buf_room_def split: option.splits)
qed

subsection \<open>Draining the output\<close>

definition kernel_takes :: "kernel \<Rightarrow> int \<Rightarrow> bool" where
  "kernel_takes K f \<longleftrightarrow> kernel_ok K \<and> (\<forall>t d. d \<noteq> [] \<longrightarrow> 0 < k_write K t f d)"

lemma writable_progress:
  assumes "conn_live K a f s" and "kernel_takes K f" and "conns s a = Some c"
  shows "\<exists>s' c'. handleWrite K a s = Inr s' \<and> conn_live K a f s' \<and> conns s' a = Some c'
    \<and> stream s' c' = stream s c \<and> state c' = state c
    \<and> length (readable (outputBuffer c')) \<le> length (readable (outputBuffer c)) - 1"
proof -
  obtain ch where c: "kernel_ok K" "conn_at s a c ch" "flow_ok c ch" "socket c = f"
    using conn_liveE [OF assms(1)] assms(3) by (metis option.inject)
  have room: "conn_room a (event_bytes EvWritable + 0) s"
    using c(2) assms(3) by (simp add: conn_room_def buf_room_def conn_at_def buf_wf_def)
  obtain s1 c1 ch1 where w: "handleWrite K a s = Inr s1" "conn_at s1 a c1 ch1" "stream s1 c1 = stream s c" "state c1 = state c"
      "length (readable (outputBuffer c1)) \<le> length (readable (outputBuffer c)) - 1"
  proof (cases "isWriting ch")
    case False
    then have "readable (outputBuffer c) = []" using c(3) by (simp add: flow_ok_def)
    with False c(2) that [of s c ch] handleWrite_idle [OF c(2) False] show thesis by simp
  next
    case True
    then have ne: "readable (outputBuffer c) \<noteq> []" using c(3) by (simp add: flow_ok_def)
    then have pos: "0 < k_write K (calls s) (socket c) (readable (outputBuffer c))"
      using assms(2) c(4) by (simp add: kernel_takes_def)
    from handleWrite_some [OF c(2,3) True c(1) pos] obtain s' c' ch' where h:
      "handleWrite K a s = Inr s'" "conn_at s' a c' ch'" "stream s' c' = stream s c" "state c' = state c"
      "readable (outputBuffer c') = drop (nat (k_write K (calls s) (socket c) (readable (outputBuffer c)))) (readable (outputBuffer c))"
      by blast
    then show thesis using that [of s' c' ch'] pos by auto
  qed
  have live: "conn_live K a f s1"
    using cs.step_ok [OF assms(1) room, of s1] w(1) by simp
  have "conns s1 a = Some c1" using w(2) by (simp add: conn_at_def)
  with w live show ?thesis by blast
qed

lemma drain:
  assumes "conn_live K a f s" and "kernel_takes K f" and "conns s a = Some c"
    and "length (readable (outputBuffer c)) \<le> n"
  shows "\<exists>s' c'. foldR (\<lambda>_. handleWrite K a) (replicate n ()) s = Inr s' \<and> conn_live K a f s' \<and> conns s' a = Some c'
    \<and> stream s' c' = stream s c \<and> state c' = state c \<and> readable (outputBuffer c') = []"
  using assms
proof (induction n arbitrary: s c)
  case 0
  then show ?case by simp
next
  case (Suc n)
  obtain s1 c1 where w: "handleWrite K a s = Inr s1" "conn_live K a f s1" "conns s1 a = Some c1"
      "stream s1 c1 = stream s c" "state c1 = state c"
      "length (readable (outputBuffer c1)) \<le> length (readable (outputBuffer c)) - 1"
    using writable_progress [OF Suc.prems(1-3)] by blast
  then have "length (readable (outputBuffer c1)) \<le> n" using Suc.prems(4) by simp
  from Suc.IH [OF w(2) Suc.prems(2) w(3) this] w(1,4,5) show ?case by simp
qed

text \<open>Reading, on every branch.\<close>

lemma handleRead_run:
assumes "conn_at s a c ch" and "length (buffer (inputBuffer c)) + extrabuf_size \<le> vec_max"
    and "\<forall>bytes. k_readv K (calls s) (socket c) (writableBytes (inputBuffer c) + extrabuf_size) = Inr bytes
           \<longrightarrow> length bytes \<le> writableBytes (inputBuffer c) + extrabuf_size"
  shows "\<exists>s1 c1. conn_at s1 a c1 ch \<and> frame a c c1 s s1 \<and> state c1 = state c \<and> outputBuffer c1 = outputBuffer c
    \<and> (case k_readv K (calls s) (socket c) (writableBytes (inputBuffer c) + extrabuf_size) of
         Inr bytes \<Rightarrow> readable (inputBuffer c1) = readable (inputBuffer c) @ bytes
           \<and> TcpConnection_handleRead K msgCb closeCb a s = (if bytes \<noteq> [] then msgCb a s1 else handleClose closeCb a s1)
       | Inl e \<Rightarrow> readable (inputBuffer c1) = readable (inputBuffer c)
           \<and> TcpConnection_handleRead K msgCb closeCb a s = handleError a s1)"
proof -
  let ?rv = "k_readv K (calls s) (socket c) (writableBytes (inputBuffer c) + extrabuf_size)"
  have fdc: "fd ch = socket c" and wfb: "buf_wf (inputBuffer c)" "buf_wf (outputBuffer c)"
    and cs: "conns s a = Some c" using assms(1) by (simp_all add: conn_at_def)
  have upd: "conn_at (set_conn a (c\<lparr>inputBuffer := b\<rparr>) (s\<lparr>calls := calls s + 1\<rparr>)) a (c\<lparr>inputBuffer := b\<rparr>) ch
      \<and> frame a c (c\<lparr>inputBuffer := b\<rparr>) s (set_conn a (c\<lparr>inputBuffer := b\<rparr>) (s\<lparr>calls := calls s + 1\<rparr>))"
    if "buf_wf b" for b
  proof
    show "conn_at (set_conn a (c\<lparr>inputBuffer := b\<rparr>) (s\<lparr>calls := calls s + 1\<rparr>)) a (c\<lparr>inputBuffer := b\<rparr>) ch"
      by (rule conn_at_local [OF assms(1)]) (use that wfb in \<open>simp_all add: set_conn_def\<close>)
    show "frame a c (c\<lparr>inputBuffer := b\<rparr>) s (set_conn a (c\<lparr>inputBuffer := b\<rparr>) (s\<lparr>calls := calls s + 1\<rparr>))"
      by (rule frame_local) (simp_all add: set_conn_def)
  qed
  have run: "TcpConnection_handleRead K msgCb closeCb a s = res_bind (readFd ?rv (inputBuffer c)) (\<lambda>(n, e, b).
      let s1 = set_conn a (c\<lparr>inputBuffer := b\<rparr>) (s\<lparr>calls := calls s + 1\<rparr>) in
      if n > 0 then msgCb a s1 else if n = 0 then handleClose closeCb a s1 else handleError a s1)"
    unfolding TcpConnection_handleRead_def conn_at_run [OF assms(1)] by (simp add: fdc Let_def)
  show ?thesis
  proof (cases ?rv)
    case (Inl e)
    let ?c1 = "c\<lparr>inputBuffer := inputBuffer c\<rparr>"
    let ?s1 = "set_conn a ?c1 (s\<lparr>calls := calls s + 1\<rparr>)"
    have "TcpConnection_handleRead K msgCb closeCb a s = handleError a ?s1"
      using run Inl by (simp add: readFd_def)
    with upd [OF wfb(1)] Inl show ?thesis by (intro exI [of _ ?s1] exI [of _ ?c1]) simp
  next
    case (Inr bytes)
    obtain b where b: "readFd (Inr bytes) (inputBuffer c) = Inr (int (length bytes), None, b)" "buf_wf b"
        "readable b = readable (inputBuffer c) @ bytes"
      using readFd_spec [OF wfb(1) _ assms(2), of bytes] assms(3) Inr by auto
    let ?s1 = "set_conn a (c\<lparr>inputBuffer := b\<rparr>) (s\<lparr>calls := calls s + 1\<rparr>)"
    have "TcpConnection_handleRead K msgCb closeCb a s = (if bytes \<noteq> [] then msgCb a ?s1 else handleClose closeCb a ?s1)"
      using run Inr b(1) by simp
    with upd [OF b(2)] b(3) Inr show ?thesis
      by (intro exI [of _ ?s1] exI [of _ "c\<lparr>inputBuffer := b\<rparr>"]) simp
  qed
qed

subsection \<open>Properties\<close>



text \<open>
  A send on a connection with an empty output buffer aborts the process when the
  kernel refuses the write, for example because the socket's send buffer is full: the error
  is logged and then the assertion \<open>nwrote >= 0\<close> fails, for every message.
\<close>
theorem refused_send_aborts:
  assumes "conn_live K a f s" and "conns s a = Some c" and "state c = kConnected"
    and "readable (outputBuffer c) = []" and "k_write K (calls s) f (c_strlen_prefix m) < 0"
  shows "send K True m a s = Inl Assert_failed"
proof -
  obtain ch where c: "conn_at s a c ch" "flow_ok c ch" "socket c = f"
    using conn_liveE [OF assms(1)] assms(2) by (metis option.inject)
  have "buf_wf (outputBuffer c)" using c(1) by (simp add: conn_at_def)
  then have "direct_write c ch"
    using c(2) assms(4) readableBytes_empty by (simp add: direct_write_def flow_ok_def)
  then show ?thesis using sendInLoop_fails [OF c(1)] send_connected [OF c(1) assms(3)] assms(5) c(3) by simp
qed

text \<open>
  What the loop does with a readable connection, on every branch: the bytes
  that \<open>readv(2)\<close> delivers are appended to the input buffer, then the message callback runs
  on that state; an end of file runs the close handler and an error the error handler, both
  with the buffer unchanged.
\<close>
theorem handleRead_dispatches:
  assumes "conn_at s a c ch" and "length (buffer (inputBuffer c)) + extrabuf_size \<le> vec_max"
    and "\<forall>bytes. k_readv K (calls s) (socket c) (writableBytes (inputBuffer c) + extrabuf_size) = Inr bytes
           \<longrightarrow> length bytes \<le> writableBytes (inputBuffer c) + extrabuf_size"
  shows "\<exists>s1 c1. conn_at s1 a c1 ch \<and> frame a c c1 s s1 \<and> state c1 = state c \<and> outputBuffer c1 = outputBuffer c
    \<and> (case k_readv K (calls s) (socket c) (writableBytes (inputBuffer c) + extrabuf_size) of
         Inr bytes \<Rightarrow> readable (inputBuffer c1) = readable (inputBuffer c) @ bytes
           \<and> TcpConnection_handleRead K msgCb closeCb a s = (if bytes \<noteq> [] then msgCb a s1 else handleClose closeCb a s1)
       | Inl e \<Rightarrow> readable (inputBuffer c1) = readable (inputBuffer c)
           \<and> TcpConnection_handleRead K msgCb closeCb a s = handleError a s1)"
  using assms by (rule handleRead_run)

subsection \<open>A connection for the witnesses\<close>

definition demo_conn :: TcpConnection where
  "demo_conn = (TcpConnection_new 0 ''S#1'' 7 5 sockaddr_zero sockaddr_zero)\<lparr>state := kConnected\<rparr>"

definition demo_channel :: "net_callback Channel" where
  "demo_channel = (Channel_new 0 7)\<lparr>index := 0, events := kReadEvent, readCallback := Some (ConnRead 9),
     writeCallback := Some (ConnWrite 9), closeCallback := Some (ConnClose 9), errorCallback := Some (ConnError 9)\<rparr>"

definition demo_net :: net_state where
  "demo_net = \<lparr>loopId = 0, store = [5 \<mapsto> demo_channel],
     pollfds = [\<lparr>pfd_fd = 7, pfd_events = 3, pfd_revents = 0\<rparr>], channels = [7 \<mapsto> 5], looping = True,
     quitFlag = False, callingPendingFunctors = False, pendingFunctors = [], wakeupCount = 0,
     conns = [9 \<mapsto> demo_conn], calls = 0, wire = \<lambda>_. [], shut = \<lambda>_. False\<rparr>"

text \<open>A kernel that takes at most three bytes per write, and one that refuses.\<close>

definition slow_kernel :: kernel where
  "slow_kernel = \<lparr>k_write = \<lambda>t f d. min 3 (int (length d)), k_readv = \<lambda>t f n. Inr ''hi''\<rparr>"

definition full_kernel :: kernel where
  "full_kernel = \<lparr>k_write = \<lambda>t f d. - 1, k_readv = \<lambda>t f n. Inr ''hi''\<rparr>"

lemma demo_kernels: "kernel_ok slow_kernel" "kernel_ok full_kernel" "kernel_takes slow_kernel f"
  by (simp_all add: kernel_ok_def kernel_takes_def slow_kernel_def full_kernel_def)

lemma demo_conn_at: "conn_at demo_net 9 demo_conn demo_channel" "flow_ok demo_conn demo_channel"
proof -
  show "conn_at demo_net 9 demo_conn demo_channel"
    using buf_wf_new by (auto simp: conn_at_def poll_wf_def attached_def entry_def entry_of_def demo_net_def demo_conn_def
        demo_channel_def Channel_new_def TcpConnection_new_def)
  show "flow_ok demo_conn demo_channel"
    by (simp add: flow_ok_def demo_conn_def TcpConnection_new_def readable_new demo_channel_def isWriting_def event_consts)
qed

lemma demo_fields [simp]:
  "conns demo_net 9 = Some demo_conn" "wire demo_net f = []" "shut demo_net f = False"
  "socket demo_conn = 7" "state demo_conn = kConnected" "outputBuffer demo_conn = Buffer_new"
  "inputBuffer demo_conn = Buffer_new"
  by (simp_all add: demo_net_def demo_conn_def TcpConnection_new_def)

lemma demo_live: "kernel_ok K \<Longrightarrow> conn_live K 9 7 demo_net"
  unfolding conn_live_def using demo_conn_at demo_fields
  by (intro conjI exI [of _ demo_conn] exI [of _ demo_channel]) simp_all

lemma demo_conns: "conns demo_net 9 = Some demo_conn"
  by simp

lemma demo_room: "n \<le> 1000 \<Longrightarrow> buf_room n (outputBuffer demo_conn)"
  by (simp add: buf_room_def demo_conn_def TcpConnection_new_def Buffer_new_def kCheapPrepend_def)



theorem refused_send_aborts_witness: "send full_kernel True ''hello'' 9 demo_net = Inl Assert_failed"
  by (rule refused_send_aborts [OF demo_live [OF demo_kernels(2)] demo_conns])
    (simp_all add: readable_new full_kernel_def)

theorem handleRead_dispatches_witness:
  "\<exists>s1 c1. conn_at s1 9 c1 demo_channel \<and> readable (inputBuffer c1) = ''hi''
    \<and> TcpConnection_handleRead slow_kernel (\<lambda>a. Inr) (\<lambda>a. Inr) 9 demo_net = Inr s1"
proof -
  have "length (buffer Buffer_new) + extrabuf_size \<le> vec_max"
    by (simp add: Buffer_new_def kCheapPrepend_def kInitialSize_def extrabuf_size_def)
  moreover have "\<forall>bytes. k_readv slow_kernel t f n = Inr bytes \<longrightarrow> length bytes \<le> m + extrabuf_size" for t f n m
    by (auto simp: slow_kernel_def extrabuf_size_def)
  moreover have "k_readv slow_kernel t f n = Inr ''hi''" for t f n by (simp add: slow_kernel_def)
  ultimately show ?thesis
    using handleRead_dispatches [OF demo_conn_at(1), of slow_kernel "\<lambda>a. Inr" "\<lambda>a. Inr"]
    by (auto simp: readable_new)
qed

end
