(* ===== verification/Thread_Pool.thy ===== *)
theory Thread_Pool
  imports Prelude
begin

section \<open>The thread pool\<close>

text \<open>
  Model of \<open>include/EventLoopThreadPool.h\<close>, \<open>src/EventLoopThreadPool.cpp\<close> and
  \<open>src/EventLoopThread.cpp\<close>: the pool that assigns connections to event loops.  A loop is
  its address; the address of the loop that a new thread creates on its stack is a
  parameter of \<open>start\<close>.  The hand-over between \<open>startLoop\<close> and \<open>threadFunc\<close> through the
  condition variable is a step relation of the two threads.
\<close>

subsection \<open>State and operations\<close>

record EventLoopThreadPool =
  baseLoop :: nat
  started :: bool
  numThreads :: int
  next_index :: int
  loops :: "nat list"

definition EventLoopThreadPool_new :: "nat \<Rightarrow> EventLoopThreadPool" where
  "EventLoopThreadPool_new base =
     \<lparr>baseLoop = base, started = False, numThreads = 0, next_index = 0, loops = []\<rparr>"

definition setThreadNum :: "int \<Rightarrow> EventLoopThreadPool \<Rightarrow> EventLoopThreadPool" where
  "setThreadNum n p = p\<lparr>numThreads := n\<rparr>"

text \<open>\<open>startLoop i\<close> is the loop that the thread created in pass \<open>i\<close> announces.\<close>

definition pool_start :: "(nat \<Rightarrow> nat) \<Rightarrow> EventLoopThreadPool \<Rightarrow> EventLoopThreadPool res" where
  "pool_start startLoop p =
     assertR (\<not> started p)
       (Inr (fold (\<lambda>i p. p\<lparr>loops := loops p @ [startLoop i]\<rparr>) [0 ..< nat (numThreads p)]
          (p\<lparr>started := True\<rparr>)))"

definition getNextLoop :: "EventLoopThreadPool \<Rightarrow> (nat \<times> EventLoopThreadPool) res" where
  "getNextLoop p =
     (if loops p \<noteq> [] then
        definedR (0 \<le> next_index p \<and> next_index p < int (length (loops p)))
          (let loop = loops p ! nat (next_index p);
               next1 = next_index p + 1;
               next2 = (if next1 \<ge> int (length (loops p)) then 0 else next1)
           in Inr (loop, p\<lparr>next_index := next2\<rparr>))
      else Inr (baseLoop p, p))"

fun take_loops :: "nat \<Rightarrow> EventLoopThreadPool \<Rightarrow> (nat list \<times> EventLoopThreadPool) res" where
  "take_loops 0 p = Inr ([], p)"
| "take_loops (Suc n) p =
     res_bind (getNextLoop p) (\<lambda>(l, p1). res_bind (take_loops n p1) (\<lambda>(ls, p2). Inr (l # ls, p2)))"

definition pool_wf :: "EventLoopThreadPool \<Rightarrow> bool" where
  "pool_wf p \<longleftrightarrow> 0 \<le> next_index p \<and> (loops p \<noteq> [] \<longrightarrow> next_index p < int (length (loops p)))"

lemma pool_fold_loops:
  "fold (\<lambda>i p. p\<lparr>loops := loops p @ [f i]\<rparr>) is p = p\<lparr>loops := loops p @ map f is\<rparr>"
  by (induction "is" arbitrary: p) simp_all

lemma pool_start_wf:
  "\<exists>p. pool_start f (setThreadNum n (EventLoopThreadPool_new base)) = Inr p \<and> pool_wf p
     \<and> loops p = map f [0 ..< nat n]"
  by (simp add: pool_start_def setThreadNum_def EventLoopThreadPool_new_def pool_fold_loops pool_wf_def)

lemma getNextLoop_step:
  assumes "pool_wf p" and "loops p \<noteq> []"
  shows "getNextLoop p = Inr (loops p ! nat (next_index p),
      p\<lparr>next_index := (next_index p + 1) mod int (length (loops p))\<rparr>)"
proof (cases "next_index p + 1 = int (length (loops p))")
  case True
  with assms show ?thesis by (simp add: getNextLoop_def pool_wf_def Let_def)
next
  case False
  with assms show ?thesis by (simp add: getNextLoop_def pool_wf_def Let_def)
qed

lemma take_loops_round_robin:
  assumes "pool_wf p" and "loops p \<noteq> []"
  shows "take_loops n p = Inr
      (map (\<lambda>i. loops p ! ((nat (next_index p) + i) mod length (loops p))) [0 ..< n],
       p\<lparr>next_index := (next_index p + int n) mod int (length (loops p))\<rparr>)"
  using assms
proof (induction n arbitrary: p)
  case 0
  then show ?case by (simp add: pool_wf_def)
next
  case (Suc n)
  let ?k = "length (loops p)" and ?i = "nat (next_index p)"
  let ?p = "p\<lparr>next_index := (next_index p + 1) mod int ?k\<rparr>"
  have i: "?i < ?k" using Suc.prems by (auto simp: pool_wf_def nat_less_iff)
  have next_eq: "nat ((next_index p + 1) mod int ?k) = Suc ?i mod ?k"
    using Suc.prems by (simp add: pool_wf_def nat_mod_distrib nat_add_distrib)
  have "pool_wf ?p" using Suc.prems by (simp add: pool_wf_def)
  then have IH: "take_loops n ?p = Inr
      (map (\<lambda>j. loops p ! ((Suc ?i mod ?k + j) mod ?k)) [0 ..< n],
       p\<lparr>next_index := ((next_index p + 1) mod int ?k + int n) mod int ?k\<rparr>)"
    using Suc.IH [of ?p] Suc.prems(2) by (simp add: next_eq)
  have shift: "(Suc ?i mod ?k + j) mod ?k = (?i + Suc j) mod ?k" for j
    by (simp add: mod_add_left_eq)
  have later: "((next_index p + 1) mod int ?k + int n) mod int ?k = (next_index p + int (Suc n)) mod int ?k"
    by (simp add: mod_simps algebra_simps)
  have "take_loops (Suc n) p = Inr (loops p ! (?i mod ?k) #
      map (\<lambda>j. loops p ! ((?i + Suc j) mod ?k)) [0 ..< n],
      p\<lparr>next_index := (next_index p + int (Suc n)) mod int ?k\<rparr>)"
    using IH i by (simp only: take_loops.simps getNextLoop_step [OF Suc.prems] shift later
        res_bind_simps prod.case mod_less)
  moreover have "[0 ..< Suc n] = 0 # map Suc [0 ..< n]"
    by (simp add: map_Suc_upt upt_conv_Cons del: upt_Suc)
  ultimately show ?case by (simp only: list.map list.map_comp comp_def add_0_right)
qed

lemma take_loops_one_round:
  assumes "pool_wf p" and "loops p \<noteq> []"
  shows "take_loops (length (loops p)) p = Inr (rotate (nat (next_index p)) (loops p), p)"
proof -
  have "map (\<lambda>i. loops p ! ((nat (next_index p) + i) mod length (loops p))) [0 ..< length (loops p)]
      = rotate (nat (next_index p)) (loops p)"
    by (rule nth_equalityI) (simp_all add: nth_rotate)
  moreover have "(next_index p + int (length (loops p))) mod int (length (loops p)) = next_index p"
    using assms by (simp add: pool_wf_def)
  ultimately show ?thesis by (simp add: take_loops_round_robin [OF assms])
qed

lemma take_loops_add:
  "take_loops (m + n) p = res_bind (take_loops m p) (\<lambda>(ls, p1).
      res_bind (take_loops n p1) (\<lambda>(ls2, p2). Inr (ls @ ls2, p2)))"
  by (induction m arbitrary: p)
    (auto simp: res_bind_def split: sum.splits prod.splits)

subsection \<open>Starting a loop in a new thread\<close>

text \<open>
  \<open>EventLoopThread::startLoop\<close> waits under the mutex until the new thread has stored the
  address of its loop.  The two threads are where their program counters say; the waiter
  sleeps in \<open>cond_.wait()\<close> and is woken by \<open>notify\<close> or spuriously.
\<close>

datatype starter = Created | Checking | Sleeping | Returned nat
datatype runner = NotStarted | Booting nat | Publishing nat | Looping nat

record thread_pair =
  starter :: starter
  runner :: runner
  loopPtr :: "nat option"
  notified :: bool

definition EventLoopThread_new :: thread_pair where
  "EventLoopThread_new = \<lparr>starter = Created, runner = NotStarted, loopPtr = None, notified = False\<rparr>"

inductive handover :: "nat \<Rightarrow> thread_pair \<Rightarrow> thread_pair \<Rightarrow> bool" for lp where
  start_thread: "starter t = Created \<Longrightarrow> runner t = NotStarted \<Longrightarrow>
    handover lp t (t\<lparr>starter := Checking, runner := Booting lp\<rparr>)"
| wait: "starter t = Checking \<Longrightarrow> loopPtr t = None \<Longrightarrow> handover lp t (t\<lparr>starter := Sleeping\<rparr>)"
| return: "starter t = Checking \<Longrightarrow> loopPtr t = Some l \<Longrightarrow> handover lp t (t\<lparr>starter := Returned l\<rparr>)"
| woken: "starter t = Sleeping \<Longrightarrow> handover lp t (t\<lparr>starter := Checking, notified := False\<rparr>)"
| construct: "runner t = Booting l \<Longrightarrow> handover lp t (t\<lparr>runner := Publishing l\<rparr>)"
| publish: "runner t = Publishing l \<Longrightarrow>
    handover lp t (t\<lparr>runner := Looping l, loopPtr := Some l, notified := (starter t = Sleeping)\<rparr>)"

inductive handover_reach :: "nat \<Rightarrow> thread_pair \<Rightarrow> bool" for lp where
  init: "handover_reach lp EventLoopThread_new"
| step: "handover_reach lp t \<Longrightarrow> handover lp t t' \<Longrightarrow> handover_reach lp t'"

definition handover_inv :: "nat \<Rightarrow> thread_pair \<Rightarrow> bool" where
  "handover_inv lp t \<longleftrightarrow>
     (loopPtr t = (if runner t = Looping lp then Some lp else None))
   \<and> (starter t = Created \<longleftrightarrow> runner t = NotStarted)
   \<and> (runner t \<in> {NotStarted, Booting lp, Publishing lp, Looping lp})
   \<and> (\<forall>l. starter t = Returned l \<longrightarrow> l = lp \<and> runner t = Looping lp)
   \<and> (starter t = Sleeping \<longrightarrow> runner t = Looping lp \<longrightarrow> notified t)"

lemma handover_inv_step: "handover lp t t' \<Longrightarrow> handover_inv lp t \<Longrightarrow> handover_inv lp t'"
  by (induction rule: handover.induct) (auto simp: handover_inv_def split: if_splits)

lemma handover_inv_reach: "handover_reach lp t \<Longrightarrow> handover_inv lp t"
proof (induction rule: handover_reach.induct)
  case init
  show ?case by (simp add: handover_inv_def EventLoopThread_new_def)
next
  case (step t t')
  then show ?case by (blast intro: handover_inv_step)
qed

subsection \<open>Properties\<close>

text \<open>
  The pool is fair: once it holds loops, handing out \<open>m\<close> rounds of loops
  never indexes outside the vector, gives every loop exactly \<open>m\<close> times as often as it is
  in the pool, and leaves the pool where it was.
\<close>
theorem round_robin_is_fair:
  assumes "pool_wf p" and "loops p \<noteq> []"
  shows "\<exists>ls. take_loops (m * length (loops p)) p = Inr (ls, p)
    \<and> (\<forall>l. count_list ls l = m * count_list (loops p) l)"
proof (induction m)
  case 0
  show ?case by simp
next
  case (Suc m)
  then obtain ls where ls: "take_loops (m * length (loops p)) p = Inr (ls, p)"
      "\<And>l. count_list ls l = m * count_list (loops p) l" by blast
  have rot: "count_list (rotate n xs) l = count_list xs l" for n and xs :: "nat list" and l
    by (simp add: rotate_drop_take) (metis append_take_drop_id add.commute count_list_append)
  show ?case using ls rot by (simp add: take_loops_add take_loops_one_round [OF assms])
qed

text \<open>
  The hand-over of a new thread's loop is right: in every interleaving of
  \<open>startLoop\<close> and \<open>threadFunc\<close>, the loop that is returned is the one the new thread
  created and has published, and a starter that sleeps after the publication has been
  notified.
\<close>
theorem startLoop_returns_published_loop:
  assumes "handover_reach lp t"
  shows "(\<forall>l. starter t = Returned l \<longrightarrow> l = lp \<and> loopPtr t = Some lp)
    \<and> (starter t = Sleeping \<and> loopPtr t \<noteq> None \<longrightarrow> notified t)"
  using handover_inv_reach [OF assms] by (auto simp: handover_inv_def split: if_splits)

definition two_loops :: EventLoopThreadPool where
  "two_loops = \<lparr>baseLoop = 1, started = True, numThreads = 2, next_index = 1, loops = [10, 20]\<rparr>"

theorem round_robin_is_fair_witness:
  "\<exists>ls. take_loops (3 * length (loops two_loops)) two_loops = Inr (ls, two_loops)
    \<and> (\<forall>l. count_list ls l = 3 * count_list (loops two_loops) l)"
  by (rule round_robin_is_fair) (simp_all add: two_loops_def pool_wf_def)

lemma handover_example:
  "handover_reach 5 \<lparr>starter = Sleeping, runner = Looping 5, loopPtr = Some 5, notified = True\<rparr>"
proof -
  let ?t = "\<lambda>s r l n. \<lparr>starter = s, runner = r, loopPtr = l, notified = n\<rparr>"
  have 1: "handover_reach 5 (?t Checking (Booting 5) None False)"
    using handover_reach.step [OF handover_reach.init handover.start_thread, of 5]
    by (simp add: EventLoopThread_new_def)
  have 2: "handover_reach 5 (?t Sleeping (Booting 5) None False)"
    using handover_reach.step [OF 1 handover.wait] by simp
  have 3: "handover_reach 5 (?t Sleeping (Publishing 5) None False)"
    using handover_reach.step [OF 2 handover.construct, of 5] by simp
  show ?thesis using handover_reach.step [OF 3 handover.publish, of 5] by simp
qed

theorem startLoop_returns_published_loop_witness:
  "notified \<lparr>starter = Sleeping, runner = Looping 5, loopPtr = Some 5, notified = True\<rparr>"
  using startLoop_returns_published_loop [OF handover_example] by simp

end
