(* ===== verification/Tcp_Server.thy ===== *)
theory Tcp_Server
  imports Tcp_Connection Thread_Pool "HOL-Library.List_Lexorder" "HOL-Library.Char_ord"
begin

section \<open>The server\<close>

text \<open>
  Model of \<open>include/TcpServer.h\<close>, \<open>src/TcpServer.cpp\<close>, \<open>include/Acceptor.h\<close> and
  \<open>src/Acceptor.cpp\<close>: accepting connections, the map of connections by name, and the two
  stages of removing one (out of the map now, out of the poller when the queued
  \<open>connectDestroyed\<close> runs).  The state is seen from the thread of the acceptor's loop; what
  is queued in another loop of the pool is recorded in \<open>posted\<close>.  The addresses of new
  objects and the answers of \<open>accept4(2)\<close> and \<open>getsockname(2)\<close> are parameters.
\<close>

subsection \<open>State\<close>

record server_state = net_state +
  server_name :: string
  server_started :: bool
  nextConnId :: int
  connections :: "(string \<times> nat) list"
  pool :: EventLoopThreadPool
  acceptChannel :: nat
  listening :: bool
  hasWriteComplete :: bool
  posted :: "(nat \<times> net_functor) list"

text \<open>\<open>std::map\<close> as a list sorted by key: assignment through \<open>operator[]\<close> and \<open>erase\<close> by key.\<close>

fun map_put :: "'k :: linorder \<Rightarrow> 'v \<Rightarrow> ('k \<times> 'v) list \<Rightarrow> ('k \<times> 'v) list" where
  "map_put k v [] = [(k, v)]"
| "map_put k v ((k', v') # m) =
     (if k = k' then (k, v) # m else if k < k' then (k, v) # (k', v') # m else (k', v') # map_put k v m)"

definition map_erase :: "'k \<Rightarrow> ('k \<times> 'v) list \<Rightarrow> nat \<times> ('k \<times> 'v) list" where
  "map_erase k m = (length (filter (\<lambda>p. fst p = k) m), filter (\<lambda>p. fst p \<noteq> k) m)"

subsection \<open>Operations\<close>

text \<open>Handing a functor to a loop: \<open>runInLoop\<close> and \<open>queueInLoop\<close> called in the acceptor's loop.\<close>

definition run_in :: "(net_functor \<Rightarrow> 'm server_state_scheme \<Rightarrow> 'm server_state_scheme res) \<Rightarrow> nat \<Rightarrow>
    net_functor \<Rightarrow> 'm server_state_scheme \<Rightarrow> 'm server_state_scheme res" where
  "run_in run loop f s =
     (if loop = loopId s then runInLoop run True f s else Inr (s\<lparr>posted := posted s @ [(loop, f)]\<rparr>))"

definition queue_in :: "nat \<Rightarrow> net_functor \<Rightarrow> 'm server_state_scheme \<Rightarrow> 'm server_state_scheme" where
  "queue_in loop f s =
     (if loop = loopId s then queueInLoop True f s else s\<lparr>posted := posted s @ [(loop, f)]\<rparr>)"

definition connection_name :: "string \<Rightarrow> int \<Rightarrow> string" where
  "connection_name nm i = nm @ take 31 (CHR ''#'' # show_int i)"

definition newConnection :: "(nat \<Rightarrow> 'm server_state_scheme \<Rightarrow> 'm server_state_scheme res) \<Rightarrow> nat \<times> nat \<Rightarrow>
    sockaddr_in option \<Rightarrow> int \<Rightarrow> sockaddr_in \<Rightarrow> 'm server_state_scheme \<Rightarrow> 'm server_state_scheme res" where
  "newConnection connectionCallback addrs sockname sockfd peer s =
     (let connName = connection_name (server_name s) (nextConnId s) in
      res_bind (int_inc (nextConnId s)) (\<lambda>i.
        let local = fst (getLocalAddr sockname) in
        res_bind (getNextLoop (pool s)) (\<lambda>(ioLoop, pool1).
          let (a, ch) = addrs;
              s1 = TcpConnection_ctor a ch ioLoop connName sockfd local peer
                     (s\<lparr>nextConnId := i, pool := pool1\<rparr>);
              s2 = s1\<lparr>connections := map_put connName a (connections s1)\<rparr>
          in with_conn a (\<lambda>c s3.
               run_in (\<lambda>_. connectEstablished connectionCallback a) ioLoop (ConnectEstablished a)
                 (set_conn a (c\<lparr>writeCompleteCallback := hasWriteComplete s3\<rparr>) s3)) s2)))"

definition removeConnectionInLoop :: "nat \<Rightarrow> 'm server_state_scheme \<Rightarrow> 'm server_state_scheme res" where
  "removeConnectionInLoop a =
     with_conn a (\<lambda>c s.
       let (n, m) = map_erase (conn_name c) (connections s) in
       assertR (n = 1) (Inr (queue_in (conn_loop c) (ConnectDestroyed a) (s\<lparr>connections := m\<rparr>))))"

text \<open>\<open>inLoop\<close>: whether the calling thread is the acceptor's loop.\<close>

definition removeConnection :: "bool \<Rightarrow> nat \<Rightarrow> 'm server_state_scheme \<Rightarrow> 'm server_state_scheme res" where
  "removeConnection inLoop a =
     runInLoop (\<lambda>_. removeConnectionInLoop a) inLoop (RemoveConnectionInLoop a)"

definition Acceptor_listen :: "'m server_state_scheme \<Rightarrow> 'm server_state_scheme res" where
  "Acceptor_listen s = enableReading (acceptChannel s) (s\<lparr>listening := True\<rparr>)"

definition Acceptor_handleRead :: "(int \<Rightarrow> sockaddr_in \<Rightarrow> 'm server_state_scheme \<Rightarrow> 'm server_state_scheme res) option \<Rightarrow>
    accept_answer \<Rightarrow> 'm server_state_scheme \<Rightarrow> 'm server_state_scheme res" where
  "Acceptor_handleRead newConnectionCallback answer s =
     (let (connfd, peer, logged) = Socket_accept answer (InetAddress_port 0);
          s1 = s\<lparr>calls := calls s + 1\<rparr>
      in if connfd \<ge> 0 then
           (case newConnectionCallback of
              Some cb \<Rightarrow> cb connfd peer s1
            | None \<Rightarrow> Inr (s1\<lparr>calls := calls s1 + 1\<rparr>))
         else Inr s1)"

definition TcpServer_setThreadNum :: "int \<Rightarrow> 'm server_state_scheme \<Rightarrow> 'm server_state_scheme res" where
  "TcpServer_setThreadNum n s = assertR (0 \<le> n) (Inr (s\<lparr>pool := setThreadNum n (pool s)\<rparr>))"

definition TcpServer_start :: "(nat \<Rightarrow> nat) \<Rightarrow> bool \<Rightarrow> 'm server_state_scheme \<Rightarrow> 'm server_state_scheme res" where
  "TcpServer_start startLoop inLoop s =
     res_bind (if \<not> server_started s
               then res_bind (pool_start startLoop (pool s))
                      (\<lambda>p. Inr (s\<lparr>server_started := True, pool := p\<rparr>))
               else Inr s)
       (\<lambda>s1. if \<not> listening s1 then runInLoop (\<lambda>_. Acceptor_listen) inLoop AcceptorListen s1 else Inr s1)"

text \<open>The constructor: the acceptor's channel at \<open>ch\<close> on the listening socket, and the pool.\<close>

definition TcpServer_ctor :: "nat \<Rightarrow> int \<Rightarrow> string \<Rightarrow> 'm server_state_scheme \<Rightarrow> 'm server_state_scheme" where
  "TcpServer_ctor ch sockfd nameArg s =
     s\<lparr>store := (store s)(ch \<mapsto> (Channel_new (loopId s) sockfd)\<lparr>readCallback := Some AcceptRead\<rparr>),
       server_name := nameArg, server_started := False, nextConnId := 1, connections := [],
       pool := EventLoopThreadPool_new (loopId s), acceptChannel := ch, listening := False\<rparr>"

subsection \<open>The map of connections\<close>

lemma map_put_set: "k \<notin> fst ` set m \<Longrightarrow> set (map_put k v m) = insert (k, v) (set m)"
  by (induction m) (auto split: if_splits)

lemma map_put_keys: "p \<in> set (map_put k v m) \<Longrightarrow> p = (k, v) \<or> p \<in> set m"
  by (induction m) (auto split: if_splits)

lemma map_put_sorted: "sorted_wrt (<) (map fst m) \<Longrightarrow> sorted_wrt (<) (map fst (map_put k v m))"
proof (induction m)
  case Nil
  then show ?case by simp
next
  case (Cons p m)
  obtain k' v' where p: "p = (k', v')" by (cases p)
  consider "k = k'" | "k < k'" | "k' < k" by (rule linorder_cases)
  then show ?case
  proof cases
    case 3
    have "\<forall>q \<in> set (map_put k v m). k' < fst q"
      using Cons.prems 3 by (auto simp: p dest!: map_put_keys)
    with 3 Cons show ?thesis by (auto simp: p)
  qed (use Cons in \<open>auto simp: p\<close>)
qed

lemma map_put_lookup: "sorted_wrt (<) (map fst m) \<Longrightarrow> map_of (map_put k v m) = (map_of m)(k \<mapsto> v)"
proof (induction m)
  case Nil
  then show ?case by simp
next
  case (Cons p m)
  then show ?case by (cases p) (auto simp: fun_eq_iff)
qed

lemma map_erase_count:
  assumes "distinct (map fst m)"
  shows "fst (map_erase k m) = (if k \<in> fst ` set m then 1 else 0)"
  using assms by (induction m) (auto simp: map_erase_def)

lemma map_erase_set: "set (snd (map_erase k m)) = {p \<in> set m. fst p \<noteq> k}"
  by (simp add: map_erase_def)

lemma map_erase_sorted: "sorted_wrt (<) (map fst m) \<Longrightarrow> sorted_wrt (<) (map fst (snd (map_erase k m)))"
  by (simp add: map_erase_def sorted_wrt_map sorted_wrt_filter)

lemma sorted_keys_distinct: "sorted_wrt (<) (map fst m) \<Longrightarrow> distinct (map fst m)"
  for m :: "('k :: linorder \<times> 'v) list"
  by (simp add: strict_sorted_iff)

text \<open>Connection names do not repeat.\<close>

lemma connection_name_inject:
  assumes "\<bar>i\<bar> < 10 ^ 19" and "\<bar>j\<bar> < 10 ^ 19"
  shows "connection_name nm i = connection_name nm j \<longleftrightarrow> i = j"
proof -
  have l: "length (show_int i) \<le> 20" if "\<bar>i\<bar> < 10 ^ 19" for i
    using that length_show_nat [of "nat \<bar>i\<bar>" 19] by (auto simp: show_int_def nat_less_iff)
  have "connection_name nm i = nm @ CHR ''#'' # show_int i" "connection_name nm j = nm @ CHR ''#'' # show_int j"
    using l [OF assms(1)] l [OF assms(2)] by (simp_all add: connection_name_def)
  then show ?thesis using read_show_int by (metis append_same_eq list.inject same_append_eq)
qed

subsection \<open>The invariant of the server\<close>

text \<open>
  The connections the server is responsible for are those in its map and those already
  taken out of it whose \<open>connectDestroyed\<close> is still to run, the list \<open>D\<close>.  All of them are
  attached to the poller, no two share an address, a name or a channel, and the names in
  the map were made from identifiers below the next one.
\<close>

fun doomed_of :: "net_functor list \<Rightarrow> nat list" where
  "doomed_of [] = []"
| "doomed_of (ConnectDestroyed a # fs) = a # doomed_of fs"
| "doomed_of (_ # fs) = doomed_of fs"

lemma doomed_of_append [simp]: "doomed_of (fs @ gs) = doomed_of fs @ doomed_of gs"
  by (induction fs rule: doomed_of.induct) simp_all

definition member :: "'m net_state_scheme \<Rightarrow> nat \<Rightarrow> bool" where
  "member s a \<longleftrightarrow> (\<exists>c ch. conn_at s a c ch \<and> (state c = kConnected \<or> state c = kDisconnecting))"

definition name_at :: "'m net_state_scheme \<Rightarrow> nat \<Rightarrow> string" where
  "name_at s a = conn_name (the (conns s a))"

definition channel_at :: "'m net_state_scheme \<Rightarrow> nat \<Rightarrow> nat" where
  "channel_at s a = channel (the (conns s a))"

definition mapped :: "'m server_state_scheme \<Rightarrow> nat list" where
  "mapped s = map snd (connections s)"

definition server_inv :: "nat list \<Rightarrow> 'm server_state_scheme \<Rightarrow> bool" where
  "server_inv D s \<longleftrightarrow> poll_wf s \<and> sorted_wrt (<) (map fst (connections s))
     \<and> distinct (mapped s @ D) \<and> (\<forall>a \<in> set (mapped s @ D). member s a)
     \<and> inj_on (name_at s) (set (mapped s @ D)) \<and> inj_on (channel_at s) (set (mapped s @ D))
     \<and> (\<forall>(n, a) \<in> set (connections s). name_at s a = n)
     \<and> (\<forall>a \<in> set (mapped s @ D). \<exists>i. 1 \<le> i \<and> i < nextConnId s \<and> name_at s a = connection_name (server_name s) i)
     \<and> 1 \<le> nextConnId s \<and> loops (pool s) = [] \<and> baseLoop (pool s) = loopId s"

text \<open>The invariant of a server between two passes of its loop.\<close>

definition server_wf :: "'m server_state_scheme \<Rightarrow> bool" where
  "server_wf s \<longleftrightarrow> server_inv (doomed_of (pendingFunctors s)) s"

lemma server_invD:
  assumes "server_inv D s"
  shows "poll_wf s" "sorted_wrt (<) (map fst (connections s))" "distinct (mapped s @ D)"
    "\<And>a. a \<in> set (mapped s @ D) \<Longrightarrow> member s a"
    "inj_on (name_at s) (set (mapped s @ D))" "inj_on (channel_at s) (set (mapped s @ D))"
    "\<And>n a. (n, a) \<in> set (connections s) \<Longrightarrow> name_at s a = n"
    "1 \<le> nextConnId s" "loops (pool s) = []" "baseLoop (pool s) = loopId s"
    "\<And>a. a \<in> set (mapped s @ D) \<Longrightarrow>
      \<exists>i. 1 \<le> i \<and> i < nextConnId s \<and> name_at s a = connection_name (server_name s) i"
  using assms unfolding server_inv_def by auto

lemma memberE:
  assumes "member s a"
  obtains c ch where "conn_at s a c ch" "conns s a = Some c" "state c = kConnected \<or> state c = kDisconnecting"
    "name_at s a = conn_name c" "channel_at s a = channel c"
  using assms by (auto simp: member_def conn_at_def name_at_def channel_at_def)

text \<open>The server's own fields, seen through the frame of an operation on one connection.\<close>

lemma more_fields:
  assumes "net_state.more s' = net_state.more s"
  shows "connections s' = connections s" "nextConnId s' = nextConnId s" "server_name s' = server_name s"
    "pool s' = pool s" "listening s' = listening s" "acceptChannel s' = acceptChannel s" "posted s' = posted s"
    "server_started s' = server_started s" "hasWriteComplete s' = hasWriteComplete s"
    "server_state.more s' = server_state.more s"
  using assms by (cases s; cases s'; simp)+

text \<open>An operation that keeps the attached connections and their identities keeps the invariant.\<close>

lemma server_inv_transfer:
  assumes inv: "server_inv D s" and wf: "poll_wf s'"
    and fields: "connections s' = connections s" "nextConnId s' = nextConnId s" "server_name s' = server_name s"
      "pool s' = pool s" "loopId s' = loopId s"
    and sub: "distinct D'" "set D' \<subseteq> set D"
    and mem: "\<And>b. b \<in> set (mapped s @ D') \<Longrightarrow> member s' b"
    and same: "\<And>b. b \<in> set (mapped s @ D') \<Longrightarrow> name_at s' b = name_at s b \<and> channel_at s' b = channel_at s b"
  shows "server_inv D' s'"
proof -
  note i = server_invD [OF inv]
  have m: "mapped s' = mapped s" by (simp add: mapped_def fields)
  have ss: "set (mapped s @ D') \<subseteq> set (mapped s @ D)" using sub(2) by auto
  have "inj_on (name_at s') (set (mapped s @ D'))"
    using inj_on_subset [OF i(5) ss] same by (auto simp: inj_on_def)
  moreover have "inj_on (channel_at s') (set (mapped s @ D'))"
    using inj_on_subset [OF i(6) ss] same by (auto simp: inj_on_def)
  moreover have "name_at s' a = n" if "(n, a) \<in> set (connections s)" for n a
  proof -
    have "a \<in> set (mapped s @ D')" using that by (force simp: mapped_def)
    with same i(7) [OF that] show ?thesis by simp
  qed
  moreover have "\<exists>k. 1 \<le> k \<and> k < nextConnId s \<and> name_at s' a = connection_name (server_name s) k"
    if "a \<in> set (mapped s @ D')" for a
    using i(11) [of a] ss that same [OF that] by auto
  moreover have "distinct (mapped s @ D')" using i(3) sub by auto
  ultimately show ?thesis
    unfolding server_inv_def m fields using i wf mem by auto
qed

lemma server_inv_frame:
  assumes inv: "server_inv D s" and a: "a \<in> set (mapped s @ D)" and c: "conns s a = Some c"
    and fr: "frame a c c' s s'" and c': "conn_at s' a c' ch'" "state c' = kConnected \<or> state c' = kDisconnecting"
  shows "server_inv D s'"
proof (rule server_inv_transfer [OF inv])
  note i = server_invD [OF inv]
  have more: "net_state.more s' = net_state.more s" using fr by (simp add: frame_def)
  show "poll_wf s'" using c'(1) by (simp add: conn_at_def)
  show "connections s' = connections s" "nextConnId s' = nextConnId s" "server_name s' = server_name s" "pool s' = pool s"
    using more_fields [OF more] by simp_all
  show "loopId s' = loopId s" using fr by (simp add: frame_def)
  show "distinct D" using i(3) by simp
  fix b assume b: "b \<in> set (mapped s @ D)"
  show "member s' b"
  proof (cases "b = a")
    case True
    with c' show ?thesis by (auto simp: member_def)
  next
    case False
    obtain c2 ch2 where c2: "conn_at s b c2 ch2" "state c2 = kConnected \<or> state c2 = kDisconnecting"
        "channel_at s b = channel c2" by (rule memberE [OF i(4) [OF b]])
    have "channel c2 \<noteq> channel c"
      using inj_onD [OF i(6), of b a] a b False c c2(3) by (auto simp: channel_at_def)
    then have "conn_at s' b c2 ch2" using fr c2(1) False by (simp add: frame_def)
    with c2(2) show ?thesis by (auto simp: member_def)
  qed
  show "name_at s' b = name_at s b \<and> channel_at s' b = channel_at s b"
    using fr c by (simp add: frame_def name_at_def channel_at_def)
qed simp

subsection \<open>Removing a connection\<close>

lemma mappedE:
  assumes "a \<in> set (mapped s)" and "server_inv D s"
  shows "(name_at s a, a) \<in> set (connections s)"
  using assms server_invD(7) [OF assms(2)] by (force simp: mapped_def)

lemma name_in_map:
  assumes inv: "server_inv D s" and a: "a \<in> set (mapped s @ D)"
  shows "name_at s a \<in> fst ` set (connections s) \<longleftrightarrow> a \<in> set (mapped s)"
proof
  assume "name_at s a \<in> fst ` set (connections s)"
  then obtain b where b: "(name_at s a, b) \<in> set (connections s)" by force
  have bm: "b \<in> set (mapped s)" using b by (force simp: mapped_def)
  have "name_at s b = name_at s a" using server_invD(7) [OF inv b] .
  then have "b = a" using inj_onD [OF server_invD(5) [OF inv], of b a] a bm by simp
  with bm show "a \<in> set (mapped s)" by simp
next
  assume "a \<in> set (mapped s)"
  then show "name_at s a \<in> fst ` set (connections s)" using mappedE [OF _ inv] by force
qed

lemma erase_mapped:
  assumes inv: "server_inv D s" and a: "a \<in> set (mapped s)"
  shows "snd (map_erase (name_at s a) (connections s)) = filter (\<lambda>p. snd p \<noteq> a) (connections s)"
  unfolding map_erase_def snd_conv
proof (rule filter_cong)
  fix p assume p: "p \<in> set (connections s)"
  obtain n b where nb: "p = (n, b)" by (cases p)
  have n: "name_at s b = n" using server_invD(7) [OF inv] p nb by blast
  have "b \<in> set (mapped s @ D)" "a \<in> set (mapped s @ D)" using p nb a by (force simp: mapped_def)+
  then show "(fst p \<noteq> name_at s a) = (snd p \<noteq> a)"
    using inj_onD [OF server_invD(5) [OF inv], of b a] n nb by auto
qed simp

lemma remove_mapped:
  assumes inv: "server_inv D s" and a: "a \<in> set (mapped s)"
  shows "\<exists>s'. removeConnectionInLoop a s = Inr s' \<and> server_inv (D @ [a]) s'
    \<and> pendingFunctors s' = pendingFunctors s @ [ConnectDestroyed a]
    \<and> connections s' = filter (\<lambda>p. snd p \<noteq> a) (connections s)
    \<and> (\<forall>b c ch. conn_at s' b c ch = conn_at s b c ch) \<and> server_state.more s' = server_state.more s
    \<and> wire s' = wire s \<and> shut s' = shut s \<and> conns s' = conns s \<and> calls s' = calls s"
proof -
  note i = server_invD [OF inv]
  let ?m = "filter (\<lambda>p. snd p \<noteq> a) (connections s)"
  let ?s = "queueInLoop True (ConnectDestroyed a) (s\<lparr>connections := ?m\<rparr>)"
  obtain c ch where c: "conn_at s a c ch" "conns s a = Some c" "name_at s a = conn_name c"
    using memberE [OF i(4)] a by (metis UnI1 set_append)
  have "fst (map_erase (conn_name c) (connections s)) = 1"
    using map_erase_count [OF sorted_keys_distinct [OF i(2)]] name_in_map [OF inv, of a] a c(3) by simp
  then have er: "map_erase (conn_name c) (connections s) = (1, ?m)"
    using erase_mapped [OF inv a] c(3) by (metis prod.collapse)
  have loop: "conn_loop c = loopId s" using c(1) by (simp add: conn_at_def)
  have run: "removeConnectionInLoop a s = Inr ?s"
    unfolding removeConnectionInLoop_def with_conn_def using c(2) er loop by (simp add: queue_in_def)
  have f: "connections ?s = ?m" "nextConnId ?s = nextConnId s" "server_name ?s = server_name s" "pool ?s = pool s"
    "server_state.more ?s = server_state.more s"
    by (simp_all add: queueInLoop_def push_functor_def wakeup_def Let_def)
  have at: "conn_at ?s b c ch = conn_at s b c ch" for b c ch by (rule conn_at_cong) simp_all
  have m: "mapped ?s = removeAll a (mapped s)"
    unfolding mapped_def f(1) by (simp add: removeAll_filter_not_eq filter_map comp_def eq_commute)
  have set_eq: "set (mapped ?s @ D @ [a]) = set (mapped s @ D)" using a m by auto
  have same: "name_at ?s = name_at s" "channel_at ?s = channel_at s" "member ?s = member s"
    by (simp_all add: name_at_def channel_at_def member_def at fun_eq_iff)
  have "server_inv (D @ [a]) ?s"
    unfolding server_inv_def set_eq same f
  proof (intro conjI)
    show "poll_wf ?s" using i(1) poll_cong(1) [of ?s s] by simp
    show "sorted_wrt (<) (map fst ?m)" using i(2) by (simp add: sorted_wrt_map sorted_wrt_filter)
    show "distinct (mapped ?s @ D @ [a])" using i(3) a m by (auto simp: distinct_removeAll)
  qed (use i a in auto)
  with run at f(1,5) show ?thesis by auto
qed

text \<open>A connection that is no longer in the map cannot be removed again.\<close>

lemma remove_doomed:
  assumes inv: "server_inv D s" and a: "a \<in> set D"
  shows "removeConnectionInLoop a s = Inl Assert_failed"
proof -
  note i = server_invD [OF inv]
  obtain c where c: "conns s a = Some c" "name_at s a = conn_name c"
    using memberE [OF i(4)] a by (metis UnI2 set_append)
  have "a \<notin> set (mapped s)" using i(3) a by auto
  then have "name_at s a \<notin> fst ` set (connections s)" using name_in_map [OF inv, of a] a by simp
  then have "fst (map_erase (conn_name c) (connections s)) = 0"
    using map_erase_count [OF sorted_keys_distinct [OF i(2)]] c(2) by simp
  then show ?thesis
    unfolding removeConnectionInLoop_def with_conn_def using c(1) by (auto simp: Let_def split: prod.split)
qed

subsection \<open>Destroying a removed connection\<close>

text \<open>
  A connection callback is quiet about a connection that is down if it changes nothing
  then, as the callback of the application, which only prints a line.
\<close>

definition quiet_when_down :: "(nat \<Rightarrow> 'm net_state_scheme \<Rightarrow> 'm net_state_scheme res) \<Rightarrow> bool" where
  "quiet_when_down cb \<longleftrightarrow> (\<forall>a s c. conns s a = Some c \<longrightarrow> state c = kDisconnected \<longrightarrow> cb a s = Inr s)"

lemma removeChannel_others:
  assumes c: "conn_at s a c ch" and off: "events ch = 0" "pfd_fd (entry s ch) = - fd ch - 1" "pfd_events (entry s ch) = 0"
  shows "\<exists>s'. EventLoop_removeChannel (channel c) s = Inr s' \<and> poll_wf s' \<and> channels s' (fd ch) \<noteq> Some (channel c)
    \<and> (\<exists>m st p. s' = s\<lparr>channels := m, store := st, pollfds := p\<rparr>)
    \<and> (\<forall>b c2 ch2. channel c2 \<noteq> channel c \<longrightarrow> conn_at s b c2 ch2 \<longrightarrow> (\<exists>i. conn_at s' b c2 (ch2\<lparr>index := i\<rparr>)))"
proof -
  have wf: "poll_wf s" and at: "attached s (channel c) ch" and own: "loopOf ch = loopId s"
    using c by (simp_all add: conn_at_def)
  obtain s' where s': "EventLoop_removeChannel (channel c) s = Inr s'" "poll_wf s'"
      "\<And>c'. fd c' = fd ch \<Longrightarrow> \<not> attached s' (channel c) c'"
      "\<And>k ck. k \<noteq> channel c \<Longrightarrow> attached s k ck \<Longrightarrow> \<exists>i. attached s' k (ck\<lparr>index := i\<rparr>)"
    using pw.remove_ok [OF wf at own off] by blast
  obtain m st p where fr: "s' = s\<lparr>channels := m, store := st, pollfds := p\<rparr>"
    using removeChannel_frame [OF s'(1)] by blast
  have "channels s' (fd ch) \<noteq> Some (channel c)"
  proof
    assume "channels s' (fd ch) = Some (channel c)"
    then obtain c' where "attached s' (channel c) c'" "fd c' = fd ch" by (rule channelsD [OF s'(2)])
    with s'(3) show False by blast
  qed
  moreover have "\<exists>i. conn_at s' b c2 (ch2\<lparr>index := i\<rparr>)" if "channel c2 \<noteq> channel c" "conn_at s b c2 ch2" for b c2 ch2
    using s'(4) [of "channel c2" ch2] that s'(2) fr by (auto simp: conn_at_def)
  ultimately show ?thesis using s'(1,2) fr by blast
qed

lemma connectDestroyed_run:
  assumes c: "conn_at s a c ch" "state c = kConnected \<or> state c = kDisconnecting" and cb: "quiet_when_down cb"
  obtains s' where "connectDestroyed cb a s = Inr s'" and "poll_wf s'" and "channels s' (fd ch) \<noteq> Some (channel c)"
    and "conns s' = (conns s)(a \<mapsto> c\<lparr>state := kDisconnected\<rparr>)" and "net_state.more s' = net_state.more s"
    and "loopId s' = loopId s" and "pendingFunctors s' = pendingFunctors s" and "wire s' = wire s"
    and "callingPendingFunctors s' = callingPendingFunctors s"
    and "\<forall>b c2 ch2. b \<noteq> a \<longrightarrow> channel c2 \<noteq> channel c \<longrightarrow> conn_at s b c2 ch2 \<longrightarrow> (\<exists>i. conn_at s' b c2 (ch2\<lparr>index := i\<rparr>))"
proof -
  let ?c = "c\<lparr>state := kDisconnected\<rparr>" and ?ch = "ch\<lparr>events := kNoneEvent\<rparr>"
  let ?s1 = "set_conn a ?c s"
  have cs: "conns s a = Some c" using c(1) by (simp add: conn_at_def)
  have c1: "conn_at ?s1 a ?c ch"
    by (rule conn_at_local [OF c(1)]) (use c(1) in \<open>simp_all add: set_conn_def conn_at_def\<close>)
  have fr1: "frame a c ?c s ?s1" by (rule frame_local) (simp_all add: set_conn_def)
  obtain s2 p where s2: "disableAll (channel c) ?s1 = Inr s2" "conn_at s2 a ?c ?ch" "frame a ?c ?c ?s1 s2"
      "s2 = ?s1\<lparr>store := (store ?s1)(channel ?c \<mapsto> ?ch), pollfds := (pollfds ?s1)[nat (index ch) := p]\<rparr>"
    using conn_setEvents [OF c1, of "\<lambda>_. kNoneEvent"] by (auto simp: disableAll_def)
  have off: "events ?ch = 0" "pfd_fd (entry s2 ?ch) = - fd ?ch - 1" "pfd_events (entry s2 ?ch) = 0"
    using pw.set_ok [of ?s1 "channel c" ch "\<lambda>_. kNoneEvent"] c1 s2(1)
    by (simp_all add: conn_at_def disableAll_def kNoneEvent_def)
  obtain s3 where s3: "EventLoop_removeChannel (channel c) s2 = Inr s3" "poll_wf s3" "channels s3 (fd ch) \<noteq> Some (channel c)"
      "\<exists>m st p. s3 = s2\<lparr>channels := m, store := st, pollfds := p\<rparr>"
      "\<And>b c2 ch2. channel c2 \<noteq> channel c \<Longrightarrow> conn_at s2 b c2 ch2 \<Longrightarrow> \<exists>i. conn_at s3 b c2 (ch2\<lparr>index := i\<rparr>)"
    using removeChannel_others [OF s2(2) off] that by simp blast
  have "conns s2 a = Some ?c" using s2(2) by (simp add: conn_at_def)
  then have "cb a s2 = Inr s2" using cb by (simp add: quiet_when_down_def)
  then have run: "connectDestroyed cb a s = Inr s3"
    unfolding connectDestroyed_def with_conn_def using cs c(2) s2(1) s3(1) by simp
  have fr: "frame a c ?c s s2" using fr1 s2(3) by (rule frame_trans)
  show thesis
    by (rule that [OF run s3(2,3)]) (use s3(4,5) s2(4) fr in \<open>auto simp: set_conn_def frame_def\<close>)
qed

lemma destroy_doomed:
  assumes inv: "server_inv (a # D) s" and cb: "quiet_when_down cb"
  shows "\<exists>s' c. connectDestroyed cb a s = Inr s' \<and> server_inv D s'
    \<and> conns s a = Some c \<and> conns s' = (conns s)(a \<mapsto> c\<lparr>state := kDisconnected\<rparr>)
    \<and> channels s' (socket c) \<noteq> Some (channel c)
    \<and> pendingFunctors s' = pendingFunctors s \<and> connections s' = connections s
    \<and> server_state.more s' = server_state.more s \<and> wire s' = wire s \<and> callingPendingFunctors s' = callingPendingFunctors s"
proof -
  note i = server_invD [OF inv]
  obtain c ch where c: "conn_at s a c ch" "conns s a = Some c" "state c = kConnected \<or> state c = kDisconnecting"
    using memberE [OF i(4)] by (metis UnI2 list.set_intros(1) set_append)
  obtain s3 where s3: "connectDestroyed cb a s = Inr s3" "poll_wf s3" "channels s3 (fd ch) \<noteq> Some (channel c)"
      "conns s3 = (conns s)(a \<mapsto> c\<lparr>state := kDisconnected\<rparr>)" "net_state.more s3 = net_state.more s"
      "loopId s3 = loopId s" "pendingFunctors s3 = pendingFunctors s" "wire s3 = wire s"
      "callingPendingFunctors s3 = callingPendingFunctors s"
      "\<forall>b c2 ch2. b \<noteq> a \<longrightarrow> channel c2 \<noteq> channel c \<longrightarrow> conn_at s b c2 ch2 \<longrightarrow> (\<exists>i. conn_at s3 b c2 (ch2\<lparr>index := i\<rparr>))"
    using connectDestroyed_run [OF c(1,3) cb] .
  note more = more_fields [OF s3(5)]
  have na: "a \<notin> set (mapped s @ D)" using i(3) by auto
  have "server_inv D s3"
  proof (rule server_inv_transfer [OF inv s3(2)])
    show "connections s3 = connections s" "nextConnId s3 = nextConnId s" "server_name s3 = server_name s"
      "pool s3 = pool s" "loopId s3 = loopId s" using more s3(6) by simp_all
    show "distinct D" "set D \<subseteq> set (a # D)" using i(3) by auto
    fix b assume b: "b \<in> set (mapped s @ D)"
    then have ba: "b \<noteq> a" using na by blast
    obtain c2 ch2 where c2: "conn_at s b c2 ch2" "state c2 = kConnected \<or> state c2 = kDisconnecting"
        "channel_at s b = channel c2" using memberE [OF i(4)] b by (metis Un_iff list.set_intros(2) set_append)
    have "channel_at s a = channel c" using c(2) by (simp add: channel_at_def)
    then have "channel c2 \<noteq> channel c" using inj_onD [OF i(6), of b a] b ba c2(3) by auto
    then show "member s3 b" using s3(10) ba c2(1,2) unfolding member_def by blast
    show "name_at s3 b = name_at s b \<and> channel_at s3 b = channel_at s b"
      using s3(4) ba by (simp add: name_at_def channel_at_def)
  qed
  moreover have "fd ch = socket c" using c(1) by (simp add: conn_at_def)
  ultimately show ?thesis using s3 c(2) more by auto
qed

subsection \<open>Accepting a connection\<close>

lemma poll_wf_alloc:
  assumes wf: "poll_wf ps" and "store ps ch = None"
  shows "poll_wf (ps\<lparr>store := (store ps)(ch \<mapsto> c)\<rparr>)"
proof (rule poll_wfI)
  fix f k assume "channels (ps\<lparr>store := (store ps)(ch \<mapsto> c)\<rparr>) f = Some k"
  then have "channels ps f = Some k" by simp
  then obtain ck where ck: "attached ps k ck" "fd ck = f" by (rule channelsD [OF wf])
  with attachedD [OF wf ck(1)] assms(2)
  show "\<exists>ck. store (ps\<lparr>store := (store ps)(ch \<mapsto> c)\<rparr>) k = Some ck \<and> fd ck = f \<and> 0 \<le> f \<and> 0 \<le> index ck
      \<and> nat (index ck) < length (pollfds (ps\<lparr>store := (store ps)(ch \<mapsto> c)\<rparr>))
      \<and> entry_of f (entry (ps\<lparr>store := (store ps)(ch \<mapsto> c)\<rparr>) ck)"
    by (auto simp: attached_def entry_def)
next
  fix i assume "i < length (pollfds (ps\<lparr>store := (store ps)(ch \<mapsto> c)\<rparr>))"
  then have "i < length (pollfds ps)" by simp
  then obtain k ck where "attached ps k ck" "index ck = int i" by (rule slotD [OF wf])
  with assms(2) show "\<exists>k ck. attached (ps\<lparr>store := (store ps)(ch \<mapsto> c)\<rparr>) k ck \<and> index ck = int i"
    by (intro exI [of _ k] exI [of _ ck]) (auto simp: attached_def)
qed

text \<open>
  The addresses of the new objects are not in use, and the descriptor is one that the
  poller does not watch.
\<close>

definition fresh_for :: "nat \<times> nat \<Rightarrow> int \<Rightarrow> 'm net_state_scheme \<Rightarrow> bool" where
  "fresh_for addrs sockfd s \<longleftrightarrow> conns s (fst addrs) = None \<and> store s (snd addrs) = None
     \<and> 0 \<le> sockfd \<and> channels s sockfd = None"

definition new_channel :: "'m net_state_scheme \<Rightarrow> nat \<Rightarrow> int \<Rightarrow> net_callback Channel" where
  "new_channel s a sockfd = \<lparr>eventHandling = False, loopOf = loopId s, fd = sockfd, events = kReadEvent, revents = 0,
     index = int (length (pollfds s)), readCallback = Some (ConnRead a), writeCallback = Some (ConnWrite a),
     errorCallback = Some (ConnError a), closeCallback = Some (ConnClose a)\<rparr>"

definition new_conn :: "'m server_state_scheme \<Rightarrow> nat \<Rightarrow> sockaddr_in option \<Rightarrow> int \<Rightarrow> sockaddr_in \<Rightarrow> TcpConnection" where
  "new_conn s ch sockname sockfd peer =
     (TcpConnection_new (loopId s) (connection_name (server_name s) (nextConnId s)) sockfd ch
       (fst (getLocalAddr sockname)) peer)\<lparr>writeCompleteCallback := hasWriteComplete s, state := kConnected\<rparr>"

lemma new_conn_fields [simp]:
  "channel (new_conn s ch n f p) = ch" "socket (new_conn s ch n f p) = f" "state (new_conn s ch n f p) = kConnected"
  "conn_name (new_conn s ch n f p) = connection_name (server_name s) (nextConnId s)"
  "conn_loop (new_conn s ch n f p) = loopId s" "inputBuffer (new_conn s ch n f p) = Buffer_new"
  "outputBuffer (new_conn s ch n f p) = Buffer_new" "peerAddr (new_conn s ch n f p) = p"
  by (simp_all add: new_conn_def TcpConnection_new_def)

text \<open>The state in which the connection callback of an accepted connection runs.\<close>

definition accepted :: "'m server_state_scheme \<Rightarrow> nat \<Rightarrow> nat \<Rightarrow> sockaddr_in option \<Rightarrow> int \<Rightarrow> sockaddr_in \<Rightarrow>
    'm server_state_scheme" where
  "accepted s a ch sockname sockfd peer =
     s\<lparr>store := (store s)(ch \<mapsto> new_channel s a sockfd),
       pollfds := pollfds s @ [\<lparr>pfd_fd = sockfd, pfd_events = ucast kReadEvent, pfd_revents = 0\<rparr>],
       channels := (channels s)(sockfd \<mapsto> ch),
       conns := (conns s)(a \<mapsto> new_conn s ch sockname sockfd peer), nextConnId := nextConnId s + 1,
       connections := map_put (connection_name (server_name s) (nextConnId s)) a (connections s)\<rparr>"

lemma newConnection_run:
  assumes inv: "server_inv D s" and id: "nextConnId s < 2147483647" and fresh: "fresh_for (a, ch) sockfd s"
  shows "newConnection cb (a, ch) sockname sockfd peer s = cb a (accepted s a ch sockname sockfd peer)"
    and "poll_wf (accepted s a ch sockname sockfd peer)"
    and "conn_at (accepted s a ch sockname sockfd peer) a (new_conn s ch sockname sockfd peer) (new_channel s a sockfd)"
proof -
  note i = server_invD [OF inv]
  let ?s' = "accepted s a ch sockname sockfd peer"
  let ?c0 = "(Channel_new (loopId s) sockfd)\<lparr>readCallback := Some (ConnRead a), writeCallback := Some (ConnWrite a),
      closeCallback := Some (ConnClose a), errorCallback := Some (ConnError a)\<rparr>"
  let ?s1 = "s\<lparr>nextConnId := nextConnId s + 1, store := (store s)(ch \<mapsto> ?c0),
      connections := map_put (connection_name (server_name s) (nextConnId s)) a (connections s),
      conns := (conns s)(a \<mapsto> new_conn s ch sockname sockfd peer)\<rparr>"
  have "poll_wf (s\<lparr>store := (store s)(ch \<mapsto> ?c0)\<rparr>)" using i(1) fresh by (simp add: poll_wf_alloc fresh_for_def)
  then have wf1: "poll_wf ?s1" using poll_cong(1) [of ?s1 "s\<lparr>store := (store s)(ch \<mapsto> ?c0)\<rparr>"] by simp
  have "\<exists>s2. Channel_setEvents (\<lambda>c. events c OR kReadEvent) ch ?s1 = Inr s2 \<and> poll_wf s2 \<and> s2 = ?s'"
    using setEvents_new [OF wf1, of ch ?c0 "\<lambda>c. events c OR kReadEvent"] fresh
    by (simp add: fresh_for_def Channel_new_def accepted_def new_channel_def)
  then have en: "enableReading ch ?s1 = Inr ?s'" and wf: "poll_wf ?s'" by (simp_all add: enableReading_def)
  show "poll_wf ?s'" by (fact wf)
  show "newConnection cb (a, ch) sockname sockfd peer s = cb a ?s'"
    using en id i(9,10)
    by (simp add: newConnection_def getNextLoop_def int_inc_def TcpConnection_ctor_def with_conn_def run_in_def
        runInLoop_def connectEstablished_def set_conn_def TcpConnection_new_def new_conn_def Let_def)
  show "conn_at ?s' a (new_conn s ch sockname sockfd peer) (new_channel s a sockfd)"
    using wf buf_wf_new by (simp add: conn_at_def accepted_def attached_def new_channel_def)
qed

lemma accepted_others:
  assumes inv: "server_inv D s" and id: "nextConnId s < 2147483647" and fresh: "fresh_for (a, ch) sockfd s"
    and "b \<noteq> a" and "conn_at s b c2 ch2"
  shows "conn_at (accepted s a ch sockname sockfd peer) b c2 ch2"
proof -
  have "channel c2 \<noteq> ch" "fd ch2 \<noteq> sockfd"
    using assms(5) fresh by (auto simp: conn_at_def attached_def fresh_for_def)
  with assms(4,5) newConnection_run(2) [OF inv id fresh, of sockname peer]
  show ?thesis by (auto simp: conn_at_def attached_def accepted_def)
qed

lemma accepted_new_name:
  assumes inv: "server_inv D s" and id: "nextConnId s < 2147483647"
  shows "b \<in> set (mapped s @ D) \<Longrightarrow> name_at s b \<noteq> connection_name (server_name s) (nextConnId s)"
    and "connection_name (server_name s) (nextConnId s) \<notin> fst ` set (connections s)"
proof -
  note i = server_invD [OF inv]
  show ne: "name_at s b \<noteq> connection_name (server_name s) (nextConnId s)" if b: "b \<in> set (mapped s @ D)" for b
  proof -
    obtain k where k: "1 \<le> k" "k < nextConnId s" "name_at s b = connection_name (server_name s) k"
      using i(11) [OF b] by blast
    then show ?thesis using id connection_name_inject [of k "nextConnId s" "server_name s"] by simp
  qed
  show "connection_name (server_name s) (nextConnId s) \<notin> fst ` set (connections s)"
  proof
    assume "connection_name (server_name s) (nextConnId s) \<in> fst ` set (connections s)"
    then obtain b where b: "(connection_name (server_name s) (nextConnId s), b) \<in> set (connections s)" by force
    then have "b \<in> set (mapped s @ D)" by (force simp: mapped_def)
    with ne i(7) [OF b] show False by blast
  qed
qed

lemma accepted_mapped:
  assumes inv: "server_inv D s" and id: "nextConnId s < 2147483647" and fresh: "fresh_for (a, ch) sockfd s"
  shows "a \<notin> set (mapped s @ D)" and "set (mapped (accepted s a ch sockname sockfd peer)) = insert a (set (mapped s))"
    and "distinct (mapped (accepted s a ch sockname sockfd peer) @ D)"
    and "set (connections (accepted s a ch sockname sockfd peer))
       = insert (connection_name (server_name s) (nextConnId s), a) (set (connections s))"
proof -
  note i = server_invD [OF inv]
  let ?s' = "accepted s a ch sockname sockfd peer"
  show na: "a \<notin> set (mapped s @ D)"
    using i(4) [of a] fresh by (auto simp: fresh_for_def member_def conn_at_def)
  note keys = accepted_new_name(2) [OF inv id]
  show cset: "set (connections ?s') = insert (connection_name (server_name s) (nextConnId s), a) (set (connections s))"
    using map_put_set [OF keys] by (simp add: accepted_def)
  show ms: "set (mapped ?s') = insert a (set (mapped s))" using cset by (simp add: mapped_def)
  have "length (map_put k v m) = Suc (length m)" if "k \<notin> fst ` set m" for k :: string and v :: nat and m
    using that by (induction m) auto
  with keys have len: "length (mapped ?s') = Suc (length (mapped s))" by (simp add: mapped_def accepted_def)
  have "card (set (mapped ?s')) = Suc (card (set (mapped s)))" using ms na by simp
  also have "\<dots> = length (mapped ?s')" using len i(3) distinct_card [of "mapped s"] by simp
  finally have "distinct (mapped ?s')" by (rule card_distinct)
  with i(3) na ms show "distinct (mapped ?s' @ D)" by auto
qed

text \<open>After accepting, every connection is alive and has a name that was given out.\<close>

lemma accepted_names:
  "b \<noteq> a \<Longrightarrow> name_at (accepted s a ch sockname sockfd peer) b = name_at s b"
  "b \<noteq> a \<Longrightarrow> channel_at (accepted s a ch sockname sockfd peer) b = channel_at s b"
  "name_at (accepted s a ch sockname sockfd peer) a = connection_name (server_name s) (nextConnId s)"
  "channel_at (accepted s a ch sockname sockfd peer) a = ch"
  by (simp_all add: name_at_def channel_at_def accepted_def)

lemma accepted_member:
  assumes inv: "server_inv D s" and id: "nextConnId s < 2147483647" and fresh: "fresh_for (a, ch) sockfd s"
    and b: "b \<in> insert a (set (mapped s @ D))"
  shows "member (accepted s a ch sockname sockfd peer) b"
    and "\<exists>k. 1 \<le> k \<and> k < nextConnId (accepted s a ch sockname sockfd peer)
      \<and> name_at (accepted s a ch sockname sockfd peer) b = connection_name (server_name s) k"
proof -
  note i = server_invD [OF inv] and nm = accepted_names [where a = a and s = s and ch = ch and sockname = sockname and sockfd = sockfd and peer = peer]
  have nx: "nextConnId (accepted s a ch sockname sockfd peer) = nextConnId s + 1" by (simp add: accepted_def)
  show "member (accepted s a ch sockname sockfd peer) b"
  proof (cases "b = a")
    case True
    with newConnection_run(3) [OF inv id fresh, of sockname peer] show ?thesis unfolding member_def by force
  next
    case False
    then obtain c2 ch2 where "conn_at s b c2 ch2" "state c2 = kConnected \<or> state c2 = kDisconnecting"
      using memberE [OF i(4)] b by (metis insertE)
    with accepted_others [OF inv id fresh False] show ?thesis unfolding member_def by blast
  qed
  show "\<exists>k. 1 \<le> k \<and> k < nextConnId (accepted s a ch sockname sockfd peer)
      \<and> name_at (accepted s a ch sockname sockfd peer) b = connection_name (server_name s) k"
  proof (cases "b = a")
    case True
    then show ?thesis using nm(3) i(8) nx by (intro exI [of _ "nextConnId s"]) simp
  next
    case False
    then obtain k where "1 \<le> k" "k < nextConnId s" "name_at s b = connection_name (server_name s) k"
      using i(11) b by (metis insertE)
    with nm(1) [OF False] nx show ?thesis by (intro exI [of _ k]) simp
  qed
qed

lemma accepted_inv:
  assumes inv: "server_inv D s" and id: "nextConnId s < 2147483647" and fresh: "fresh_for (a, ch) sockfd s"
  shows "server_inv D (accepted s a ch sockname sockfd peer)"
proof -
  note i = server_invD [OF inv]
  let ?s' = "accepted s a ch sockname sockfd peer" and ?nm = "connection_name (server_name s) (nextConnId s)"
  note run = newConnection_run(2,3) [OF inv id fresh, of sockname peer]
  note m = accepted_mapped(1) [OF inv id fresh] accepted_mapped(2-4) [OF inv id fresh, of sockname peer]
  have sets: "set (mapped ?s' @ D) = insert a (set (mapped s @ D))" using m(2) by auto
  note nm = accepted_names [where a = a and s = s and ch = ch and sockname = sockname and sockfd = sockfd and peer = peer]
  have chan: "channel_at s b \<noteq> ch" if "b \<in> set (mapped s @ D)" for b
    using i(4) [OF that] fresh by (auto simp: fresh_for_def member_def conn_at_def attached_def channel_at_def)
  have sn: "server_name ?s' = server_name s" by (simp add: accepted_def)
  note mem = accepted_member [OF inv id fresh, of _ sockname peer]
  have "name_at ?s' b = n" if "(n, b) \<in> set (connections ?s')" for n b
  proof (cases "b = a")
    case True
    have "(n, a) \<notin> set (connections s)" using m(1) by (force simp: mapped_def)
    with True that m(4) nm(3) show ?thesis by simp
  next
    case False
    with that m(4) i(7) nm(1) show ?thesis by auto
  qed
  moreover have "inj_on (name_at ?s') (insert a (set (mapped s @ D)))"
    using i(5) m(1) accepted_new_name(1) [OF inv id] nm(1,3) unfolding inj_on_def by (metis insert_iff)
  moreover have "inj_on (channel_at ?s') (insert a (set (mapped s @ D)))"
    using i(6) m(1) chan nm(2,4) unfolding inj_on_def by (metis insert_iff)
  moreover have "sorted_wrt (<) (map fst (connections ?s'))" using map_put_sorted [OF i(2)] by (simp add: accepted_def)
  moreover have "1 \<le> nextConnId ?s'" "loops (pool ?s') = []" "baseLoop (pool ?s') = loopId ?s'"
    using i(8-10) by (simp_all add: accepted_def)
  ultimately show ?thesis
    unfolding server_inv_def sets sn using run(1) m(3) mem by blast
qed

subsection \<open>Running the queued destructions\<close>

text \<open>What the loop's functors mean; the callbacks that the application leaves unset do nothing.\<close>

fun run_functor :: "kernel \<Rightarrow> (nat \<Rightarrow> 'm server_state_scheme \<Rightarrow> 'm server_state_scheme res) \<Rightarrow>
    net_functor \<Rightarrow> 'm server_state_scheme \<Rightarrow> 'm server_state_scheme res" where
  "run_functor K cb (ConnectEstablished a) s = connectEstablished cb a s"
| "run_functor K cb (ConnectDestroyed a) s = connectDestroyed cb a s"
| "run_functor K cb (WriteComplete a) s = Inr s"
| "run_functor K cb (SendInLoop a m) s = sendInLoop K m a s"
| "run_functor K cb (ShutdownInLoop a) s = shutdownInLoop a s"
| "run_functor K cb (RemoveConnectionInLoop a) s = removeConnectionInLoop a s"
| "run_functor K cb AcceptorListen s = Acceptor_listen s"

lemma destroy_all:
  assumes "server_inv (D @ E) s" and "quiet_when_down cb"
  shows "\<exists>s'. foldR (run_functor K cb) (map ConnectDestroyed D) s = Inr s' \<and> server_inv E s'
    \<and> pendingFunctors s' = pendingFunctors s \<and> connections s' = connections s \<and> wire s' = wire s
    \<and> server_state.more s' = server_state.more s \<and> callingPendingFunctors s' = callingPendingFunctors s
    \<and> (\<forall>a. conns s' a = (if a \<in> set D then map_option (\<lambda>c. c\<lparr>state := kDisconnected\<rparr>) (conns s a) else conns s a))"
  using assms(1)
proof (induction D arbitrary: s)
  case Nil
  then show ?case by simp
next
  case (Cons a D)
  have inv: "server_inv (a # D @ E) s" using Cons.prems by simp
  obtain s1 c where s1: "connectDestroyed cb a s = Inr s1" "server_inv (D @ E) s1" "conns s a = Some c"
      "conns s1 = (conns s)(a \<mapsto> c\<lparr>state := kDisconnected\<rparr>)" "pendingFunctors s1 = pendingFunctors s"
      "connections s1 = connections s" "wire s1 = wire s" "server_state.more s1 = server_state.more s"
      "callingPendingFunctors s1 = callingPendingFunctors s"
    using destroy_doomed [OF inv assms(2)] by blast
  have na: "a \<notin> set D" using server_invD(3) [OF inv] by auto
  from Cons.IH [OF s1(2)] s1 na show ?case by auto
qed

lemma server_inv_cong:
  assumes "server_inv D s" and "store s' = store s" "pollfds s' = pollfds s" "channels s' = channels s"
    "loopId s' = loopId s" "conns s' = conns s" "net_state.more s' = net_state.more s"
  shows "server_inv D s'"
proof (rule server_inv_transfer [OF assms(1)])
  show "poll_wf s'" using server_invD(1) [OF assms(1)] poll_cong(1) [OF assms(2-4)] by simp
  show "connections s' = connections s" "nextConnId s' = nextConnId s" "server_name s' = server_name s" "pool s' = pool s"
    using more_fields [OF assms(7)] by simp_all
  show "distinct D" using server_invD(3) [OF assms(1)] by simp
  fix b assume "b \<in> set (mapped s @ D)"
  then show "member s' b"
    using server_invD(4) [OF assms(1)] conn_at_cong [OF assms(2-5)] assms(6) unfolding member_def by metis
  show "name_at s' b = name_at s b \<and> channel_at s' b = channel_at s b"
    using assms(6) by (simp add: name_at_def channel_at_def)
qed (use assms(5) in auto)

lemma doPending_destroys:
  assumes "server_wf s" and "pendingFunctors s = map ConnectDestroyed D" and "quiet_when_down cb"
  shows "\<exists>s'. doPendingFunctors (run_functor K cb) s = Inr s' \<and> server_inv [] s' \<and> pendingFunctors s' = []
    \<and> connections s' = connections s \<and> wire s' = wire s \<and> server_state.more s' = server_state.more s
    \<and> (\<forall>a \<in> set D. \<exists>c. conns s' a = Some c \<and> state c = kDisconnected)"
proof -
  have dd: "doomed_of (map ConnectDestroyed D) = D" by (induction D) simp_all
  let ?s2 = "s\<lparr>callingPendingFunctors := True, pendingFunctors := []\<rparr>"
  have "server_inv (D @ []) s" using assms(1,2) dd by (simp add: server_wf_def)
  then have inv: "server_inv (D @ []) ?s2" by (rule server_inv_cong) simp_all
  obtain s3 where s3: "foldR (run_functor K cb) (map ConnectDestroyed D) ?s2 = Inr s3" "server_inv [] s3"
      "pendingFunctors s3 = []" "connections s3 = connections s" "wire s3 = wire s" "server_state.more s3 = server_state.more s"
      "\<And>a. conns s3 a = (if a \<in> set D then map_option (\<lambda>c. c\<lparr>state := kDisconnected\<rparr>) (conns s a) else conns s a)"
    using destroy_all [OF inv assms(3), of K] that by fastforce
  have "server_inv [] (s3\<lparr>callingPendingFunctors := False\<rparr>)" using s3(2) by (rule server_inv_cong) simp_all
  moreover have "\<exists>c. conns s3 a = Some c \<and> state c = kDisconnected" if "a \<in> set D" for a
  proof -
    have "member ?s2 a" using server_invD(4) [OF inv] that by simp
    then obtain c where "conns s a = Some c" by (auto simp: member_def conn_at_def)
    with s3(7) that show ?thesis by simp
  qed
  ultimately show ?thesis using s3 assms(2) by (simp add: doPendingFunctors_def)
qed

subsection \<open>The interface: owners of connections\<close>

text \<open>
  What the handlers rely on when they give a connection up: a connection that is owned is
  removed once and waits for its destruction; a second removal fails.
\<close>

locale connection_owner =
  fixes inv :: "'s \<Rightarrow> bool" and owned :: "'s \<Rightarrow> nat set" and dying :: "'s \<Rightarrow> nat set"
    and remove :: "nat \<Rightarrow> 's \<Rightarrow> 's res"
  assumes remove_ok: "inv s \<Longrightarrow> a \<in> owned s \<Longrightarrow>
      \<exists>s'. remove a s = Inr s' \<and> inv s' \<and> owned s' = owned s - {a} \<and> dying s' = insert a (dying s)"
    and remove_again: "inv s \<Longrightarrow> a \<in> dying s \<Longrightarrow> remove a s = Inl Assert_failed"
begin

lemma remove_all:
  assumes "inv s" and "distinct as" and "set as \<subseteq> owned s"
  shows "\<exists>s'. foldR remove as s = Inr s' \<and> inv s' \<and> owned s' = owned s - set as \<and> dying s' = dying s \<union> set as"
  using assms
proof (induction "as" arbitrary: s)
  case Nil
  then show ?case by simp
next
  case (Cons a as)
  obtain s1 where s1: "remove a s = Inr s1" "inv s1" "owned s1 = owned s - {a}" "dying s1 = insert a (dying s)"
    using remove_ok [of s a] Cons.prems by auto
  obtain s' where s': "foldR remove as s1 = Inr s'" "inv s'" "owned s' = owned s1 - set as" "dying s' = dying s1 \<union> set as"
    using Cons.IH [OF s1(2)] Cons.prems(2,3) s1(3) by auto
  have "owned s' = owned s - set (a # as)" "dying s' = dying s \<union> set (a # as)" using s'(3,4) s1(3,4) by auto
  with s1(1) s'(1,2) show ?case by simp
qed

lemma remove_twice:
  assumes "inv s" and "a \<in> owned s"
  shows "\<exists>s'. remove a s = Inr s' \<and> inv s' \<and> remove a s' = Inl Assert_failed"
  using remove_ok [OF assms] remove_again by blast

end

interpretation own: connection_owner server_wf "\<lambda>s. set (mapped s)" "\<lambda>s. set (doomed_of (pendingFunctors s))"
    removeConnectionInLoop
proof unfold_locales
  fix s :: "'m server_state_scheme" and a
  assume wf: "server_wf s" and a: "a \<in> set (mapped s)"
  obtain s' where s': "removeConnectionInLoop a s = Inr s'" "server_inv (doomed_of (pendingFunctors s) @ [a]) s'"
      "pendingFunctors s' = pendingFunctors s @ [ConnectDestroyed a]"
      "connections s' = filter (\<lambda>p. snd p \<noteq> a) (connections s)"
    using remove_mapped [OF _ a] wf unfolding server_wf_def by blast
  then have "set (mapped s') = set (mapped s) - {a}" by (auto simp: mapped_def)
  with s' show "\<exists>s'. removeConnectionInLoop a s = Inr s' \<and> server_wf s' \<and> set (mapped s') = set (mapped s) - {a}
      \<and> set (doomed_of (pendingFunctors s')) = insert a (set (doomed_of (pendingFunctors s)))"
    by (simp add: server_wf_def)
next
  fix s :: "'m server_state_scheme" and a
  show "server_wf s \<Longrightarrow> a \<in> set (doomed_of (pendingFunctors s)) \<Longrightarrow> removeConnectionInLoop a s = Inl Assert_failed"
    unfolding server_wf_def by (rule remove_doomed)
qed

lemma removeConnection_in_loop: "removeConnection True a = removeConnectionInLoop a"
  by (simp add: removeConnection_def runInLoop_def fun_eq_iff)

lemma handleClose_removes:
  assumes wf: "server_inv D s" and a: "a \<in> set (mapped s @ D)"
  shows "\<exists>s1. handleClose (removeConnection True) a s = removeConnectionInLoop a s1 \<and> server_inv D s1
    \<and> connections s1 = connections s \<and> pendingFunctors s1 = pendingFunctors s \<and> wire s1 = wire s
    \<and> server_state.more s1 = server_state.more s \<and> conns s1 = conns s"
proof -
  obtain c ch where c: "conn_at s a c ch" "conns s a = Some c" "state c = kConnected \<or> state c = kDisconnecting"
    using memberE [OF server_invD(4) [OF wf a]] by blast
  obtain s1 p where s1: "disableAll (channel c) s = Inr s1" "conn_at s1 a c (ch\<lparr>events := kNoneEvent\<rparr>)" "frame a c c s s1"
      "s1 = s\<lparr>store := (store s)(channel c \<mapsto> ch\<lparr>events := kNoneEvent\<rparr>), pollfds := (pollfds s)[nat (index ch) := p]\<rparr>"
    using conn_setEvents [OF c(1), of "\<lambda>_. kNoneEvent"] by (auto simp: disableAll_def)
  have "server_inv D s1" using server_inv_frame [OF wf a c(2) s1(3,2) c(3)] .
  moreover have "handleClose (removeConnection True) a s = removeConnectionInLoop a s1"
    unfolding handleClose_def with_conn_def using c(2,3) s1(1) by (auto simp: removeConnection_in_loop)
  ultimately show ?thesis using s1(4) by auto
qed

subsection \<open>Properties\<close>

text \<open>
  C7 (invariant). Accepting a connection keeps the server consistent: for every accepted
  descriptor that is not watched yet and every fresh pair of objects, \<open>newConnection\<close> fails no
  assertion, gives the connection a name that no other connection of the server has, puts it
  into the map and the poller as connected, leaves every other connection as it was, and then
  runs the connection callback.
\<close>
theorem newConnection_keeps_server:
  assumes "server_wf s" and "nextConnId s < 2147483647" and "fresh_for (a, ch) sockfd s"
  shows "\<exists>s' c ch'. newConnection cb (a, ch) sockname sockfd peer s = cb a s' \<and> server_wf s'
    \<and> conn_at s' a c ch' \<and> state c = kConnected \<and> socket c = sockfd \<and> peerAddr c = peer
    \<and> map_of (connections s) (conn_name c) = None
    \<and> map_of (connections s') = (map_of (connections s))(conn_name c \<mapsto> a)
    \<and> (\<forall>b c2 ch2. b \<noteq> a \<longrightarrow> conn_at s b c2 ch2 \<longrightarrow> conn_at s' b c2 ch2)"
proof -
  let ?D = "doomed_of (pendingFunctors s)" and ?s' = "accepted s a ch sockname sockfd peer"
  let ?c = "new_conn s ch sockname sockfd peer"
  have inv: "server_inv ?D s" using assms(1) by (simp add: server_wf_def)
  note run = newConnection_run [OF inv assms(2,3)]
  have "server_wf ?s'" using accepted_inv [OF inv assms(2,3)] by (simp add: server_wf_def accepted_def)
  moreover have "map_of (connections s) (conn_name ?c) = None"
    using accepted_new_name(2) [OF inv assms(2)] by (simp add: map_of_eq_None_iff)
  moreover have "map_of (connections ?s') = (map_of (connections s))(conn_name ?c \<mapsto> a)"
    using map_put_lookup [OF server_invD(2) [OF inv]] by (simp add: accepted_def)
  ultimately show ?thesis
    using run accepted_others [OF inv assms(2,3)]
    by (intro exI [of _ ?s'] exI [of _ ?c] exI [of _ "new_channel s a sockfd"]) simp
qed


text \<open>
  C29 (error). A connection that was removed but not yet destroyed brings the server down when
  its peer closes it in the same pass of the loop: \<open>removeConnection\<close> leaves the state
  connected and the channel reading, so the end of file is handled as a second removal, whose
  assertion that the map held the connection fails.
\<close>
theorem second_removal_aborts:
  assumes "server_wf s" and "a \<in> set (mapped s)" and "conns s a = Some c"
    and "length (buffer (inputBuffer c)) + extrabuf_size \<le> vec_max"
    and "k_readv K (calls s) (socket c) (writableBytes (inputBuffer c) + extrabuf_size) = Inr []"
  shows "\<exists>s1. removeConnection True a s = Inr s1
    \<and> TcpConnection_handleRead K msgCb (removeConnection True) a s1 = Inl Assert_failed"
proof -
  let ?D = "doomed_of (pendingFunctors s)"
  have inv: "server_inv ?D s" using assms(1) by (simp add: server_wf_def)
  obtain s1 where s1: "removeConnectionInLoop a s = Inr s1" "server_inv (?D @ [a]) s1" "conns s1 = conns s" "calls s1 = calls s"
    using remove_mapped [OF inv assms(2)] by blast
  obtain ch where c: "conn_at s1 a c ch" "state c = kConnected \<or> state c = kDisconnecting"
    using memberE [OF server_invD(4) [OF s1(2)], of a] s1(3) assms(3) by auto
  obtain s2 c2 where s2: "conn_at s2 a c2 ch" "frame a c c2 s1 s2" "state c2 = state c"
      "TcpConnection_handleRead K msgCb (removeConnection True) a s1 = handleClose (removeConnection True) a s2"
    using handleRead_run [OF c(1) assms(4), of K msgCb "removeConnection True"] assms(5) s1(4) by auto
  have inv2: "server_inv (?D @ [a]) s2"
    using server_inv_frame [OF s1(2) _ _ s2(2,1)] s1(3) assms(3) s2(3) c(2) by simp
  obtain s3 where s3: "handleClose (removeConnection True) a s2 = removeConnectionInLoop a s3" "server_inv (?D @ [a]) s3"
    using handleClose_removes [OF inv2, of a] by auto
  have "removeConnectionInLoop a s3 = Inl Assert_failed" using remove_doomed [OF s3(2)] by simp
  with s1(1) s2(4) s3(1) show ?thesis by (simp add: removeConnection_in_loop)
qed

subsection \<open>A server for the witnesses\<close>

definition demo_server :: server_state where
  "demo_server = \<lparr>loopId = 0, store = [5 \<mapsto> demo_channel],
     pollfds = [\<lparr>pfd_fd = 7, pfd_events = 3, pfd_revents = 0\<rparr>], channels = [7 \<mapsto> 5], looping = True,
     quitFlag = False, callingPendingFunctors = False, pendingFunctors = [], wakeupCount = 0,
     conns = [9 \<mapsto> demo_conn], calls = 0, wire = \<lambda>_. [], shut = \<lambda>_. False,
     server_name = ''S'', server_started = True, nextConnId = 2, connections = [(''S#1'', 9)],
     pool = EventLoopThreadPool_new 0, acceptChannel = 1, listening = True, hasWriteComplete = False, posted = []\<rparr>"

lemma demo_server_fields [simp]:
  "conns demo_server = [9 \<mapsto> demo_conn]" "mapped demo_server = [9]" "pendingFunctors demo_server = []"
  "connections demo_server = [(''S#1'', 9)]" "nextConnId demo_server = 2" "calls demo_server = 0"
  by (simp_all add: demo_server_def mapped_def)

lemma demo_name: "connection_name ''S'' 1 = ''S#1''"
  by (simp add: connection_name_def show_int_def show_nat.simps digit_char_def)

lemma demo_server_wf: "server_wf demo_server"
proof -
  have at: "conn_at demo_server 9 demo_conn demo_channel"
    using demo_conn_at(1) poll_cong [of demo_server demo_net]
    by (simp add: conn_at_def demo_server_def demo_net_def)
  have nm: "name_at demo_server 9 = connection_name ''S'' 1"
    by (simp add: name_at_def demo_name demo_conn_def TcpConnection_new_def)
  have "member demo_server 9" using at by (auto simp: member_def)
  moreover have "poll_wf demo_server" using at by (simp add: conn_at_def)
  moreover have "server_name demo_server = ''S''" "loops (pool demo_server) = []"
      "baseLoop (pool demo_server) = loopId demo_server"
    by (simp_all add: demo_server_def EventLoopThreadPool_new_def)
  moreover have "\<exists>i. 1 \<le> i \<and> i < (2 :: int) \<and> name_at demo_server 9 = connection_name ''S'' i"
    using nm by (intro exI [of _ 1]) simp
  ultimately show ?thesis using nm demo_name by (simp add: server_wf_def server_inv_def)
qed

lemma quiet_silent: "quiet_when_down (\<lambda>a. Inr)"
  by (simp add: quiet_when_down_def)

theorem newConnection_keeps_server_witness:
  "\<exists>s' c ch'. newConnection (\<lambda>a. Inr) (20, 30) None 8 sockaddr_zero demo_server = Inr s' \<and> server_wf s'
    \<and> conn_at s' 20 c ch' \<and> state c = kConnected"
proof -
  have "fresh_for (20, 30) 8 demo_server" by (simp add: fresh_for_def demo_server_def)
  from newConnection_keeps_server [OF demo_server_wf _ this, of "\<lambda>a. Inr" None sockaddr_zero]
  show ?thesis by auto
qed


definition eof_kernel :: kernel where
  "eof_kernel = \<lparr>k_write = \<lambda>t f d. 0, k_readv = \<lambda>t f n. Inr []\<rparr>"

theorem second_removal_aborts_witness:
  "\<exists>s1. removeConnection True 9 demo_server = Inr s1
    \<and> TcpConnection_handleRead eof_kernel (\<lambda>a. Inr) (removeConnection True) 9 s1 = Inl Assert_failed"
  by (rule second_removal_aborts [OF demo_server_wf, where c = demo_conn])
    (simp_all add: eof_kernel_def Buffer_new_def kCheapPrepend_def kInitialSize_def extrabuf_size_def)

end
