(* ===== verification/Register_Table.thy ===== *)
theory Register_Table
  imports Prelude
begin

section \<open>The registration table\<close>

text \<open>
  Model of \<open>include/RegisterTable.h\<close> and \<open>src/RegisterTable.cpp\<close>: a client's address
  string is mapped to a fresh number, and the number to how many handshake messages the
  client has sent.  The two \<open>std::map\<close>s are partial functions; the static counter \<open>count_\<close>,
  of which the program has one, is a field.  The abstract view is one map from address
  strings to message counts.
\<close>

subsection \<open>State and operations\<close>

record RegisterTable =
  forId :: "string \<rightharpoonup> int"
  chooseMap :: "int \<rightharpoonup> int"
  count :: int

definition RegisterTable_new :: RegisterTable where
  "RegisterTable_new = \<lparr>forId = Map.empty, chooseMap = Map.empty, count = 0\<rparr>"

text \<open>\<open>std::map::insert\<close> does not replace the value of a key that is present.\<close>

definition map_insert :: "'k \<Rightarrow> 'v \<Rightarrow> ('k \<rightharpoonup> 'v) \<Rightarrow> ('k \<rightharpoonup> 'v)" where
  "map_insert k v m = (if m k = None then m(k \<mapsto> v) else m)"

definition registered :: "string \<Rightarrow> RegisterTable \<Rightarrow> bool" where
  "registered conn t =
     (case forId t conn of None \<Rightarrow> False | Some i \<Rightarrow> chooseMap t i \<noteq> None)"

definition myRegister :: "string \<Rightarrow> RegisterTable \<Rightarrow> RegisterTable res" where
  "myRegister conn t =
     (if \<not> registered conn t
      then res_bind (int_inc (count t))
        (\<lambda>c. Inr (t\<lparr>forId := map_insert conn (count t) (forId t),
                    chooseMap := map_insert (count t) 1 (chooseMap t),
                    count := c\<rparr>))
      else Inr t)"

definition myUnregister :: "string \<Rightarrow> RegisterTable \<Rightarrow> RegisterTable" where
  "myUnregister conn t =
     (case forId t conn of
        None \<Rightarrow> t
      | Some id1 \<Rightarrow>
          if chooseMap t id1 \<noteq> None
          then t\<lparr>forId := (forId t)(conn := None), chooseMap := (chooseMap t)(id1 := None)\<rparr>
          else t)"

definition getValue :: "string \<Rightarrow> RegisterTable \<Rightarrow> int" where
  "getValue conn t =
     (case forId t conn of
        None \<Rightarrow> 0
      | Some i \<Rightarrow> (case chooseMap t i of None \<Rightarrow> 0 | Some v \<Rightarrow> v))"

definition addValue :: "string \<Rightarrow> RegisterTable \<Rightarrow> RegisterTable res" where
  "addValue conn t =
     (case forId t conn of
        None \<Rightarrow> Inr t
      | Some i \<Rightarrow>
          (case chooseMap t i of
             None \<Rightarrow> Inr t
           | Some v \<Rightarrow> res_bind (int_inc v) (\<lambda>v'. Inr (t\<lparr>chooseMap := (chooseMap t)(i \<mapsto> v')\<rparr>))))"

subsection \<open>Invariant and abstract view\<close>

definition reg_wf :: "RegisterTable \<Rightarrow> bool" where
  "reg_wf t \<longleftrightarrow> inj_on (forId t) (dom (forId t)) \<and> ran (forId t) = dom (chooseMap t)
     \<and> (\<forall>i \<in> dom (chooseMap t). 0 \<le> i \<and> i < count t)"

definition reg_view :: "RegisterTable \<Rightarrow> string \<rightharpoonup> int" where
  "reg_view t conn = Option.bind (forId t conn) (chooseMap t)"

text \<open>\<open>reg_room n t\<close>: \<open>n\<close> more calls cannot overflow the counters.\<close>

definition reg_room :: "nat \<Rightarrow> RegisterTable \<Rightarrow> bool" where
  "reg_room n t \<longleftrightarrow> count t + int n \<le> 2147483647 \<and> (\<forall>v \<in> ran (chooseMap t). v + int n \<le> 2147483647)"

datatype reg_op = Register string | Unregister string | AddValue string

fun reg_step :: "reg_op \<Rightarrow> RegisterTable \<Rightarrow> RegisterTable res" where
  "reg_step (Register k) t = myRegister k t"
| "reg_step (Unregister k) t = Inr (myUnregister k t)"
| "reg_step (AddValue k) t = addValue k t"

fun count_step :: "reg_op \<Rightarrow> (string \<rightharpoonup> int) \<Rightarrow> (string \<rightharpoonup> int)" where
  "count_step (Register k) m = (if m k = None then m(k \<mapsto> 1) else m)"
| "count_step (Unregister k) m = m(k := None)"
| "count_step (AddValue k) m = (case m k of None \<Rightarrow> m | Some v \<Rightarrow> m(k \<mapsto> v + 1))"

subsection \<open>One call\<close>

lemma reg_wf_new: "reg_wf RegisterTable_new" and reg_view_new: "reg_view RegisterTable_new = Map.empty"
  by (auto simp: reg_wf_def reg_view_def RegisterTable_new_def)

lemma registered_view: "registered k t \<longleftrightarrow> reg_view t k \<noteq> None"
  by (simp add: registered_def reg_view_def split: option.splits)

lemma getValue_view: "getValue k t = (case reg_view t k of None \<Rightarrow> 0 | Some v \<Rightarrow> v)"
  by (simp add: getValue_def reg_view_def split: option.splits)

lemma reg_wf_forId:
  assumes "reg_wf t" and "forId t k = Some i"
  shows "\<exists>v. chooseMap t i = Some v" and "0 \<le> i" and "i < count t"
proof -
  have "i \<in> dom (chooseMap t)" using assms by (auto simp: reg_wf_def ran_def)
  then show "\<exists>v. chooseMap t i = Some v" "0 \<le> i" "i < count t"
    using assms(1) by (auto simp: reg_wf_def)
qed

lemma reg_wf_inj: "reg_wf t \<Longrightarrow> forId t k = Some i \<Longrightarrow> forId t k' = Some i \<Longrightarrow> k' = k"
  by (metis reg_wf_def inj_onD domI)

lemma reg_wf_fresh: "reg_wf t \<Longrightarrow> chooseMap t (count t) = None \<and> count t \<notin> ran (forId t)"
  by (auto simp: reg_wf_def)

lemma myRegister_ok:
  assumes "reg_wf t" and "reg_room (Suc n) t" and "0 \<le> count t"
  shows "\<exists>t'. myRegister k t = Inr t' \<and> reg_wf t' \<and> reg_room n t' \<and> 0 \<le> count t'
    \<and> reg_view t' = (if reg_view t k = None then (reg_view t)(k \<mapsto> 1) else reg_view t)"
proof (cases "registered k t")
  case True
  then show ?thesis
    using assms by (auto simp: myRegister_def registered_view reg_room_def)
next
  case False
  have none: "forId t k = None"
    using False by (auto simp: registered_def split: option.splits dest: reg_wf_forId(1) [OF assms(1)])
  note fresh = reg_wf_fresh [OF assms(1)]
  let ?t = "t\<lparr>forId := (forId t)(k \<mapsto> count t), chooseMap := (chooseMap t)(count t \<mapsto> 1), count := count t + 1\<rparr>"
  have run: "myRegister k t = Inr ?t"
    using False none fresh assms(2) by (simp add: myRegister_def map_insert_def reg_room_def int_inc_def)
  have "inj_on (forId ?t) (dom (forId ?t))"
  proof -
    have "inj_on (forId t) (dom (forId t))" using assms(1) by (simp add: reg_wf_def)
    moreover have "forId t j \<noteq> Some (count t)" for j using fresh by (auto simp: ran_def)
    ultimately show ?thesis by (auto simp: inj_on_def)
  qed
  moreover have "ran (forId ?t) = dom (chooseMap ?t)"
    using assms(1) none by (simp add: reg_wf_def)
  ultimately have wf: "reg_wf ?t"
    using assms(1,3) by (auto simp: reg_wf_def intro: order_less_imp_le)
  have room: "reg_room n ?t"
    using assms(2,3) fresh by (auto simp: reg_room_def ran_def split: if_splits)
  have "reg_view ?t j = ((reg_view t)(k \<mapsto> 1)) j" for j
    using fresh by (cases "forId t j") (auto simp: reg_view_def ran_def)
  then have view: "reg_view ?t = (reg_view t)(k \<mapsto> 1)" by (rule ext)
  have "reg_view t k = None" using none by (simp add: reg_view_def)
  with run wf room view assms(3) show ?thesis by simp
qed

lemma myUnregister_ok:
  assumes "reg_wf t" and "reg_room (Suc n) t"
  shows "reg_wf (myUnregister k t) \<and> reg_room n (myUnregister k t)
    \<and> count (myUnregister k t) = count t
    \<and> reg_view (myUnregister k t) = (reg_view t)(k := None)"
proof (cases "forId t k")
  case None
  then show ?thesis
    using assms by (auto simp: myUnregister_def reg_room_def reg_view_def)
next
  case (Some i)
  obtain v where v: "chooseMap t i = Some v" using reg_wf_forId(1) [OF assms(1) Some] ..
  let ?t = "t\<lparr>forId := (forId t)(k := None), chooseMap := (chooseMap t)(i := None)\<rparr>"
  have run: "myUnregister k t = ?t" using Some v by (simp add: myUnregister_def)
  note inj = reg_wf_inj [OF assms(1) Some]
  have "ran (forId ?t) = ran (forId t) - {i}"
  proof (rule set_eqI)
    fix x
    have "x \<in> ran (forId ?t) \<longleftrightarrow> (\<exists>j. j \<noteq> k \<and> forId t j = Some x)"
      by (auto simp: ran_def)
    also have "\<dots> \<longleftrightarrow> x \<noteq> i \<and> (\<exists>j. forId t j = Some x)"
      using inj Some by (metis option.inject)
    finally show "x \<in> ran (forId ?t) \<longleftrightarrow> x \<in> ran (forId t) - {i}"
      by (auto simp: ran_def)
  qed
  then have wf: "reg_wf ?t"
    using assms(1) by (auto simp: reg_wf_def inj_on_def)
  have room: "reg_room n ?t"
    using assms(2) by (auto simp: reg_room_def ran_def split: if_splits)
  have "reg_view ?t j = ((reg_view t)(k := None)) j" for j
    by (cases "forId t j") (auto simp: reg_view_def dest: inj)
  then have "reg_view ?t = (reg_view t)(k := None)" by (rule ext)
  with run wf room show ?thesis by simp
qed

lemma addValue_ok:
  assumes "reg_wf t" and "reg_room (Suc n) t"
  shows "\<exists>t'. addValue k t = Inr t' \<and> reg_wf t' \<and> reg_room n t' \<and> count t' = count t
    \<and> reg_view t' = (case reg_view t k of None \<Rightarrow> reg_view t | Some v \<Rightarrow> (reg_view t)(k \<mapsto> v + 1))"
proof (cases "forId t k")
  case None
  then show ?thesis
    using assms by (auto simp: addValue_def reg_room_def reg_view_def)
next
  case (Some i)
  obtain v where v: "chooseMap t i = Some v" using reg_wf_forId(1) [OF assms(1) Some] ..
  have bound: "v < 2147483647"
    using assms(2) v by (auto simp: reg_room_def ran_def)
  let ?t = "t\<lparr>chooseMap := (chooseMap t)(i \<mapsto> v + 1)\<rparr>"
  have run: "addValue k t = Inr ?t"
    using Some v bound by (simp add: addValue_def int_inc_def)
  have wf: "reg_wf ?t"
    using assms(1) v by (auto simp: reg_wf_def)
  have room: "reg_room n ?t"
    using assms(2) v by (auto simp: reg_room_def ran_def split: if_splits)
  have "reg_view ?t j = ((reg_view t)(k \<mapsto> v + 1)) j" for j
    using Some by (cases "forId t j") (auto simp: reg_view_def dest: reg_wf_inj [OF assms(1) Some])
  then have "reg_view ?t = (reg_view t)(k \<mapsto> v + 1)" by (rule ext)
  moreover have "reg_view t k = Some v" using Some v by (simp add: reg_view_def)
  ultimately show ?thesis using run wf room by simp
qed

subsection \<open>The interface: a message counter per client\<close>

text \<open>
  What the message handler relies on: each call keeps the invariant, does to the view what
  \<open>count_step\<close> does, and \<open>value\<close> reads the view with 0 for an unknown client.
\<close>

locale client_counter =
  fixes wf :: "'t \<Rightarrow> bool"
    and room :: "nat \<Rightarrow> 't \<Rightarrow> bool"
    and view :: "'t \<Rightarrow> string \<rightharpoonup> int"
    and step :: "reg_op \<Rightarrow> 't \<Rightarrow> 't res"
    and val :: "string \<Rightarrow> 't \<Rightarrow> int"
  assumes step_ok: "wf t \<Longrightarrow> room (Suc n) t \<Longrightarrow>
      \<exists>t'. step x t = Inr t' \<and> wf t' \<and> room n t' \<and> view t' = count_step x (view t)"
    and val_view: "wf t \<Longrightarrow> val k t = (case view t k of None \<Rightarrow> 0 | Some v \<Rightarrow> v)"
begin

lemma run_ok:
  assumes "wf t" and "room (length ops) t"
  shows "\<exists>t'. foldR step ops t = Inr t' \<and> wf t' \<and> view t' = fold count_step ops (view t)"
  using assms
proof (induction ops arbitrary: t)
  case Nil
  then show ?case by simp
next
  case (Cons x ops)
  then obtain t1 where t1: "step x t = Inr t1" "wf t1" "room (length ops) t1"
      "view t1 = count_step x (view t)"
    using step_ok [of t "length ops" x] by auto
  from Cons.IH [OF t1(2,3)] obtain t2 where
    "foldR step ops t1 = Inr t2" "wf t2" "view t2 = fold count_step ops (view t1)" by blast
  with t1(1,4) show ?case by simp
qed

end

definition reg_ok :: "RegisterTable \<Rightarrow> bool" where
  "reg_ok t \<longleftrightarrow> reg_wf t \<and> 0 \<le> count t"

interpretation rt: client_counter reg_ok reg_room reg_view reg_step getValue
proof unfold_locales
  show "\<exists>t'. reg_step x t = Inr t' \<and> reg_ok t' \<and> reg_room n t' \<and> reg_view t' = count_step x (reg_view t)"
    if "reg_ok t" and "reg_room (Suc n) t" for t n x
  proof (cases x)
    case (Register k)
    with myRegister_ok [of t n k] that show ?thesis by (auto simp: reg_ok_def)
  next
    case (Unregister k)
    with myUnregister_ok [of t n k] that show ?thesis by (auto simp: reg_ok_def)
  next
    case (AddValue k)
    with addValue_ok [of t n k] that show ?thesis by (auto simp: reg_ok_def)
  qed
  show "getValue k t = (case reg_view t k of None \<Rightarrow> 0 | Some v \<Rightarrow> v)" for k t
    by (rule getValue_view)
qed

subsection \<open>Properties\<close>

text \<open>
  C13 (refinement). From the empty table, every sequence of fewer than 2147483647
  registrations, removals and increments runs without a fault, keeps the two maps and the
  counter consistent (distinct clients have distinct numbers, every number in use has a
  count, no number at or above the counter is in use), and \<open>getValue\<close> then returns for
  every client what the same sequence does to one plain map from clients to counts.
\<close>
theorem register_table_refines_counts:
  assumes "length ops < 2147483647"
  shows "\<exists>t. foldR reg_step ops RegisterTable_new = Inr t \<and> reg_wf t
    \<and> (\<forall>k. getValue k t = (case fold count_step ops Map.empty k of None \<Rightarrow> 0 | Some v \<Rightarrow> v))"
proof -
  have ok: "reg_ok RegisterTable_new"
    using reg_wf_new by (simp add: reg_ok_def RegisterTable_new_def)
  have room: "reg_room (length ops) RegisterTable_new"
    using assms by (simp add: reg_room_def RegisterTable_new_def)
  from rt.run_ok [OF ok room] show ?thesis
    by (auto simp: getValue_view reg_view_new reg_ok_def)
qed

theorem register_table_refines_counts_witness:
  "\<exists>t. foldR reg_step [Register ''a'', Register ''b'', AddValue ''a'', Unregister ''b'', Register ''a'']
        RegisterTable_new = Inr t
     \<and> getValue ''a'' t = 2 \<and> getValue ''b'' t = 0"
proof -
  let ?ops = "[Register ''a'', Register ''b'', AddValue ''a'', Unregister ''b'', Register ''a'']"
  have "fold count_step ?ops Map.empty ''a'' = Some 2" "fold count_step ?ops Map.empty ''b'' = None"
    by simp_all
  moreover have "\<exists>t. foldR reg_step ?ops RegisterTable_new = Inr t \<and> reg_wf t
    \<and> (\<forall>k. getValue k t = (case fold count_step ?ops Map.empty k of None \<Rightarrow> 0 | Some v \<Rightarrow> v))"
    by (rule register_table_refines_counts) simp
  ultimately show ?thesis by (metis option.simps(4,5))
qed

end
