(* ===== verification/Cer_Packet.thy ===== *)
theory Cer_Packet
  imports Prelude
begin

section \<open>The certificate packet\<close>

text \<open>
  Model of \<open>include/CerPacket.h\<close> and \<open>src/CerPacket.cpp\<close>: the packet of the handshake
  with its random part and its certificate, and the two transformations of the random
  part.  \<open>encry\<close> and \<open>decry\<close> assign through \<open>operator[]\<close> into a string that is empty and
  stays empty, so the model writes out what the C++ standard says of such an assignment.
  The \<open>printf\<close> calls are left out.
\<close>

subsection \<open>State and operations\<close>

record CerPacket =
  rand :: string
  length_of_cer :: int
  cer :: string

definition getPacketAsString :: "CerPacket \<Rightarrow> string" where
  "getPacketAsString p = rand p @ cer p"

definition getRandom :: "CerPacket \<Rightarrow> string" where
  "getRandom p = rand p"

definition getCer :: "CerPacket \<Rightarrow> string" where
  "getCer p = cer p"

definition setRand :: "string \<Rightarrow> CerPacket \<Rightarrow> CerPacket" where
  "setRand random p = p\<lparr>rand := random\<rparr>"

text \<open>\<open>length_\<close> is an \<open>int\<close>: the length is reduced to 32 bits, two's complement.\<close>

definition to_int32 :: "nat \<Rightarrow> int" where
  "to_int32 n = (int n + 2147483648) mod 4294967296 - 2147483648"

definition setCer :: "string \<Rightarrow> CerPacket \<Rightarrow> CerPacket" where
  "setCer c p = p\<lparr>cer := c, length_of_cer := to_int32 (length c)\<rparr>"

definition CerPacket_init :: "CerPacket \<Rightarrow> CerPacket" where
  "CerPacket_init p = p\<lparr>length_of_cer := 0, rand := [], cer := []\<rparr>"

text \<open>
  \<open>s[pos] = c\<close>: a position inside the string is overwritten; \<open>s[s.size()]\<close> refers to the
  terminating zero, which may only be assigned zero; any other position is undefined.
\<close>

definition string_set :: "nat \<Rightarrow> char \<Rightarrow> string \<Rightarrow> string res" where
  "string_set pos c s =
     (if pos < length s then Inr (s[pos := c])
      else definedR (pos = length s \<and> c = CHR 0x00) (Inr s))"

text \<open>Arithmetic on \<open>char\<close> is done in \<open>int\<close> and reduced to eight bits when it is stored.\<close>

definition char_add :: "char \<Rightarrow> int \<Rightarrow> char" where
  "char_add c d = char_of (nat ((int (of_char c) + d) mod 256))"

fun encry_loop :: "string \<Rightarrow> nat \<Rightarrow> string \<Rightarrow> string res" where
  "encry_loop [] cnt result = Inr result"
| "encry_loop (i # is) cnt result =
     (if i \<noteq> CHR 0x00
      then res_bind (string_set cnt (char_add i 1) result) (encry_loop is (cnt + 1))
      else encry_loop is cnt result)"

definition encry :: "CerPacket \<Rightarrow> string res" where
  "encry p = encry_loop (rand p) 0 []"

fun decry_loop :: "string \<Rightarrow> nat \<Rightarrow> string \<Rightarrow> string res" where
  "decry_loop [] cnt result = Inr result"
| "decry_loop (i # is) cnt result =
     (if i \<noteq> CHR 0x00
      then res_bind (string_set cnt (char_add i (- 1)) result) (decry_loop is (cnt + 1))
      else decry_loop is cnt result)"

definition decry :: "CerPacket \<Rightarrow> string res" where
  "decry p = decry_loop (rand p) 0 []"

subsection \<open>The behaviour of the two transformations\<close>

definition non_nul :: "string \<Rightarrow> string" where
  "non_nul s = filter (\<lambda>c. c \<noteq> CHR 0x00) s"

lemma non_nul_simps [simp]:
  "non_nul [] = []"
  "non_nul (c # s) = (if c = CHR 0x00 then non_nul s else c # non_nul s)"
  by (simp_all add: non_nul_def)

text \<open>After the first character the position lies behind the empty string.\<close>

lemma encry_loop_late: "0 < cnt \<Longrightarrow>
    encry_loop s cnt [] = (if non_nul s = [] then Inr [] else Inl Undefined)"
  by (induction s arbitrary: cnt) (simp_all add: string_set_def)

lemma decry_loop_late: "0 < cnt \<Longrightarrow>
    decry_loop s cnt [] = (if non_nul s = [] then Inr [] else Inl Undefined)"
  by (induction s arbitrary: cnt) (simp_all add: string_set_def)

lemma encry_loop_start: "encry_loop s 0 [] =
    (case non_nul s of [] \<Rightarrow> Inr []
     | c # cs \<Rightarrow> if char_add c 1 = CHR 0x00 \<and> cs = [] then Inr [] else Inl Undefined)"
  by (induction s) (simp_all add: string_set_def encry_loop_late)

lemma decry_loop_start: "decry_loop s 0 [] =
    (case non_nul s of [] \<Rightarrow> Inr []
     | c # cs \<Rightarrow> if char_add c (- 1) = CHR 0x00 \<and> cs = [] then Inr [] else Inl Undefined)"
  by (induction s) (simp_all add: string_set_def decry_loop_late)

lemma char_eq_code: "c = d \<longleftrightarrow> of_char c = (of_char d :: nat)"
  by (simp add: of_char_eq_iff)

lemma of_char_bound: "of_char c < (256 :: nat)"
  using nat_of_char_less_256 [of c] by simp

lemma char_add_one_zero: "char_add c 1 = CHR 0x00 \<longleftrightarrow> c = CHR 0xFF"
proof -
  have "of_char (char_add c 1) = nat ((int (of_char c) + 1) mod 256)"
    by (simp add: char_add_def)
  then show ?thesis using of_char_bound [of c] unfolding char_eq_code [of _ "CHR 0x00"] char_eq_code [of _ "CHR 0xFF"]
    by (cases "of_char c = (255 :: nat)") (simp_all add: nat_mod_distrib nat_add_distrib)
qed

lemma char_add_minus_zero: "char_add c (- 1) = CHR 0x00 \<longleftrightarrow> c = CHR 0x01"
proof -
  have "of_char (char_add c (- 1)) = nat ((int (of_char c) - 1) mod 256)"
    by (simp add: char_add_def)
  moreover have "nat ((int n - 1) mod 256) = 0 \<longleftrightarrow> n = 1" if "n < 256" for n :: nat
    using that by (cases n) (simp_all add: nat_mod_distrib)
  ultimately show ?thesis using of_char_bound [of c]
    unfolding char_eq_code [of _ "CHR 0x00"] char_eq_code [of _ "CHR 0x01"] by simp
qed

lemma encry_result: "encry p = (if non_nul (rand p) \<in> {[], [CHR 0xFF]} then Inr [] else Inl Undefined)"
  by (auto simp: encry_def encry_loop_start char_add_one_zero split: list.split)

lemma decry_result: "decry p = (if non_nul (rand p) \<in> {[], [CHR 0x01]} then Inr [] else Inl Undefined)"
  by (auto simp: decry_def decry_loop_start char_add_minus_zero split: list.split)

subsection \<open>Properties\<close>

text \<open>
  C27 (error). \<open>encry\<close> and \<open>decry\<close> never produce the transformed bytes: whatever the random
  part, each either returns the empty string, which happens only when the random part has
  no non-zero byte, or exactly one whose transformed value is zero, or its behaviour is
  undefined because it assigns behind the end of an empty string.
\<close>
theorem encry_decry_results:
  "encry p = (if non_nul (rand p) \<in> {[], [CHR 0xFF]} then Inr [] else Inl Undefined)
   \<and> decry p = (if non_nul (rand p) \<in> {[], [CHR 0x01]} then Inr [] else Inl Undefined)"
  using encry_result decry_result by blast

end
