(* ===== verification/Transfer_Server.thy ===== *)
theory Transfer_Server
  imports Tcp_Server Register_Table Cer_Packet
begin

section \<open>The transfer server\<close>

text \<open>
  Model of the program itself, \<open>src/test_multithreads.cc\<close>, in the configuration without
  extra threads (the default): the connection callback that sends the server's packet, and
  the message callback with its three stages, told apart by the count that the register
  table keeps for the client's address: the first message is a packet that is encrypted and
  sent back, the second is the client's answer that is decrypted and compared with the
  server's random part, and every later message is passed on to all other clients.  The
  local character arrays are byte lists of their declared length, and reading one as a C
  string is undefined when it holds no zero byte.  The \<open>printf\<close> calls are left out.
\<close>

subsection \<open>State\<close>

record app_state = server_state +
  registerTable :: RegisterTable
  serPacket :: CerPacket

definition fresh_packet :: CerPacket where
  "fresh_packet = \<lparr>rand = [], length_of_cer = 0, cer = []\<rparr>"

text \<open>\<open>main\<close>: the server's packet.\<close>

definition main_packet :: CerPacket where
  "main_packet = setCer ''1'' (setRand ''cdefghijklmnopqrstuv'' (CerPacket_init fresh_packet))"

text \<open>
  \<open>s.copy(dest, n, pos)\<close> into an array of \<open>size\<close> bytes that was zero: throws
  \<open>std::out_of_range\<close> when \<open>pos\<close> is behind the end.
\<close>

definition string_copy :: "nat \<Rightarrow> string \<Rightarrow> size_t \<Rightarrow> size_t \<Rightarrow> string res" where
  "string_copy sz src n pos =
     (if pos > length src then Inl Out_of_range
      else copy_to 0 (take n (drop pos src)) (replicate sz (CHR 0x00)))"

definition c_string :: "string \<Rightarrow> string res" where
  "c_string arr = definedR (CHR 0x00 \<in> set arr) (Inr (c_strlen_prefix arr))"

subsection \<open>The callbacks\<close>

definition onConnection :: "kernel \<Rightarrow> nat \<Rightarrow> 'm app_state_scheme \<Rightarrow> 'm app_state_scheme res" where
  "onConnection K a =
     with_conn a (\<lambda>c s.
       if connected c then send K True (getPacketAsString (serPacket s)) a s else Inr s)"

definition first_reply :: "kernel \<Rightarrow> nat \<Rightarrow> 'm app_state_scheme \<Rightarrow> 'm app_state_scheme res" where
  "first_reply K a =
     with_conn a (\<lambda>c s.
       let cliPacket1 = CerPacket_init fresh_packet;
           (data_from_client, buf) = retrieveAsString (inputBuffer c);
           s1 = set_conn a (c\<lparr>inputBuffer := buf\<rparr>) s
       in res_bind (string_copy 20 data_from_client 20 0) (\<lambda>tmpRand.
          res_bind (string_copy 20 data_from_client (size_sub (length data_from_client) 20) 20) (\<lambda>tmpCer.
          res_bind (c_string tmpRand) (\<lambda>r.
          res_bind (c_string tmpCer) (\<lambda>ce.
            let cliPacket2 = setCer ce (setRand r cliPacket1)
            in res_bind (encry cliPacket2) (\<lambda>sendInfo. send K True sendInfo a s1))))))"

definition onMessage_first :: "kernel \<Rightarrow> nat \<Rightarrow> string \<Rightarrow> 'm app_state_scheme \<Rightarrow> 'm app_state_scheme res" where
  "onMessage_first K a str s =
     res_bind (addValue str (registerTable s)) (\<lambda>t. first_reply K a (s\<lparr>registerTable := t\<rparr>))"

text \<open>
  \<open>memcpy(tmpRand, data.c_str(), 20)\<close> reads 20 bytes of a string that has one zero byte
  behind its end; \<open>strcmp(...) == 0\<close> compares up to the first zero byte.
\<close>

definition second_answer :: "kernel \<Rightarrow> nat \<Rightarrow> string \<Rightarrow> 'm app_state_scheme \<Rightarrow> 'm app_state_scheme res" where
  "second_answer K a str =
     with_conn a (\<lambda>c s.
       let (data_from_client, buf) = retrieveAsString (inputBuffer c);
           s1 = set_conn a (c\<lparr>inputBuffer := buf\<rparr>) s
       in definedR (20 \<le> length data_from_client + 1)
         (let tmpRand = take 20 (data_from_client @ [CHR 0x00]) @ [CHR 0x00] in
          res_bind (c_string tmpRand) (\<lambda>r.
            let cliPacket2 = setCer (getCer (serPacket s1)) (setRand r (CerPacket_init fresh_packet)) in
            res_bind (decry cliPacket2) (\<lambda>getInfo.
              if c_strlen_prefix getInfo = c_strlen_prefix (getRandom (serPacket s1))
              then res_bind (encry fresh_packet) (\<lambda>sendInfo. send K True sendInfo a s1)
              else res_bind (removeConnection True a s1)
                     (\<lambda>s2. Inr (s2\<lparr>registerTable := myUnregister str (registerTable s2)\<rparr>))))))"

definition onMessage_second :: "kernel \<Rightarrow> nat \<Rightarrow> string \<Rightarrow> 'm app_state_scheme \<Rightarrow> 'm app_state_scheme res" where
  "onMessage_second K a str s =
     res_bind (addValue str (registerTable s)) (\<lambda>t. second_answer K a str (s\<lparr>registerTable := t\<rparr>))"

definition dispatch_step :: "kernel \<Rightarrow> nat \<Rightarrow> string \<Rightarrow> string \<times> nat \<Rightarrow> 'm app_state_scheme \<Rightarrow> 'm app_state_scheme res" where
  "dispatch_step K a message it =
     with_conn (snd it) (\<lambda>c s.
       let str = getAsString (peerAddr c) in
       if snd it \<noteq> a then
         if getValue str (registerTable s) = 0 then removeConnection True (snd it) s
         else send K True message (snd it) s
       else Inr s)"

definition onMessage_relay :: "kernel \<Rightarrow> nat \<Rightarrow> 'm app_state_scheme \<Rightarrow> 'm app_state_scheme res" where
  "onMessage_relay K a =
     with_conn a (\<lambda>c s.
       let cons = connections s;
           (message, buf) = retrieveAsString (inputBuffer c)
       in foldR (dispatch_step K a message) cons (set_conn a (c\<lparr>inputBuffer := buf\<rparr>) s))"

definition onMessage :: "kernel \<Rightarrow> nat \<Rightarrow> 'm app_state_scheme \<Rightarrow> 'm app_state_scheme res" where
  "onMessage K a =
     with_conn a (\<lambda>c s0.
       let str = getAsString (peerAddr c) in
       res_bind (myRegister str (registerTable s0)) (\<lambda>t.
         let s = s0\<lparr>registerTable := t\<rparr> in
         if getValue str t = 1 then onMessage_first K a str s
         else if getValue str t = 2 then onMessage_second K a str s
         else onMessage_relay K a s))"

subsection \<open>The callbacks of the channels and the whole loop\<close>

text \<open>
  What the world outside gives: the kernel's answers to reads and writes, the answers of
  \<open>accept4(2)\<close> and \<open>getsockname(2)\<close>, and the addresses of the objects created for an accepted
  connection, all by the number of the call.  The application sets no timer: an alarm of the
  timer descriptor reads it and finds nothing due.
\<close>

record world =
  w_kernel :: kernel
  w_accept :: "nat \<Rightarrow> accept_answer"
  w_sockname :: "nat \<Rightarrow> sockaddr_in option"
  w_new :: "nat \<Rightarrow> nat \<times> nat"

fun run_callback :: "world \<Rightarrow> net_callback \<Rightarrow> 'm app_state_scheme \<Rightarrow> 'm app_state_scheme res" where
  "run_callback W (ConnRead a) s = TcpConnection_handleRead (w_kernel W) (onMessage (w_kernel W)) (removeConnection True) a s"
| "run_callback W (ConnWrite a) s = handleWrite (w_kernel W) a s"
| "run_callback W (ConnClose a) s = handleClose (removeConnection True) a s"
| "run_callback W (ConnError a) s = handleError a s"
| "run_callback W WakeupRead s = Inr (EventLoop_handleRead s)"
| "run_callback W AcceptRead s =
     Acceptor_handleRead (Some (newConnection (onConnection (w_kernel W)) (w_new W (calls s)) (w_sockname W (calls s))))
       (w_accept W (calls s)) s"
| "run_callback W TimerRead s = Inr (s\<lparr>calls := calls s + 1\<rparr>)"

subsection \<open>Passing a message on\<close>

definition held :: "'m server_state_scheme \<Rightarrow> nat set" where
  "held s = set (mapped s @ doomed_of (pendingFunctors s))"

definition stream_at :: "'m net_state_scheme \<Rightarrow> nat \<Rightarrow> string" where
  "stream_at s b = (case conns s b of None \<Rightarrow> [] | Some c \<Rightarrow> stream s c)"

definition client_value :: "'m app_state_scheme \<Rightarrow> nat \<Rightarrow> int" where
  "client_value s b = (case conns s b of None \<Rightarrow> 0 | Some c \<Rightarrow> getValue (getAsString (peerAddr c)) (registerTable s))"

definition is_connected :: "'m net_state_scheme \<Rightarrow> nat \<Rightarrow> bool" where
  "is_connected s b = (case conns s b of None \<Rightarrow> False | Some c \<Rightarrow> connected c)"

text \<open>\<open>can_take\<close>: the output side of the connection is consistent and has room for the message.\<close>

definition can_take :: "kernel \<Rightarrow> string \<Rightarrow> 'm net_state_scheme \<Rightarrow> nat \<Rightarrow> bool" where
  "can_take K m s b \<longleftrightarrow> (\<exists>c ch. conn_at s b c ch \<and> flow_ok c ch \<and> buf_room (length m) (outputBuffer c)
     \<and> \<not> write_refused K (socket c))"

definition untouched :: "nat set \<Rightarrow> 'm net_state_scheme \<Rightarrow> 'm net_state_scheme \<Rightarrow> bool" where
  "untouched B s s' \<longleftrightarrow> (\<forall>b \<in> B. \<forall>c ch. conn_at s b c ch \<longrightarrow> conn_at s' b c ch \<and> wire s' (socket c) = wire s (socket c))"

lemma doomed_of_write_complete: "\<forall>f \<in> set fs. f = WriteComplete a \<Longrightarrow> doomed_of fs = []"
  by (induction fs) auto

lemma server_wf_frame:
  assumes wf: "server_wf s" and a: "a \<in> held s" and c: "conns s a = Some c"
    and fr: "frame a c c' s s'" and c': "conn_at s' a c' ch'" "state c' = kConnected \<or> state c' = kDisconnecting"
  shows "server_wf s'" and "held s' = held s" and "mapped s' = mapped s"
proof -
  have more: "net_state.more s' = net_state.more s" using fr by (simp add: frame_def)
  obtain fs where "pendingFunctors s' = pendingFunctors s @ fs" "\<forall>f \<in> set fs. f = WriteComplete a"
    using fr by (auto simp: frame_def)
  then have d: "doomed_of (pendingFunctors s') = doomed_of (pendingFunctors s)"
    using doomed_of_write_complete by simp
  show "server_wf s'"
    using server_inv_frame [OF _ _ c fr c'] wf a d by (simp add: server_wf_def held_def)
  show m: "mapped s' = mapped s" using more_fields [OF more] by (simp add: mapped_def)
  show "held s' = held s" using m d by (simp add: held_def)
qed

lemma held_conn: "server_wf s \<Longrightarrow> b \<in> held s \<Longrightarrow> \<exists>c ch. conn_at s b c ch"
  unfolding server_wf_def held_def using server_invD(4) unfolding member_def by blast

lemma held_member: "server_wf s \<Longrightarrow> b \<in> held s \<Longrightarrow> member s b"
  unfolding server_wf_def held_def by (rule server_invD(4))

text \<open>Different connections of the server have different channels and different sockets.\<close>

lemma held_distinct:
  assumes wf: "server_wf s" and "b \<in> held s" "b2 \<in> held s" "b2 \<noteq> b"
    and c: "conn_at s b c ch" and c2: "conn_at s b2 c2 ch2"
  shows "channel c2 \<noteq> channel c" and "socket c2 \<noteq> socket c"
proof -
  have "inj_on (channel_at s) (held s)" using wf server_invD(6) unfolding server_wf_def held_def by blast
  moreover have "channel_at s b = channel c" "channel_at s b2 = channel c2"
    using c c2 by (simp_all add: channel_at_def conn_at_def)
  ultimately show ne: "channel c2 \<noteq> channel c" using assms(2-4) by (metis inj_onD)
  have "channels s (socket c) = Some (channel c)" "channels s (socket c2) = Some (channel c2)"
    using c c2 by (auto simp: conn_at_def attached_def)
  with ne show "socket c2 \<noteq> socket c" by auto
qed

lemma frame_untouched:
  assumes "server_wf s" "b \<in> held s" "conn_at s b c ch" "frame b c c' s s'"
  shows "untouched (held s - {b}) s s'"
  unfolding untouched_def
proof (intro ballI allI impI)
  fix b2 c2 ch2 assume b2: "b2 \<in> held s - {b}" and c2: "conn_at s b2 c2 ch2"
  then have "channel c2 \<noteq> channel c" "socket c2 \<noteq> socket c" using held_distinct [OF assms(1,2) _ _ assms(3) c2] by auto
  with assms(4) b2 c2 show "conn_at s' b2 c2 ch2 \<and> wire s' (socket c2) = wire s (socket c2)"
    by (simp add: frame_def)
qed

lemma untouchedD:
  assumes "untouched B s s'" "b \<in> B" "conn_at s b c ch" "registerTable s' = registerTable s"
  shows "conn_at s' b c ch" "stream_at s' b = stream_at s b" "client_value s' b = client_value s b"
    "is_connected s' b = is_connected s b"
  using assms by (auto simp: untouched_def stream_at_def stream_def client_value_def is_connected_def conn_at_def)

text \<open>One turn of the dispatcher's loop, for one other connection.\<close>

definition delivered :: "nat \<Rightarrow> string \<Rightarrow> 'm app_state_scheme \<Rightarrow> nat \<Rightarrow> string" where
  "delivered a m s b = (if b \<noteq> a \<and> client_value s b \<noteq> 0 \<and> is_connected s b then m else [])"

definition dropped :: "nat \<Rightarrow> 'm app_state_scheme \<Rightarrow> nat \<Rightarrow> bool" where
  "dropped a s b \<longleftrightarrow> b \<noteq> a \<and> client_value s b = 0"

definition dispatched :: "nat \<Rightarrow> string \<Rightarrow> nat \<Rightarrow> 'm app_state_scheme \<Rightarrow> 'm app_state_scheme \<Rightarrow> bool" where
  "dispatched a m b s s' \<longleftrightarrow> server_wf s' \<and> held s' = held s
     \<and> set (mapped s') = (if dropped a s b then set (mapped s) - {b} else set (mapped s))
     \<and> registerTable s' = registerTable s \<and> conns s' a = conns s a \<and> untouched (held s - {b}) s s'
     \<and> stream_at s' b = stream_at s b @ delivered a m s b"

lemma dispatch_run:
  assumes "conns s b = Some c"
  shows "dispatch_step K a m (n, b) s = (if b \<noteq> a then if client_value s b = 0 then removeConnection True b s
      else send K True m b s else Inr s)"
  unfolding dispatch_step_def with_conn_def using assms by (simp add: client_value_def)

lemma dispatch_stay:
  "server_wf s \<Longrightarrow> delivered a m s b = [] \<Longrightarrow> \<not> dropped a s b \<Longrightarrow> dispatched a m b s s"
  by (simp add: dispatched_def untouched_def)

lemma dispatch_removed:
  assumes wf: "server_wf s" and b: "b \<in> set (mapped s)" and c: "conns s b = Some c"
    and v: "client_value s b = 0" and ba: "b \<noteq> a"
  shows "\<exists>s'. dispatch_step K a m (n, b) s = Inr s' \<and> dispatched a m b s s'"
proof -
  obtain s1 where s1: "removeConnectionInLoop b s = Inr s1" "server_inv (doomed_of (pendingFunctors s) @ [b]) s1"
      "pendingFunctors s1 = pendingFunctors s @ [ConnectDestroyed b]"
      "connections s1 = filter (\<lambda>p. snd p \<noteq> b) (connections s)"
      "\<And>b c ch. conn_at s1 b c ch = conn_at s b c ch" "server_state.more s1 = server_state.more s"
      "wire s1 = wire s" "conns s1 = conns s"
    using remove_mapped [OF wf [unfolded server_wf_def] b] by blast
  have "registerTable s1 = registerTable s" using s1(6) by (cases s; cases s1; simp)
  moreover have m: "set (mapped s1) = set (mapped s) - {b}" using s1(4) by (auto simp: mapped_def)
  moreover from this have "held s1 = held s" using s1(3) b by (auto simp: held_def)
  moreover have "server_wf s1" using s1(2,3) by (simp add: server_wf_def)
  moreover have "untouched (held s - {b}) s s1" using s1(5,7) by (simp add: untouched_def)
  moreover have "stream_at s1 b = stream_at s b @ delivered a m s b"
    using v c s1(7,8) by (simp add: stream_at_def stream_def delivered_def)
  moreover have "dispatch_step K a m (n, b) s = Inr s1" "dropped a s b"
    using dispatch_run [OF c] ba v s1(1) by (simp_all add: removeConnection_in_loop dropped_def)
  ultimately show ?thesis using s1(8) unfolding dispatched_def by auto
qed

lemma dispatch_sent:
  assumes wf: "server_wf s" and bh: "b \<in> held s" and K: "kernel_ok K" and take: "can_take K m s b"
    and c: "conn_at s b c ch" "state c = kConnected" and v: "client_value s b \<noteq> 0" and ba: "b \<noteq> a"
  shows "\<exists>s'. dispatch_step K a m (n, b) s = Inr s' \<and> dispatched a m b s s'"
proof -
  have cs: "conns s b = Some c" using c(1) by (simp add: conn_at_def)
  obtain ch' where cap: "conn_at s b c ch'" "flow_ok c ch'" "buf_room (length m) (outputBuffer c)" "\<not> write_refused K (socket c)"
    using take cs by (auto simp: can_take_def conn_at_def)
  obtain s1 c1 ch1 where s1: "sendInLoop K m b s = Inr s1" "conn_at s1 b c1 ch1" "frame b c c1 s s1"
      "state c1 = state c" "stream s1 c1 = stream s c @ m"
    using sendInLoop_cases [OF cap(1,2) K cap(3)] cap(4) by metis
  have w: "server_wf s1" "held s1 = held s" "mapped s1 = mapped s"
    using server_wf_frame [OF wf bh cs s1(3,2)] s1(4) c(2) by simp_all
  have "conns s1 b = Some c1" using s1(2) by (simp add: conn_at_def)
  then have "stream_at s1 b = stream_at s b @ delivered a m s b"
    using s1(5) cs ba v c(2) by (simp add: stream_at_def delivered_def is_connected_def connected_def)
  moreover have "registerTable s1 = registerTable s"
    using s1(3) by (cases s; cases s1; simp add: frame_def)
  moreover have "conns s1 a = conns s a" using s1(3) ba by (simp add: frame_def)
  moreover have "dispatch_step K a m (n, b) s = Inr s1" "\<not> dropped a s b"
    using dispatch_run [OF cs] ba s1(1) send_connected [OF c] v by (simp_all add: dropped_def)
  ultimately show ?thesis using w frame_untouched [OF wf bh c(1) s1(3)] unfolding dispatched_def by auto
qed

lemma dispatch_one:
  assumes wf: "server_wf s" and b: "b \<in> set (mapped s)" and K: "kernel_ok K" and take: "b \<noteq> a \<longrightarrow> can_take K m s b"
  shows "\<exists>s'. dispatch_step K a m (n, b) s = Inr s' \<and> dispatched a m b s s'"
proof -
  have bh: "b \<in> held s" using b by (simp add: held_def)
  obtain c ch where c: "conn_at s b c ch" "conns s b = Some c" using memberE [OF held_member [OF wf bh]] by blast
  consider "b = a" | "b \<noteq> a" "client_value s b = 0" | "b \<noteq> a" "client_value s b \<noteq> 0" "state c = kConnected"
    | "b \<noteq> a" "client_value s b \<noteq> 0" "state c \<noteq> kConnected" by blast
  then show ?thesis
  proof cases
    case 1
    then have "dispatched a m b s s" using wf by (intro dispatch_stay) (simp_all add: delivered_def dropped_def)
    with 1 show ?thesis using dispatch_run [OF c(2)] by simp
  next
    case 2
    then show ?thesis using dispatch_removed [OF wf b c(2)] by blast
  next
    case 3
    then show ?thesis using dispatch_sent [OF wf bh K _ c(1)] take by blast
  next
    case 4
    then have "dispatched a m b s s"
      using wf c(2) by (intro dispatch_stay) (simp_all add: delivered_def dropped_def is_connected_def connected_def)
    with 4 show ?thesis using dispatch_run [OF c(2)] shutdown_ignored(2) [OF c(1)] by simp
  qed
qed

text \<open>The whole loop over a copy of the map.\<close>

lemma untouched_trans:
  assumes "untouched B s s1" and "untouched B' s1 s2" and "B' \<subseteq> B"
  shows "untouched B' s s2"
  using assms unfolding untouched_def by fastforce

text \<open>What a turn leaves as it was for every other connection.\<close>

lemma dispatched_others:
  assumes wf: "server_wf s" and d: "dispatched a m b s s1" and b2: "b2 \<in> held s" "b2 \<noteq> b"
  shows "stream_at s1 b2 = stream_at s b2" "client_value s1 b2 = client_value s b2"
    "is_connected s1 b2 = is_connected s b2" "can_take K n s b2 \<Longrightarrow> can_take K n s1 b2"
proof -
  have un: "untouched (held s - {b}) s s1" "registerTable s1 = registerTable s" and b: "b2 \<in> held s - {b}"
    using d b2 by (simp_all add: dispatched_def)
  obtain c2 ch2 where "conn_at s b2 c2 ch2" using held_conn [OF wf b2(1)] by blast
  then show "stream_at s1 b2 = stream_at s b2" "client_value s1 b2 = client_value s b2" "is_connected s1 b2 = is_connected s b2"
    using untouchedD [OF un(1) b _ un(2)] by blast+
  show "can_take K n s b2 \<Longrightarrow> can_take K n s1 b2" using un(1) b unfolding can_take_def untouched_def by blast
qed

lemma dispatch_all:
  assumes "server_wf s" and "distinct (map snd cs)" and "snd ` set cs \<subseteq> set (mapped s)" and K: "kernel_ok K"
    and "\<forall>b \<in> snd ` set cs. b \<noteq> a \<longrightarrow> can_take K m s b"
  shows "\<exists>s'. foldR (dispatch_step K a m) cs s = Inr s' \<and> server_wf s' \<and> held s' = held s
    \<and> set (mapped s') = set (mapped s) - {b \<in> snd ` set cs. dropped a s b}
    \<and> registerTable s' = registerTable s \<and> conns s' a = conns s a \<and> untouched (held s - snd ` set cs) s s'
    \<and> (\<forall>b \<in> snd ` set cs. stream_at s' b = stream_at s b @ delivered a m s b)"
  using assms(1-3,5)
proof (induction cs arbitrary: s)
  case Nil
  then show ?case by (simp add: untouched_def)
next
  case (Cons p cs)
  obtain n b where p: "p = (n, b)" by (cases p)
  let ?B = "snd ` set cs"
  have b: "b \<in> set (mapped s)" "b \<notin> ?B" "?B \<subseteq> set (mapped s)" using Cons.prems by (auto simp: p)
  obtain s1 where s1: "dispatch_step K a m (n, b) s = Inr s1" "dispatched a m b s s1"
    using dispatch_one [OF Cons.prems(1) b(1) K, of a m n] Cons.prems(4) by (auto simp: p)
  then have d: "server_wf s1" "held s1 = held s" "registerTable s1 = registerTable s" "untouched (held s - {b}) s s1"
      "set (mapped s1) = (if dropped a s b then set (mapped s) - {b} else set (mapped s))"
      "stream_at s1 b = stream_at s b @ delivered a m s b" "conns s1 a = conns s a" by (simp_all add: dispatched_def)
  have held: "b2 \<in> held s \<and> b2 \<noteq> b" if "b2 \<in> ?B" for b2 using that b by (auto simp: held_def)
  note keep = dispatched_others [OF Cons.prems(1) s1(2) conjunct1 [OF held] conjunct2 [OF held]]
  have cap: "\<forall>b2 \<in> ?B. b2 \<noteq> a \<longrightarrow> can_take K m s1 b2" using keep(4) Cons.prems(4) by (simp add: p)
  have sub: "distinct (map snd cs)" "?B \<subseteq> set (mapped s1)" using Cons.prems(2) b d(5) by (auto simp: p)
  obtain s2 where s2: "foldR (dispatch_step K a m) cs s1 = Inr s2" "server_wf s2" "held s2 = held s1"
      "set (mapped s2) = set (mapped s1) - {b \<in> ?B. dropped a s1 b}" "registerTable s2 = registerTable s1"
      "conns s2 a = conns s1 a" "untouched (held s1 - ?B) s1 s2" "\<forall>b \<in> ?B. stream_at s2 b = stream_at s1 b @ delivered a m s1 b"
    using Cons.IH [OF d(1) sub cap] by (elim exE conjE) (rule that)
  have st: "stream_at s2 b2 = stream_at s b2 @ delivered a m s b2" if "b2 \<in> snd ` set (p # cs)" for b2
  proof (cases "b2 = b")
    case True
    have "b \<in> held s1 - ?B" using b d(2) by (auto simp: held_def)
    moreover from this obtain c1 ch1 where "conn_at s1 b c1 ch1" using held_conn [OF d(1)] by blast
    ultimately show ?thesis using untouchedD(2) [OF s2(7) _ _ s2(5)] d(6) True by simp
  next
    case False
    then have "b2 \<in> ?B" using that by (simp add: p)
    with bspec [OF s2(8), of b2] keep(1-3) [of b2] show ?thesis by (simp add: delivered_def)
  qed
  have un: "untouched (held s - snd ` set (p # cs)) s s2"
    by (rule untouched_trans [OF d(4), of _ s2]) (use s2(7) d(2) in \<open>auto simp: untouched_def p\<close>)
  have mp: "set (mapped s2) = set (mapped s) - {b \<in> snd ` set (p # cs). dropped a s b}"
  proof -
    have "{b \<in> ?B. dropped a s1 b} = {b \<in> ?B. dropped a s b}" using keep(2) by (intro Collect_cong conj_cong refl) (simp add: dropped_def)
    then have "set (mapped s2) = set (mapped s1) - {b \<in> ?B. dropped a s b}" using s2(4) by (simp only:)
    then show ?thesis using d(5) by (auto simp: p)
  qed
  show ?case using s1(1) s2 d st un mp by (simp add: p)
qed

lemma onMessage_later:
  assumes c: "conns s a = Some c" and v: "client_value s a \<noteq> 0" "client_value s a \<noteq> 1" "client_value s a \<noteq> 2"
  shows "onMessage K a s = onMessage_relay K a s"
proof -
  let ?str = "getAsString (peerAddr c)"
  have cv: "client_value s a = getValue ?str (registerTable s)" using c by (simp add: client_value_def)
  then have "reg_view (registerTable s) ?str \<noteq> None" using v(1) by (auto simp: getValue_view split: option.splits)
  then have "myRegister ?str (registerTable s) = Inr (registerTable s)"
    by (simp add: myRegister_def registered_view)
  then show ?thesis unfolding onMessage_def with_conn_def using c v cv by (simp add: Let_def)
qed

lemma relay_run:
  assumes wf: "server_wf s" and a: "a \<in> set (mapped s)" and cs: "conns s a = Some c" and K: "kernel_ok K"
    and cap: "\<forall>b \<in> set (mapped s). b \<noteq> a \<longrightarrow> can_take K (readable (inputBuffer c)) s b"
  defines "m \<equiv> readable (inputBuffer c)"
  shows "\<exists>s' c'. onMessage_relay K a s = Inr s' \<and> server_wf s'
    \<and> set (mapped s') = set (mapped s) - {b. dropped a s b}
    \<and> conns s' a = Some c' \<and> readable (inputBuffer c') = []
    \<and> (\<forall>b \<in> set (mapped s). stream_at s' b = stream_at s b @ delivered a m s b)"
proof -
  have ah: "a \<in> held s" using a by (simp add: held_def)
  obtain ch where c: "conn_at s a c ch" "state c = kConnected \<or> state c = kDisconnecting"
    using memberE [OF held_member [OF wf ah]] cs by (metis option.inject)
  have wfb: "buf_wf (inputBuffer c)" "buf_wf (outputBuffer c)" using c(1) by (simp_all add: conn_at_def)
  define buf where "buf = snd (retrieveAsString (inputBuffer c))"
  have buf: "buf_wf buf" "readable buf = []" using retrieveAsString_spec [OF wfb(1)] by (simp_all add: buf_def)
  have rd: "retrieveAsString (inputBuffer c) = (m, buf)"
    using retrieveAsString_spec(1) [OF wfb(1)] by (metis buf_def m_def prod.collapse)
  let ?c = "c\<lparr>inputBuffer := buf\<rparr>"
  let ?s = "set_conn a ?c s"
  have c1: "conn_at ?s a ?c ch" by (rule conn_at_local [OF c(1)]) (use wfb buf in \<open>simp_all add: set_conn_def\<close>)
  have fr: "frame a c ?c s ?s" by (rule frame_local) (simp_all add: set_conn_def)
  have w: "server_wf ?s" "mapped ?s = mapped s" using server_wf_frame [OF wf ah cs fr c1] c(2) by simp_all
  have un: "untouched (held s - {a}) s ?s" using frame_untouched [OF wf ah c(1) fr] .
  have reg: "registerTable ?s = registerTable s" "connections ?s = connections s" by (simp_all add: set_conn_def)
  have same: "stream_at ?s b = stream_at s b \<and> client_value ?s b = client_value s b \<and> is_connected ?s b = is_connected s b" for b
    using cs by (simp add: stream_at_def stream_def client_value_def is_connected_def connected_def set_conn_def
        split: option.splits)
  have cap1: "\<forall>b \<in> set (mapped s). b \<noteq> a \<longrightarrow> can_take K m ?s b"
  proof (intro ballI impI)
    fix b assume "b \<in> set (mapped s)" "b \<noteq> a"
    then have "b \<in> held s - {a}" "can_take K m s b" using cap by (simp_all add: held_def m_def)
    with un show "can_take K m ?s b" unfolding can_take_def untouched_def by blast
  qed
  have m: "snd ` set (connections s) = set (mapped s)" "distinct (map snd (connections s))"
    using server_invD(3) [OF wf [unfolded server_wf_def]] by (simp_all add: mapped_def)
  have sub: "snd ` set (connections s) \<subseteq> set (mapped ?s)" "\<forall>b \<in> snd ` set (connections s). b \<noteq> a \<longrightarrow> can_take K m ?s b"
    unfolding w(2) m(1) using cap1 by auto
  obtain s' where s': "foldR (dispatch_step K a m) (connections s) ?s = Inr s'" "server_wf s'"
      "set (mapped s') = set (mapped ?s) - {b \<in> snd ` set (connections s). dropped a ?s b}" "conns s' a = conns ?s a"
      "\<forall>b \<in> snd ` set (connections s). stream_at s' b = stream_at ?s b @ delivered a m ?s b"
    using dispatch_all [OF w(1) m(2) sub(1) K sub(2)] by (elim exE conjE) (rule that)
  have run: "onMessage_relay K a s = Inr s'"
    unfolding onMessage_relay_def with_conn_def using cs s'(1) rd by (simp add: Let_def)
  have "set (mapped s') = set (mapped s) - {b. dropped a s b}"
    unfolding s'(3) w(2) m(1) using same by (auto simp: dropped_def)
  moreover have "\<forall>b \<in> set (mapped s). stream_at s' b = stream_at s b @ delivered a m s b"
    using s'(5) same unfolding m(1) by (simp add: delivered_def)
  moreover have "conns s' a = Some ?c" using s'(4) by (simp add: set_conn_def)
  ultimately show ?thesis using run s'(2) buf(2) by (intro exI [of _ s'] exI [of _ ?c]) simp
qed

subsection \<open>The handshake\<close>

lemma server_wf_reg [simp]: "server_wf (s\<lparr>registerTable := t\<rparr>) = server_wf s"
  and held_reg [simp]: "held (s\<lparr>registerTable := t\<rparr>) = held s"
  and mapped_reg [simp]: "mapped (s\<lparr>registerTable := t\<rparr>) = mapped s"
proof -
  let ?s = "s\<lparr>registerTable := t\<rparr>"
  have at: "conn_at ?s b c ch = conn_at s b c ch" for b c ch by (rule conn_at_cong) simp_all
  have "poll_wf ?s = poll_wf s" by (rule poll_cong) simp_all
  moreover have "name_at ?s = name_at s" "channel_at ?s = channel_at s"
    by (simp_all add: name_at_def channel_at_def fun_eq_iff)
  ultimately show "server_wf ?s = server_wf s"
    by (simp add: server_wf_def server_inv_def mapped_def member_def at)
  show "held ?s = held s" "mapped ?s = mapped s" by (simp_all add: held_def mapped_def)
qed

text \<open>Taking the received bytes out of the input buffer.\<close>

lemma take_input:
  assumes wf: "server_wf s" and a: "a \<in> held s" and cs: "conns s a = Some c"
  obtains buf where "retrieveAsString (inputBuffer c) = (readable (inputBuffer c), buf)"
    "server_wf (set_conn a (c\<lparr>inputBuffer := buf\<rparr>) s)" "mapped (set_conn a (c\<lparr>inputBuffer := buf\<rparr>) s) = mapped s"
proof -
  obtain ch where c: "conn_at s a c ch" "state c = kConnected \<or> state c = kDisconnecting"
    using memberE [OF held_member [OF wf a]] cs by (metis option.inject)
  have wfb: "buf_wf (inputBuffer c)" "buf_wf (outputBuffer c)" using c(1) by (simp_all add: conn_at_def)
  define buf where "buf = snd (retrieveAsString (inputBuffer c))"
  have buf: "buf_wf buf" "retrieveAsString (inputBuffer c) = (readable (inputBuffer c), buf)"
    using retrieveAsString_spec [OF wfb(1)] by (simp_all add: buf_def prod_eq_iff)
  let ?c = "c\<lparr>inputBuffer := buf\<rparr>"
  have c1: "conn_at (set_conn a ?c s) a ?c ch"
    by (rule conn_at_local [OF c(1)]) (use wfb buf in \<open>simp_all add: set_conn_def\<close>)
  have fr: "frame a c ?c s (set_conn a ?c s)" by (rule frame_local) (simp_all add: set_conn_def)
  show thesis using that [OF buf(2)] server_wf_frame [OF wf a cs fr c1] c(2) by simp
qed

lemma string_copy_results:
  "pos \<le> length m \<Longrightarrow> string_copy sz m n pos = Inl Undefined \<or> (\<exists>arr. string_copy sz m n pos = Inr arr)"
  by (auto simp: string_copy_def copy_to_def)

lemma string_copy_rand: "20 \<le> length m \<Longrightarrow> string_copy 20 m 20 0 = Inr (take 20 m)"
  by (simp add: string_copy_def copy_to_def overwrite_def)

lemma string_copy_short: "length m < 20 \<Longrightarrow> \<exists>arr. string_copy 20 m 20 0 = Inr arr"
  by (simp add: string_copy_def copy_to_def)

lemma c_string_results: "c_string arr = Inl Undefined \<or> c_string arr = Inr (c_strlen_prefix arr)"
  by (simp add: c_string_def)

lemma non_nul_prefix: "non_nul (c_strlen_prefix m) = c_strlen_prefix m"
  by (induction m) (simp_all add: c_strlen_prefix_def)

lemma first_two_prefix:
  assumes "20 \<le> length m" "m ! 0 \<noteq> CHR 0x00" "m ! 1 \<noteq> CHR 0x00"
  shows "\<exists>x y r. c_strlen_prefix (take 20 m) = x # y # r"
proof -
  obtain x m1 where "m = x # m1" using assms(1) by (cases m) auto
  moreover obtain y r where "m1 = y # r" using assms(1) calculation by (cases m1) auto
  ultimately show ?thesis using assms(2,3) by (simp add: c_strlen_prefix_def take_Cons')
qed

lemma onMessage_new_client:
  assumes cs: "conns s a = Some c" and reg: "reg_wf (registerTable s)" "reg_room 2 (registerTable s)" "0 \<le> count (registerTable s)"
    and new: "reg_view (registerTable s) (getAsString (peerAddr c)) = None"
  shows "\<exists>t. onMessage K a s = first_reply K a (s\<lparr>registerTable := t\<rparr>)"
proof -
  let ?k = "getAsString (peerAddr c)"
  have "reg_room (Suc 1) (registerTable s)" using reg(2) by (simp add: numeral_2_eq_2)
  then obtain t1 where t1: "myRegister ?k (registerTable s) = Inr t1" "reg_wf t1" "reg_room (Suc 0) t1"
      "reg_view t1 = (reg_view (registerTable s))(?k \<mapsto> 1)"
    using myRegister_ok [OF reg(1) _ reg(3), of 1 ?k] new by auto
  obtain t2 where t2: "addValue ?k t1 = Inr t2" using addValue_ok [OF t1(2,3), of ?k] by auto
  have "getValue ?k t1 = 1" using t1(4) by (simp add: getValue_view)
  then have "onMessage K a s = first_reply K a (s\<lparr>registerTable := t2\<rparr>)"
    unfolding onMessage_def with_conn_def using cs t1(1) t2 by (simp add: Let_def onMessage_first_def)
  then show ?thesis by blast
qed

lemma onMessage_second_client:
  assumes cs: "conns s a = Some c" and reg: "reg_wf (registerTable s)" "reg_room 2 (registerTable s)"
    and two: "reg_view (registerTable s) (getAsString (peerAddr c)) = Some 2"
  shows "\<exists>t. reg_wf t \<and> reg_room 1 t
    \<and> onMessage K a s = second_answer K a (getAsString (peerAddr c)) (s\<lparr>registerTable := t\<rparr>)"
proof -
  let ?k = "getAsString (peerAddr c)"
  have "myRegister ?k (registerTable s) = Inr (registerTable s)"
    using two by (simp add: myRegister_def registered_view)
  moreover have "getValue ?k (registerTable s) = 2" using two by (simp add: getValue_view)
  moreover have "reg_room (Suc 1) (registerTable s)" using reg(2) by (simp add: numeral_2_eq_2)
  then obtain t where t: "addValue ?k (registerTable s) = Inr t" "reg_wf t" "reg_room 1 t"
    using addValue_ok [OF reg(1), of 1 ?k] by auto
  ultimately have "onMessage K a s = second_answer K a ?k (s\<lparr>registerTable := t\<rparr>)"
    unfolding onMessage_def with_conn_def using cs by (simp add: Let_def onMessage_second_def)
  with t show ?thesis by blast
qed

lemma second_answer_result:
  assumes wf: "server_wf s" and a: "a \<in> set (mapped s)" and cs: "conns s a = Some c"
    and reg: "reg_wf (registerTable s)" "reg_room 1 (registerTable s)"
    and ser: "c_strlen_prefix (rand (serPacket s)) \<noteq> []"
  shows "second_answer K a k s = Inl Undefined
    \<or> (\<exists>s'. second_answer K a k s = Inr s' \<and> server_wf s' \<and> set (mapped s') = set (mapped s) - {a}
         \<and> reg_view (registerTable s') k = None)"
proof -
  have ah: "a \<in> held s" using a by (simp add: held_def)
  obtain buf where buf: "retrieveAsString (inputBuffer c) = (readable (inputBuffer c), buf)"
      "server_wf (set_conn a (c\<lparr>inputBuffer := buf\<rparr>) s)" "mapped (set_conn a (c\<lparr>inputBuffer := buf\<rparr>) s) = mapped s"
    by (rule take_input [OF wf ah cs])
  let ?m = "readable (inputBuffer c)" and ?s1 = "set_conn a (c\<lparr>inputBuffer := buf\<rparr>) s"
  let ?tmp = "take 20 (?m @ [CHR 0x00]) @ [CHR 0x00]"
  have tmp: "c_string ?tmp = Inr (c_strlen_prefix ?tmp)" by (simp add: c_string_def)
  have fields: "serPacket ?s1 = serPacket s" "registerTable ?s1 = registerTable s" by (simp_all add: set_conn_def)
  obtain s2 where s2: "removeConnectionInLoop a ?s1 = Inr s2" "server_inv (doomed_of (pendingFunctors ?s1) @ [a]) s2"
      "pendingFunctors s2 = pendingFunctors ?s1 @ [ConnectDestroyed a]"
      "connections s2 = filter (\<lambda>p. snd p \<noteq> a) (connections ?s1)" "server_state.more s2 = server_state.more ?s1"
    using remove_mapped [OF buf(2) [unfolded server_wf_def]] a buf(3) by metis
  have wf2: "server_wf s2" using s2(2,3) by (simp add: server_wf_def)
  have m2: "set (mapped s2) = set (mapped s) - {a}" using s2(4) by (auto simp: mapped_def set_conn_def)
  have t2: "registerTable s2 = registerTable s" using s2(5) by (cases s; cases s2; simp add: set_conn_def)
  have "reg_room (Suc 0) (registerTable s)" using reg(2) by simp
  then have un: "reg_view (myUnregister k (registerTable s)) k = None" using myUnregister_ok [OF reg(1)] by simp
  have run: "second_answer K a k s = definedR (20 \<le> length ?m + 1)
      (res_bind (decry (setCer (getCer (serPacket s)) (setRand (c_strlen_prefix ?tmp) (CerPacket_init fresh_packet))))
        (\<lambda>getInfo. if c_strlen_prefix getInfo = c_strlen_prefix (getRandom (serPacket s))
          then res_bind (encry fresh_packet) (\<lambda>sendInfo. send K True sendInfo a ?s1)
          else Inr (s2\<lparr>registerTable := myUnregister k (registerTable s)\<rparr>)))"
    unfolding second_answer_def with_conn_def
    using cs buf(1) tmp fields s2(1) t2 by (simp add: Let_def removeConnection_in_loop cong: if_cong)
  have "c_strlen_prefix [] \<noteq> c_strlen_prefix (getRandom (serPacket s))"
    using ser by (simp add: getRandom_def c_strlen_prefix_def)
  then show ?thesis using run wf2 m2 un by (auto simp: decry_result)
qed

lemma onConnection_quiet: "quiet_when_down (onConnection K)"
  by (simp add: quiet_when_down_def onConnection_def with_conn_def connected_def)

subsection \<open>Properties\<close>


text \<open>
  C31 (error). The first message of a client ends the server: fewer than 20 bytes raise
  \<open>std::out_of_range\<close>, which nothing catches, and 20 bytes or more whose first two bytes are
  not zero have undefined behaviour in the encryption.
\<close>
theorem first_message_fails:
  assumes "server_wf s" and "a \<in> set (mapped s)" and "conns s a = Some c"
    and "reg_wf (registerTable s)" and "reg_room 2 (registerTable s)" and "0 \<le> count (registerTable s)"
    and "reg_view (registerTable s) (getAsString (peerAddr c)) = None"
  defines "m \<equiv> readable (inputBuffer c)"
  shows "(length m < 20 \<longrightarrow> onMessage K a s = Inl Out_of_range)
    \<and> (20 \<le> length m \<and> m ! 0 \<noteq> CHR 0x00 \<and> m ! 1 \<noteq> CHR 0x00 \<longrightarrow> onMessage K a s = Inl Undefined)"
proof -
  obtain t where t: "onMessage K a s = first_reply K a (s\<lparr>registerTable := t\<rparr>)"
    using onMessage_new_client [OF assms(3-7)] by blast
  let ?s = "s\<lparr>registerTable := t\<rparr>"
  have "a \<in> held ?s" "conns ?s a = Some c" using assms(2,3) by (simp_all add: held_def)
  then obtain buf where buf: "retrieveAsString (inputBuffer c) = (m, buf)"
    using take_input [of ?s a c] assms(1) unfolding m_def by auto
  have run: "onMessage K a s = res_bind (string_copy 20 m 20 0) (\<lambda>tmpRand.
      res_bind (string_copy 20 m (size_sub (length m) 20) 20) (\<lambda>tmpCer.
      res_bind (c_string tmpRand) (\<lambda>r. res_bind (c_string tmpCer) (\<lambda>ce.
        res_bind (encry (setCer ce (setRand r (CerPacket_init fresh_packet))))
          (\<lambda>sendInfo. send K True sendInfo a (set_conn a (c\<lparr>inputBuffer := buf\<rparr>) ?s))))))"
    unfolding t first_reply_def with_conn_def using assms(3) buf by (simp add: Let_def)
  have short: "onMessage K a s = Inl Out_of_range" if l: "length m < 20"
  proof -
    obtain arr where "string_copy 20 m 20 0 = Inr arr" using string_copy_short [OF l] by blast
    moreover have "string_copy 20 m n 20 = Inl Out_of_range" for n using l by (simp add: string_copy_def)
    ultimately show ?thesis using run by simp
  qed
  have long: "onMessage K a s = Inl Undefined" if h: "20 \<le> length m" "m ! 0 \<noteq> CHR 0x00" "m ! 1 \<noteq> CHR 0x00"
  proof -
    obtain x y r where "c_strlen_prefix (take 20 m) = x # y # r" using first_two_prefix [OF h] by blast
    then have e: "encry (setCer ce (setRand (c_strlen_prefix (take 20 m)) (CerPacket_init fresh_packet))) = Inl Undefined" for ce
      using non_nul_prefix [of "take 20 m"] by (auto simp: encry_result setCer_def setRand_def)
    consider "string_copy 20 m (size_sub (length m) 20) 20 = Inl Undefined"
      | tmpCer where "string_copy 20 m (size_sub (length m) 20) 20 = Inr tmpCer"
      using string_copy_results [OF h(1)] by blast
    then show ?thesis
    proof cases
      case 1
      with run string_copy_rand [OF h(1)] show ?thesis by simp
    next
      case 2
      then show ?thesis
        using run e string_copy_rand [OF h(1)] c_string_results [of "take 20 m"] c_string_results [of tmpCer] by auto
    qed
  qed
  from short long show ?thesis by blast
qed

text \<open>
  C30 (safety). Nobody is ever identified: whatever a client sends as its second message, and
  as long as the server's random part is not empty, the run is either undefined or ends with
  the client removed from the server and from the register table; the branch that reports
  success is never taken.
\<close>
theorem second_message_never_identifies:
  assumes "server_wf s" and "a \<in> set (mapped s)" and "conns s a = Some c"
    and "reg_wf (registerTable s)" and "reg_room 2 (registerTable s)"
    and "reg_view (registerTable s) (getAsString (peerAddr c)) = Some 2"
    and "c_strlen_prefix (rand (serPacket s)) \<noteq> []"
  shows "onMessage K a s = Inl Undefined
    \<or> (\<exists>s'. onMessage K a s = Inr s' \<and> server_wf s' \<and> set (mapped s') = set (mapped s) - {a}
         \<and> reg_view (registerTable s') (getAsString (peerAddr c)) = None)"
proof -
  obtain t where t: "reg_wf t" "reg_room 1 t"
      "onMessage K a s = second_answer K a (getAsString (peerAddr c)) (s\<lparr>registerTable := t\<rparr>)"
    using onMessage_second_client [OF assms(3-6)] by blast
  then show ?thesis
    using second_answer_result [of "s\<lparr>registerTable := t\<rparr>" a c K "getAsString (peerAddr c)"] assms by simp
qed


subsection \<open>A running server for the witnesses\<close>

definition demo_input :: "string \<Rightarrow> Buffer" where
  "demo_input m = \<lparr>buffer = replicate 8 (CHR 0x00) @ m, readerIndex = 8, writerIndex = 8 + length m\<rparr>"

lemma demo_input: "length m \<le> 1000 \<Longrightarrow> buf_wf (demo_input m)" "readable (demo_input m) = m"
  by (simp_all add: demo_input_def buf_wf_def readable_def Prelude.slice_def kCheapPrepend_def)

definition demo_app :: "string \<Rightarrow> RegisterTable \<Rightarrow> app_state" where
  "demo_app m t = \<lparr>loopId = 0, store = [5 \<mapsto> demo_channel],
     pollfds = [\<lparr>pfd_fd = 7, pfd_events = 3, pfd_revents = 0\<rparr>], channels = [7 \<mapsto> 5], looping = True,
     quitFlag = False, callingPendingFunctors = False, pendingFunctors = [], wakeupCount = 0,
     conns = [9 \<mapsto> demo_conn\<lparr>inputBuffer := demo_input m\<rparr>], calls = 0, wire = \<lambda>_. [], shut = \<lambda>_. False,
     server_name = ''S'', server_started = True, nextConnId = 2, connections = [(''S#1'', 9)],
     pool = EventLoopThreadPool_new 0, acceptChannel = 1, listening = True, hasWriteComplete = False, posted = [],
     registerTable = t, serPacket = main_packet\<rparr>"

lemma demo_app_fields [simp]:
  "conns (demo_app m t) 9 = Some (demo_conn\<lparr>inputBuffer := demo_input m\<rparr>)" "mapped (demo_app m t) = [9]"
  "pendingFunctors (demo_app m t) = []" "registerTable (demo_app m t) = t" "nextConnId (demo_app m t) = 2"
  "serPacket (demo_app m t) = main_packet" "wire (demo_app m t) f = []"
  by (simp_all add: demo_app_def mapped_def)

lemma demo_app_wf:
  assumes "length m \<le> 1000"
  shows "server_wf (demo_app m t)"
proof -
  let ?s = "demo_app m t" and ?c = "demo_conn\<lparr>inputBuffer := demo_input m\<rparr>"
  have at: "conn_at ?s 9 ?c demo_channel"
    using demo_conn_at(1) poll_cong [of ?s demo_net] demo_input(1) [OF assms] buf_wf_new
    by (simp add: conn_at_def demo_app_def demo_net_def)
  have nm: "name_at ?s 9 = connection_name ''S'' 1"
    by (simp add: name_at_def demo_name demo_conn_def TcpConnection_new_def)
  have "member ?s 9" using at by (auto simp: member_def)
  moreover have "poll_wf ?s" using at by (simp add: conn_at_def)
  moreover have "server_name ?s = ''S''" "loops (pool ?s) = []" "baseLoop (pool ?s) = loopId ?s"
      "connections ?s = [(''S#1'', 9)]"
    by (simp_all add: demo_app_def EventLoopThreadPool_new_def)
  moreover have "\<exists>i. 1 \<le> i \<and> i < (2 :: int) \<and> name_at ?s 9 = connection_name ''S'' i"
    using nm by (intro exI [of _ 1]) simp
  ultimately show ?thesis using nm demo_name by (simp add: server_wf_def server_inv_def)
qed

text \<open>Two clients, both past the handshake.\<close>

definition done_table :: RegisterTable where
  "done_table = \<lparr>forId = (\<lambda>k. Some 0), chooseMap = [0 \<mapsto> 3], count = 1\<rparr>"

definition demo_two :: app_state where
  "demo_two = accepted (demo_app ''hi'' done_table) 20 30 None 8 sockaddr_zero"

lemma demo_fresh: "fresh_for (20, 30) 8 (demo_app m t)"
  by (simp add: fresh_for_def demo_app_def)

lemma demo_two_facts:
  "server_wf demo_two" "set (mapped demo_two) = {20, 9}"
  "conns demo_two 9 = Some (demo_conn\<lparr>inputBuffer := demo_input ''hi''\<rparr>)" "client_value demo_two b \<in> {0, 3}"
  "client_value demo_two 9 = 3" "can_take slow_kernel ''hi'' demo_two 20" "client_value demo_two 20 = 3"
  "is_connected demo_two 20" "stream_at demo_two 20 = []"
proof -
  let ?s = "demo_app ''hi'' done_table"
  have inv: "server_inv [] ?s" using demo_app_wf [of "''hi''" done_table] by (simp add: server_wf_def)
  show "server_wf demo_two"
    using accepted_inv [OF inv _ demo_fresh] by (simp add: demo_two_def server_wf_def accepted_def)
  show "set (mapped demo_two) = {20, 9}" using accepted_mapped(2) [OF inv _ demo_fresh] by (simp add: demo_two_def)
  show "conns demo_two 9 = Some (demo_conn\<lparr>inputBuffer := demo_input ''hi''\<rparr>)"
    by (simp add: demo_two_def accepted_def)
  have c20: "conns demo_two 20 = Some (new_conn ?s 30 None 8 sockaddr_zero)" "registerTable demo_two = done_table"
    by (simp_all add: demo_two_def accepted_def)
  show "client_value demo_two b \<in> {0, 3}" "client_value demo_two 9 = 3" "client_value demo_two 20 = 3"
    using c20(2) by (auto simp: client_value_def getValue_def done_table_def demo_two_def accepted_def split: option.splits)
  show "is_connected demo_two 20" "stream_at demo_two 20 = []"
    using c20(1) by (simp_all add: is_connected_def connected_def stream_at_def stream_def readable_new demo_two_def accepted_def)
  have "conn_at demo_two 20 (new_conn ?s 30 None 8 sockaddr_zero) (new_channel ?s 20 8)"
    using newConnection_run(3) [OF inv _ demo_fresh] by (simp add: demo_two_def)
  moreover have "flow_ok (new_conn ?s 30 None 8 sockaddr_zero) (new_channel ?s 20 8)"
    by (simp add: flow_ok_def readable_new isWriting_def new_channel_def event_consts)
  moreover have "\<not> write_refused slow_kernel f" for f by (simp add: write_refused_def slow_kernel_def not_less)
  moreover have "buf_room (length ''hi'') (outputBuffer (new_conn ?s 30 None 8 sockaddr_zero))"
    unfolding new_conn_fields by (simp add: buf_room_def Buffer_new_def kCheapPrepend_def)
  ultimately show "can_take slow_kernel ''hi'' demo_two 20" unfolding can_take_def by blast
qed


theorem first_message_fails_witness:
  "onMessage slow_kernel 9 (demo_app ''hi'' RegisterTable_new) = Inl Out_of_range"
  using first_message_fails [OF demo_app_wf, of "''hi''" 9 RegisterTable_new _ slow_kernel]
  by (simp add: demo_input reg_wf_new reg_view_new reg_room_def RegisterTable_new_def [THEN arg_cong [of _ _ count]]
      RegisterTable_new_def [THEN arg_cong [of _ _ chooseMap]])

definition second_table :: RegisterTable where
  "second_table = \<lparr>forId = [getAsString sockaddr_zero \<mapsto> 0], chooseMap = [0 \<mapsto> 2], count = 1\<rparr>"

theorem second_message_never_identifies_witness:
  "let s = demo_app (replicate 20 (CHR 0x00)) second_table in onMessage slow_kernel 9 s = Inl Undefined
    \<or> (\<exists>s'. onMessage slow_kernel 9 s = Inr s' \<and> server_wf s' \<and> mapped s' = [])"
proof -
  have p: "peerAddr demo_conn = sockaddr_zero" by (simp add: demo_conn_def TcpConnection_new_def)
  have "reg_wf second_table" "reg_room 2 second_table" "reg_view second_table (getAsString sockaddr_zero) = Some 2"
    by (auto simp: second_table_def reg_wf_def reg_room_def reg_view_def)
  then show ?thesis
    using second_message_never_identifies [OF demo_app_wf, of "replicate 20 (CHR 0x00)" 9 second_table _ slow_kernel] p
    by (auto simp: Let_def main_packet_def setRand_def setCer_def c_strlen_prefix_def)
qed


end
