(* ===== verification/Timer_Queue.thy ===== *)
theory Timer_Queue
  imports Prelude "HOL-Library.Product_Lexorder"
begin

section \<open>Timers\<close>

text \<open>
  Model of \<open>include/Timestamp.h\<close>, \<open>src/Timestamp.cpp\<close>, \<open>src/Timer.cpp\<close>,
  \<open>include/Timer.h\<close>, \<open>src/TimerQueue.cpp\<close> and \<open>include/TimerQueue.h\<close>.  A time is the
  64-bit number of microseconds since the epoch.  Timers are objects at addresses; the
  queue is a \<open>std::set\<close> of pairs of expiration and address, a strictly sorted list here.
  The interval of a timer is a \<open>double\<close>, of which the code uses two values: whether it is
  positive, and the number of microseconds it is truncated to; the model keeps these two.
  The clock is a parameter, and so is what a timer's callback does.
\<close>

subsection \<open>Times\<close>

definition kMicroSecondsPerSecond :: int where "kMicroSecondsPerSecond = 1000000"

definition int64 :: "int \<Rightarrow> int res" where
  "int64 n = definedR (- 9223372036854775808 \<le> n \<and> n < 9223372036854775808) (Inr n)"

definition valid :: "int \<Rightarrow> bool" where
  "valid t \<longleftrightarrow> t > 0"

definition Timestamp_now :: "int \<Rightarrow> int \<Rightarrow> int res" where
  "Timestamp_now tv_sec tv_usec =
     res_bind (int64 (tv_sec * kMicroSecondsPerSecond)) (\<lambda>us. int64 (us + tv_usec))"

text \<open>\<open>addTime\<close>, where \<open>delta\<close> is \<open>static_cast<int64_t>(seconds * kMicroSecondsPerSecond)\<close>.\<close>

definition addTime :: "int \<Rightarrow> int \<Rightarrow> int res" where
  "addTime t delta = int64 (t + delta)"

record timespec =
  tv_sec :: int
  tv_nsec :: int

definition howMuchTimeFromNow :: "int \<Rightarrow> int \<Rightarrow> timespec res" where
  "howMuchTimeFromNow now when =
     res_bind (int64 (when - now)) (\<lambda>us.
       let microseconds = (if us < 100 then 100 else us)
       in Inr \<lparr>tv_sec = microseconds div kMicroSecondsPerSecond,
               tv_nsec = (microseconds mod kMicroSecondsPerSecond) * 1000\<rparr>)"

subsection \<open>Timers and the queue\<close>

record Timer =
  expiration :: int
  delta :: int
  repeats :: bool

definition Timer_new :: "int \<Rightarrow> int \<Rightarrow> bool \<Rightarrow> Timer" where
  "Timer_new when d rep = \<lparr>expiration = when, delta = d, repeats = rep\<rparr>"

definition restart :: "int \<Rightarrow> Timer \<Rightarrow> Timer res" where
  "restart now t =
     (if repeats t then res_bind (addTime now (delta t)) (\<lambda>e. Inr (t\<lparr>expiration := e\<rparr>))
      else Inr (t\<lparr>expiration := 0\<rparr>))"

record timer_state =
  timers :: "(int \<times> nat) list"
  heap :: "nat \<rightharpoonup> Timer"
  armed :: "timespec option"

definition UINTPTR_MAX :: nat where "UINTPTR_MAX = 18446744073709551615"

text \<open>\<open>std::set::insert\<close>: the new list and whether the element was inserted.\<close>

fun set_insert :: "'a :: linorder \<Rightarrow> 'a list \<Rightarrow> 'a list \<times> bool" where
  "set_insert x [] = ([x], True)"
| "set_insert x (y # ys) =
     (if x < y then (x # y # ys, True)
      else if x = y then (y # ys, False)
      else (let (zs, b) = set_insert x ys in (y # zs, b)))"

definition TimerQueue_insert :: "nat \<Rightarrow> 'm timer_state_scheme \<Rightarrow> (bool \<times> 'm timer_state_scheme) res" where
  "TimerQueue_insert timer s =
     (case heap s timer of
        None \<Rightarrow> Inl Undefined
      | Some t \<Rightarrow>
          let when = expiration t;
              earliestChanged = (timers s = [] \<or> when < fst (hd (timers s)));
              (l, inserted) = set_insert (when, timer) (timers s)
          in assertR inserted (Inr (earliestChanged, s\<lparr>timers := l\<rparr>)))"

definition resetTimerfd :: "int \<Rightarrow> int \<Rightarrow> 'm timer_state_scheme \<Rightarrow> 'm timer_state_scheme res" where
  "resetTimerfd now e s = res_bind (howMuchTimeFromNow now e) (\<lambda>ts. Inr (s\<lparr>armed := Some ts\<rparr>))"

definition addTimerInLoop :: "int \<Rightarrow> nat \<Rightarrow> 'm timer_state_scheme \<Rightarrow> 'm timer_state_scheme res" where
  "addTimerInLoop now timer s =
     res_bind (TimerQueue_insert timer s) (\<lambda>(earliestChanged, s1).
       if earliestChanged then
         (case heap s1 timer of None \<Rightarrow> Inl Undefined | Some t \<Rightarrow> resetTimerfd now (expiration t) s1)
       else Inr s1)"

text \<open>\<open>addTimer\<close> in the loop thread: the new object at \<open>timer\<close>, then \<open>runInLoop\<close> calls at once.\<close>

definition addTimer :: "int \<Rightarrow> nat \<Rightarrow> int \<Rightarrow> int \<Rightarrow> bool \<Rightarrow> 'm timer_state_scheme \<Rightarrow> 'm timer_state_scheme res" where
  "addTimer now timer when d rep s = addTimerInLoop now timer (s\<lparr>heap := (heap s)(timer \<mapsto> Timer_new when d rep)\<rparr>)"

text \<open>\<open>lower_bound\<close> of a sorted list: the elements below the bound and the rest.\<close>

definition getExpired :: "int \<Rightarrow> 'm timer_state_scheme \<Rightarrow> ((int \<times> nat) list \<times> 'm timer_state_scheme) res" where
  "getExpired now s =
     (let sentry = (now, UINTPTR_MAX);
          expired = takeWhile (\<lambda>e. e < sentry) (timers s);
          rest = dropWhile (\<lambda>e. e < sentry) (timers s)
      in assertR (rest = [] \<or> now < fst (hd rest)) (Inr (expired, s\<lparr>timers := rest\<rparr>)))"

definition reset_step :: "int \<Rightarrow> int \<times> nat \<Rightarrow> 'm timer_state_scheme \<Rightarrow> 'm timer_state_scheme res" where
  "reset_step now it s =
     (case heap s (snd it) of
        None \<Rightarrow> Inl Undefined
      | Some t \<Rightarrow>
          if repeats t then
            res_bind (restart now t) (\<lambda>t'.
              res_bind (TimerQueue_insert (snd it) (s\<lparr>heap := (heap s)(snd it \<mapsto> t')\<rparr>)) (\<lambda>(b, s1). Inr s1))
          else Inr (s\<lparr>heap := (heap s)(snd it := None)\<rparr>))"

definition reset :: "int \<Rightarrow> (int \<times> nat) list \<Rightarrow> int \<Rightarrow> 'm timer_state_scheme \<Rightarrow> 'm timer_state_scheme res" where
  "reset now2 expired now s =
     res_bind (foldR (reset_step now) expired s) (\<lambda>s1.
       case timers s1 of
         [] \<Rightarrow> Inr s1
       | it # _ \<Rightarrow>
           (case heap s1 (snd it) of
              None \<Rightarrow> Inl Undefined
            | Some t \<Rightarrow> if valid (expiration t) then resetTimerfd now2 (expiration t) s1 else Inr s1))"

text \<open>
  \<open>handleRead\<close>: \<open>run\<close> is the effect of a timer's callback, \<open>now\<close> the time read first and
  \<open>now2\<close> the time read when the descriptor is armed again.
\<close>

definition TimerQueue_handleRead :: "(nat \<Rightarrow> 'm timer_state_scheme \<Rightarrow> 'm timer_state_scheme res) \<Rightarrow> int \<Rightarrow> int \<Rightarrow>
    'm timer_state_scheme \<Rightarrow> 'm timer_state_scheme res" where
  "TimerQueue_handleRead run now now2 s =
     res_bind (getExpired now s) (\<lambda>(expired, s1).
       res_bind (foldR (\<lambda>it s. case heap s (snd it) of None \<Rightarrow> Inl Undefined | Some _ \<Rightarrow> run (snd it) s) expired s1)
         (reset now2 expired now))"

subsection \<open>Sorted sets\<close>

lemma set_insert_new:
  assumes "sorted_wrt (<) xs" and "x \<notin> set xs"
  shows "\<exists>zs. set_insert x xs = (zs, True) \<and> sorted_wrt (<) zs \<and> set zs = insert x (set xs)"
  using assms
proof (induction xs)
  case Nil
  then show ?case by simp
next
  case (Cons y ys)
  show ?case
  proof (cases "x < y")
    case True
    with Cons.prems show ?thesis by (auto intro: order_less_trans)
  next
    case False
    with Cons.prems have "y < x" by auto
    moreover obtain zs where "set_insert x ys = (zs, True)" "sorted_wrt (<) zs" "set zs = insert x (set ys)"
      using Cons by auto
    ultimately show ?thesis using Cons.prems False by auto
  qed
qed

lemma set_insert_old: "x \<in> set xs \<Longrightarrow> sorted_wrt (<) xs \<Longrightarrow> set_insert x xs = (xs, False)"
  by (induction xs) auto

lemma takeWhile_below:
  assumes "sorted_wrt (<) xs"
  shows "set (takeWhile (\<lambda>e. e < (b :: 'a :: linorder)) xs) = {e \<in> set xs. e < b}"
    and "set (dropWhile (\<lambda>e. e < b) xs) = {e \<in> set xs. \<not> e < b}"
proof -
  show "set (takeWhile (\<lambda>e. e < b) xs) = {e \<in> set xs. e < b}"
    using assms by (induction xs) (auto intro: order_less_trans)
  show "set (dropWhile (\<lambda>e. e < b) xs) = {e \<in> set xs. \<not> e < b}"
    using assms by (induction xs) (auto intro: order_less_trans)
qed

subsection \<open>The invariant of the queue\<close>

text \<open>
  Every entry belongs to a timer that expires when the entry says; the timers in \<open>E\<close> have
  been taken out of the queue and not been deleted.  \<open>time_ok\<close> keeps all times below
  \<open>2^62\<close> microseconds (some hundred thousand years), so that no sum of two overflows.
\<close>

definition time_ok :: "int \<Rightarrow> bool" where
  "time_ok t \<longleftrightarrow> 0 \<le> t \<and> t < 4611686018427387904"

definition timer_ok :: "Timer \<Rightarrow> bool" where
  "timer_ok t \<longleftrightarrow> time_ok (expiration t) \<and> 0 \<le> delta t \<and> delta t < 2305843009213693952"

definition timer_inv :: "nat set \<Rightarrow> 'm timer_state_scheme \<Rightarrow> bool" where
  "timer_inv E s \<longleftrightarrow> sorted_wrt (<) (timers s)
     \<and> (\<forall>(e, p) \<in> set (timers s). p \<notin> E \<and> p < UINTPTR_MAX \<and> (\<exists>t. heap s p = Some t \<and> expiration t = e \<and> timer_ok t))
     \<and> (\<forall>p \<in> E. p < UINTPTR_MAX \<and> (\<exists>t. heap s p = Some t \<and> timer_ok t))"

lemma timer_invD:
  assumes "timer_inv E s"
  shows "sorted_wrt (<) (timers s)"
    "\<And>e p. (e, p) \<in> set (timers s) \<Longrightarrow> p \<notin> E \<and> p < UINTPTR_MAX \<and> (\<exists>t. heap s p = Some t \<and> expiration t = e \<and> timer_ok t)"
    "\<And>p. p \<in> E \<Longrightarrow> p < UINTPTR_MAX \<and> (\<exists>t. heap s p = Some t \<and> timer_ok t)"
  using assms unfolding timer_inv_def by auto

lemma timer_invI:
  assumes "sorted_wrt (<) (timers s)"
    "\<And>e p. (e, p) \<in> set (timers s) \<Longrightarrow> p \<notin> E"
    "\<And>e p. (e, p) \<in> set (timers s) \<Longrightarrow> p < UINTPTR_MAX \<and> (\<exists>t. heap s p = Some t \<and> expiration t = e \<and> timer_ok t)"
    "\<And>p. p \<in> E \<Longrightarrow> p < UINTPTR_MAX \<and> (\<exists>t. heap s p = Some t \<and> timer_ok t)"
  shows "timer_inv E s"
  using assms unfolding timer_inv_def by blast

lemma getExpired_ok:
  assumes inv: "timer_inv {} s"
  shows "\<exists>ex rest. getExpired now s = Inr (ex, s\<lparr>timers := rest\<rparr>) \<and> timers s = ex @ rest
    \<and> set ex = {e \<in> set (timers s). fst e \<le> now} \<and> set rest = {e \<in> set (timers s). now < fst e}
    \<and> distinct (map snd ex) \<and> timer_inv (snd ` set ex) (s\<lparr>timers := rest\<rparr>)"
proof -
  note i = timer_invD [OF inv]
  let ?P = "\<lambda>e. e < (now, UINTPTR_MAX)"
  define ex where "ex = takeWhile ?P (timers s)"
  define rest where "rest = dropWhile ?P (timers s)"
  have due: "?P e \<longleftrightarrow> fst e \<le> now" if "e \<in> set (timers s)" for e
    using i(2) [of "fst e" "snd e"] that by (cases e) (auto simp: less_prod_def)
  have sx: "set ex = {e \<in> set (timers s). fst e \<le> now}"
    unfolding ex_def takeWhile_below(1) [OF i(1)] using due by auto
  have sr: "set rest = {e \<in> set (timers s). now < fst e}"
    unfolding rest_def takeWhile_below(2) [OF i(1)] using due by auto
  have sp: "timers s = ex @ rest" by (simp add: ex_def rest_def)
  have late: "rest = [] \<or> now < fst (hd rest)" using sr by (cases rest) auto
  have addr: "e = e'" if "(e, p) \<in> set (timers s)" "(e', p) \<in> set (timers s)" for e e' p
    using i(2) [OF that(1)] i(2) [OF that(2)] by auto
  have "distinct ex" using i(1) sp by (simp add: sorted_wrt_append strict_sorted_iff)
  moreover have "inj_on snd (set ex)"
  proof (rule inj_onI)
    fix x y assume xy: "x \<in> set ex" "y \<in> set ex" "snd x = snd y"
    then have "(fst x, snd x) \<in> set (timers s)" "(fst y, snd x) \<in> set (timers s)"
      using sp by (metis Un_iff prod.collapse set_append)+
    with addr xy(3) show "x = y" by (simp add: prod_eq_iff)
  qed
  ultimately have dist: "distinct (map snd ex)" by (simp add: distinct_map)
  have "timer_inv (snd ` set ex) (s\<lparr>timers := rest\<rparr>)"
  proof (rule timer_invI)
    show "sorted_wrt (<) (timers (s\<lparr>timers := rest\<rparr>))" using i(1) sp by (simp add: sorted_wrt_append)
    show "p \<notin> snd ` set ex" if "(e, p) \<in> set (timers (s\<lparr>timers := rest\<rparr>))" for e p
      using that addr sx sr by force
    show "p < UINTPTR_MAX \<and> (\<exists>t. heap (s\<lparr>timers := rest\<rparr>) p = Some t \<and> timer_ok t)" if "p \<in> snd ` set ex" for p
      using that i(2) sp by fastforce
    show "p < UINTPTR_MAX \<and> (\<exists>t. heap (s\<lparr>timers := rest\<rparr>) p = Some t \<and> expiration t = e \<and> timer_ok t)"
      if "(e, p) \<in> set (timers (s\<lparr>timers := rest\<rparr>))" for e p
      using i(2) [of e p] that sp by simp
  qed
  moreover have "getExpired now s = Inr (ex, s\<lparr>timers := rest\<rparr>)"
    using late by (simp add: getExpired_def ex_def rest_def Let_def)
  ultimately show ?thesis using sp sx sr dist by blast
qed

lemma insert_ok:
  assumes inv: "timer_inv E s" and p: "p \<in> E" and t: "heap s p = Some t"
  shows "\<exists>zs. TimerQueue_insert p s = Inr (timers s = [] \<or> expiration t < fst (hd (timers s)), s\<lparr>timers := zs\<rparr>)
    \<and> set zs = insert (expiration t, p) (set (timers s)) \<and> timer_inv (E - {p}) (s\<lparr>timers := zs\<rparr>)"
proof -
  note i = timer_invD [OF inv]
  have "(expiration t, p) \<notin> set (timers s)" using i(2) p by blast
  then obtain zs where zs: "set_insert (expiration t, p) (timers s) = (zs, True)" "sorted_wrt (<) zs"
      "set zs = insert (expiration t, p) (set (timers s))"
    using set_insert_new [OF i(1)] by blast
  have "timer_inv (E - {p}) (s\<lparr>timers := zs\<rparr>)"
    unfolding timer_inv_def using i(2,3) i(3) [OF p] p t zs(2,3) by auto
  moreover have "TimerQueue_insert p s = Inr (timers s = [] \<or> expiration t < fst (hd (timers s)), s\<lparr>timers := zs\<rparr>)"
    using t zs(1) by (simp add: TimerQueue_insert_def Let_def)
  ultimately show ?thesis using zs(3) by blast
qed

lemma timer_inv_update:
  assumes "timer_inv E s" and "p \<in> E" and "timer_ok t"
  shows "timer_inv E (s\<lparr>heap := (heap s)(p \<mapsto> t)\<rparr>)"
  using assms timer_invD [OF assms(1)] unfolding timer_inv_def by fastforce

lemma timer_inv_delete:
  assumes "timer_inv E s" and "p \<in> E"
  shows "timer_inv (E - {p}) (s\<lparr>heap := (heap s)(p := None)\<rparr>)"
  using assms timer_invD [OF assms(1)] unfolding timer_inv_def by fastforce

lemma restart_ok:
  assumes "timer_ok t" and "repeats t" and "0 \<le> now" and "now < 2305843009213693952"
  shows "restart now t = Inr (t\<lparr>expiration := now + delta t\<rparr>) \<and> timer_ok (t\<lparr>expiration := now + delta t\<rparr>)"
  using assms by (simp add: restart_def addTime_def int64_def timer_ok_def time_ok_def)

lemma reset_step_ok:
  assumes inv: "timer_inv E s" and p: "p \<in> E" and t: "heap s p = Some t"
    and now: "0 \<le> now" "now < 2305843009213693952"
  shows "\<exists>s'. reset_step now (e, p) s = Inr s' \<and> timer_inv (E - {p}) s'
    \<and> set (timers s') = (if repeats t then insert (now + delta t, p) (set (timers s)) else set (timers s))
    \<and> (\<forall>q. q \<noteq> p \<longrightarrow> heap s' q = heap s q) \<and> (\<not> repeats t \<longrightarrow> heap s' p = None)"
proof (cases "repeats t")
  case False
  with t timer_inv_delete [OF inv p] show ?thesis by (simp add: reset_step_def)
next
  case True
  have tok: "timer_ok t" using timer_invD(3) [OF inv p] t by auto
  note r = restart_ok [OF tok True now]
  let ?t = "t\<lparr>expiration := now + delta t\<rparr>" and ?s = "s\<lparr>heap := (heap s)(p \<mapsto> t\<lparr>expiration := now + delta t\<rparr>)\<rparr>"
  have "timer_inv E ?s" using timer_inv_update [OF inv p] r by blast
  from insert_ok [OF this p, of ?t] obtain zs b where
    "TimerQueue_insert p ?s = Inr (b, ?s\<lparr>timers := zs\<rparr>)" "set zs = insert (now + delta t, p) (set (timers s))"
    "timer_inv (E - {p}) (?s\<lparr>timers := zs\<rparr>)" by auto
  with True t r show ?thesis by (simp add: reset_step_def)
qed

lemma reset_steps_ok:
  assumes "timer_inv E s" and "distinct (map snd ex)" and "E = snd ` set ex"
    and now: "0 \<le> now" "now < 2305843009213693952"
  shows "\<exists>s'. foldR (reset_step now) ex s = Inr s' \<and> timer_inv {} s'
    \<and> set (timers s') = set (timers s) \<union> {(now + delta t, p) | p t. p \<in> E \<and> heap s p = Some t \<and> repeats t}
    \<and> (\<forall>p. p \<in> E \<longrightarrow> (\<exists>t. heap s p = Some t \<and> \<not> repeats t) \<longrightarrow> heap s' p = None)
    \<and> (\<forall>q. q \<notin> E \<longrightarrow> heap s' q = heap s q)"
  using assms(1-3)
proof (induction ex arbitrary: s E)
  case Nil
  then show ?case by simp
next
  case (Cons it ex)
  obtain e p where it: "it = (e, p)" by (cases it)
  have p: "p \<in> E" using Cons.prems(3) it by simp
  obtain t where t: "heap s p = Some t" using timer_invD(3) [OF Cons.prems(1) p] by blast
  obtain s1 where s1: "reset_step now (e, p) s = Inr s1" "timer_inv (E - {p}) s1"
      "set (timers s1) = (if repeats t then insert (now + delta t, p) (set (timers s)) else set (timers s))"
      "\<forall>q. q \<noteq> p \<longrightarrow> heap s1 q = heap s q" "\<not> repeats t \<longrightarrow> heap s1 p = None"
    using reset_step_ok [OF Cons.prems(1) p t now] by blast
  have E1: "E - {p} = snd ` set ex" using Cons.prems(2,3) it by auto
  have d: "distinct (map snd ex)" using Cons.prems(2) by simp
  obtain s2 where s2: "foldR (reset_step now) ex s1 = Inr s2" "timer_inv {} s2"
      "set (timers s2) = set (timers s1) \<union> {(now + delta t, p') | p' t. p' \<in> E - {p} \<and> heap s1 p' = Some t \<and> repeats t}"
      "\<forall>q. q \<in> E - {p} \<longrightarrow> (\<exists>t. heap s1 q = Some t \<and> \<not> repeats t) \<longrightarrow> heap s2 q = None"
      "\<forall>q. q \<notin> E - {p} \<longrightarrow> heap s2 q = heap s1 q"
    using Cons.IH [OF s1(2) d E1] by (elim exE conjE) (rule that)
  have "set (timers s2) = set (timers s) \<union> {(now + delta t, p) | p t. p \<in> E \<and> heap s p = Some t \<and> repeats t}"
  proof (rule set_eqI)
    fix x
    show "x \<in> set (timers s2) \<longleftrightarrow> x \<in> set (timers s) \<union> {(now + delta t, p) | p t. p \<in> E \<and> heap s p = Some t \<and> repeats t}"
      unfolding s2(3) s1(3) using s1(4) p t by (cases x; cases "snd x = p") auto
  qed
  moreover have "heap s2 q = None" if "q \<in> E" "\<exists>t. heap s q = Some t \<and> \<not> repeats t" for q
    using that s2(4,5) s1(4,5) t by (cases "q = p") auto
  moreover have "heap s2 q = heap s q" if "q \<notin> E" for q
    using that s2(5) s1(4) p by (cases "q = p") auto
  ultimately show ?case using s1(1) s2(1,2) by (simp add: it)
qed

lemma arm_ok:
  assumes "time_ok e" and "time_ok now"
  shows "\<exists>ts. howMuchTimeFromNow now e = Inr ts \<and> 0 \<le> tv_sec ts \<and> 0 \<le> tv_nsec ts \<and> tv_nsec ts < 1000000000
    \<and> tv_sec ts * 1000000000 + tv_nsec ts = 1000 * max 100 (e - now)"
proof -
  define us where "us = max 100 (e - now)"
  have "int64 (e - now) = Inr (e - now)" using assms by (simp add: int64_def time_ok_def)
  then have run: "howMuchTimeFromNow now e = Inr \<lparr>tv_sec = us div 1000000, tv_nsec = us mod 1000000 * 1000\<rparr>"
    by (auto simp: howMuchTimeFromNow_def us_def kMicroSecondsPerSecond_def max_def Let_def)
  have "us mod 1000000 < 1000000" "0 \<le> us mod 1000000" "0 \<le> us div 1000000"
    by (simp_all add: us_def pos_imp_zdiv_nonneg_iff)
  moreover have "us div 1000000 * 1000000 + us mod 1000000 = us" by simp
  ultimately show ?thesis using run by (simp add: us_def [symmetric]) presburger
qed

subsection \<open>The interface: a queue of things that fall due\<close>

locale due_queue =
  fixes inv :: "'s \<Rightarrow> bool" and entries :: "'s \<Rightarrow> (int \<times> nat) set"
    and take_due :: "int \<Rightarrow> 's \<Rightarrow> ((int \<times> nat) list \<times> 's) res"
  assumes take_ok: "inv s \<Longrightarrow> \<exists>ex s'. take_due now s = Inr (ex, s') \<and> inv s' \<and> sorted_wrt (<) ex
      \<and> set ex = {e \<in> entries s. fst e \<le> now} \<and> entries s' = {e \<in> entries s. now < fst e}"
begin

text \<open>Taking at two times, one after the other, takes the same entries in the same order as taking once.\<close>

lemma take_twice:
  assumes "inv s" and "t1 \<le> t2"
  shows "\<exists>ex1 s1 ex2 s2. take_due t1 s = Inr (ex1, s1) \<and> take_due t2 s1 = Inr (ex2, s2)
    \<and> sorted_wrt (<) (ex1 @ ex2) \<and> set (ex1 @ ex2) = {e \<in> entries s. fst e \<le> t2}
    \<and> entries s2 = {e \<in> entries s. t2 < fst e}"
proof -
  obtain ex1 s1 where 1: "take_due t1 s = Inr (ex1, s1)" "inv s1" "sorted_wrt (<) ex1"
      "set ex1 = {e \<in> entries s. fst e \<le> t1}" "entries s1 = {e \<in> entries s. t1 < fst e}"
    using take_ok [OF assms(1), of t1] by blast
  obtain ex2 s2 where 2: "take_due t2 s1 = Inr (ex2, s2)" "sorted_wrt (<) ex2"
      "set ex2 = {e \<in> entries s1. fst e \<le> t2}" "entries s2 = {e \<in> entries s1. t2 < fst e}"
    using take_ok [OF 1(2), of t2] by blast
  have "sorted_wrt (<) (ex1 @ ex2)" using 1(3-5) 2(2,3) by (auto simp: sorted_wrt_append less_prod_def)
  moreover have "set (ex1 @ ex2) = {e \<in> entries s. fst e \<le> t2}" "entries s2 = {e \<in> entries s. t2 < fst e}"
    using 1(4,5) 2(3,4) assms(2) by auto
  ultimately show ?thesis using 1(1) 2(1) by blast
qed

end

lemma timer_inv_weaken: "timer_inv E s \<Longrightarrow> timer_inv {} s"
  unfolding timer_inv_def by fastforce

interpretation tq: due_queue "timer_inv {}" "\<lambda>s. set (timers s)" getExpired
proof unfold_locales
  fix s :: "'m timer_state_scheme" and now
  assume inv: "timer_inv {} s"
  obtain ex rest where r: "getExpired now s = Inr (ex, s\<lparr>timers := rest\<rparr>)" "timers s = ex @ rest"
      "set ex = {e \<in> set (timers s). fst e \<le> now}" "set rest = {e \<in> set (timers s). now < fst e}"
      "timer_inv (snd ` set ex) (s\<lparr>timers := rest\<rparr>)"
    using getExpired_ok [OF inv] by blast
  have "sorted_wrt (<) ex" using timer_invD(1) [OF inv] r(2) by (simp add: sorted_wrt_append)
  with r(1,3,4) timer_inv_weaken [OF r(5)] show "\<exists>ex s'. getExpired now s = Inr (ex, s') \<and> timer_inv {} s' \<and> sorted_wrt (<) ex
      \<and> set ex = {e \<in> set (timers s). fst e \<le> now} \<and> set (timers s') = {e \<in> set (timers s). now < fst e}"
    by (intro exI [of _ ex] exI [of _ "s\<lparr>timers := rest\<rparr>"]) simp
qed

subsection \<open>One alarm\<close>

text \<open>
  What a timer callback may do: it keeps the queue consistent, may add timers, and leaves
  the timers that are being run alone.
\<close>

definition polite :: "(nat \<Rightarrow> 'm timer_state_scheme \<Rightarrow> 'm timer_state_scheme res) \<Rightarrow> bool" where
  "polite run \<longleftrightarrow> (\<forall>E p s. timer_inv E s \<longrightarrow> p \<in> E \<longrightarrow>
     (\<exists>s'. run p s = Inr s' \<and> timer_inv E s' \<and> set (timers s) \<subseteq> set (timers s') \<and> (\<forall>q \<in> E. heap s' q = heap s q)))"

lemma run_callbacks:
  assumes "polite run" and "timer_inv E s" and "snd ` set ex \<subseteq> E"
  shows "\<exists>s'. foldR (\<lambda>it s. case heap s (snd it) of None \<Rightarrow> Inl Undefined | Some _ \<Rightarrow> run (snd it) s) ex s = Inr s'
    \<and> timer_inv E s' \<and> set (timers s) \<subseteq> set (timers s') \<and> (\<forall>q \<in> E. heap s' q = heap s q)"
  using assms(2,3)
proof (induction ex arbitrary: s)
  case Nil
  then show ?case by simp
next
  case (Cons it ex)
  have p: "snd it \<in> E" using Cons.prems(2) by simp
  obtain t where t: "heap s (snd it) = Some t" using timer_invD(3) [OF Cons.prems(1) p] by blast
  obtain s1 where s1: "run (snd it) s = Inr s1" "timer_inv E s1" "set (timers s) \<subseteq> set (timers s1)"
      "\<forall>q \<in> E. heap s1 q = heap s q"
    using assms(1) Cons.prems(1) p unfolding polite_def by blast
  have "snd ` set ex \<subseteq> E" using Cons.prems(2) by simp
  then obtain s2 where s2: "foldR (\<lambda>it s. case heap s (snd it) of None \<Rightarrow> Inl Undefined | Some _ \<Rightarrow> run (snd it) s) ex s1 = Inr s2"
      "timer_inv E s2" "set (timers s1) \<subseteq> set (timers s2)" "\<forall>q \<in> E. heap s2 q = heap s1 q"
    using Cons.IH [OF s1(2)] by blast
  have "set (timers s) \<subseteq> set (timers s2)" using s1(3) s2(3) by (rule subset_trans)
  with s1 s2 t show ?case by simp
qed

lemma rearm:
  assumes inv: "timer_inv {} s" and now: "time_ok now"
  shows "\<exists>s'. (case timers s of [] \<Rightarrow> Inr s
      | it # _ \<Rightarrow> (case heap s (snd it) of None \<Rightarrow> Inl Undefined
          | Some t \<Rightarrow> if valid (expiration t) then resetTimerfd now (expiration t) s else Inr s)) = Inr s'
    \<and> timers s' = timers s \<and> heap s' = heap s
    \<and> (\<forall>e p rest. timers s = (e, p) # rest \<longrightarrow> 0 < e \<longrightarrow> map_option Inr (armed s') = Some (howMuchTimeFromNow now e))"
proof (cases "timers s")
  case Nil
  then show ?thesis by simp
next
  case (Cons it rest)
  obtain e p where it: "it = (e, p)" by (cases it)
  obtain t where t: "heap s p = Some t" "expiration t = e" "timer_ok t"
    using timer_invD(2) [OF inv, of e p] Cons it by auto
  obtain ts where "howMuchTimeFromNow now e = Inr ts"
    using arm_ok [OF _ now, of e] t(2,3) by (auto simp: timer_ok_def)
  with Cons it t show ?thesis by (auto simp: resetTimerfd_def valid_def)
qed

lemma alarm:
  assumes inv: "timer_inv {} s" and run: "polite run"
    and now: "0 \<le> now" "now < 2305843009213693952" "time_ok now2"
  shows "\<exists>s'. TimerQueue_handleRead run now now2 s = Inr s' \<and> timer_inv {} s'
    \<and> {e \<in> set (timers s). now < fst e} \<subseteq> set (timers s')
    \<and> (\<forall>e p t. (e, p) \<in> set (timers s) \<longrightarrow> e \<le> now \<longrightarrow> heap s p = Some t \<longrightarrow>
         (if repeats t then (now + delta t, p) \<in> set (timers s') else heap s' p = None))
    \<and> (\<forall>e p rest. timers s' = (e, p) # rest \<longrightarrow> 0 < e \<longrightarrow> map_option Inr (armed s') = Some (howMuchTimeFromNow now2 e))"
proof -
  obtain ex rest where x: "getExpired now s = Inr (ex, s\<lparr>timers := rest\<rparr>)"
      "set ex = {e \<in> set (timers s). fst e \<le> now}" "set rest = {e \<in> set (timers s). now < fst e}"
      "distinct (map snd ex)" "timer_inv (snd ` set ex) (s\<lparr>timers := rest\<rparr>)"
    using getExpired_ok [OF inv] by blast
  let ?E = "snd ` set ex" and ?s1 = "s\<lparr>timers := rest\<rparr>"
  obtain s2 where s2: "foldR (\<lambda>it s. case heap s (snd it) of None \<Rightarrow> Inl Undefined | Some _ \<Rightarrow> run (snd it) s) ex ?s1 = Inr s2"
      "timer_inv ?E s2" "set rest \<subseteq> set (timers s2)" "\<forall>q \<in> ?E. heap s2 q = heap s q"
    using run_callbacks [OF run x(5) subset_refl] by auto
  obtain s3 where s3: "foldR (reset_step now) ex s2 = Inr s3" "timer_inv {} s3"
      "set (timers s3) = set (timers s2) \<union> {(now + delta t, p) | p t. p \<in> ?E \<and> heap s2 p = Some t \<and> repeats t}"
      "\<forall>p. p \<in> ?E \<longrightarrow> (\<exists>t. heap s2 p = Some t \<and> \<not> repeats t) \<longrightarrow> heap s3 p = None"
    using reset_steps_ok [OF s2(2) x(4) refl now(1,2)] by blast
  obtain s4 where s4: "(case timers s3 of [] \<Rightarrow> Inr s3
      | it # _ \<Rightarrow> (case heap s3 (snd it) of None \<Rightarrow> Inl Undefined
          | Some t \<Rightarrow> if valid (expiration t) then resetTimerfd now2 (expiration t) s3 else Inr s3)) = Inr s4"
      "timers s4 = timers s3" "heap s4 = heap s3"
      "\<forall>e p rest. timers s3 = (e, p) # rest \<longrightarrow> 0 < e \<longrightarrow> map_option Inr (armed s4) = Some (howMuchTimeFromNow now2 e)"
    using rearm [OF s3(2) now(3)] by blast
  have "TimerQueue_handleRead run now now2 s = Inr s4"
    using x(1) s2(1) s3(1) s4(1) by (simp add: TimerQueue_handleRead_def reset_def)
  moreover have "timer_inv {} s4" using s3(2) s4(2,3) by (simp add: timer_inv_def)
  moreover have "{e \<in> set (timers s). now < fst e} \<subseteq> set (timers s4)" using x(3) s2(3) s3(3) s4(2) by auto
  moreover have "if repeats t then (now + delta t, p) \<in> set (timers s4) else heap s4 p = None"
    if h: "(e, p) \<in> set (timers s)" "e \<le> now" "heap s p = Some t" for e p t
  proof -
    have "p \<in> ?E" using h x(2) by force
    moreover from this have "heap s2 p = Some t" using s2(4) h(3) by auto
    ultimately show ?thesis using s3(3,4) s4(2,3) by auto
  qed
  ultimately show ?thesis using s4(4) unfolding s4(2) [symmetric] by blast
qed

subsection \<open>Properties\<close>


text \<open>
  Expired timers come out in order and none is skipped: taking the due timers at
  two times, one after the other, gives a strictly sorted sequence of exactly the entries due
  at the second time, and leaves exactly the later ones.
\<close>
theorem expired_timers_in_order:
  assumes "timer_inv {} s" and "t1 \<le> t2"
  shows "\<exists>ex1 s1 ex2 s2. getExpired t1 s = Inr (ex1, s1) \<and> getExpired t2 s1 = Inr (ex2, s2)
    \<and> sorted_wrt (<) (ex1 @ ex2) \<and> set (ex1 @ ex2) = {e \<in> set (timers s). fst e \<le> t2}
    \<and> set (timers s2) = {e \<in> set (timers s). t2 < fst e}"
  using assms by (rule tq.take_twice)

text \<open>
  The time handed to \<open>timerfd_settime\<close> is always well formed: the nanoseconds lie
  in a second, nothing overflows, and the sum is the time that is left, but at least 100
  microseconds, so that the descriptor is never disarmed by accident.
\<close>
theorem armed_time_bounds:
  assumes "time_ok when" and "time_ok now"
  shows "\<exists>ts. howMuchTimeFromNow now when = Inr ts \<and> 0 \<le> tv_sec ts \<and> 0 \<le> tv_nsec ts \<and> tv_nsec ts < 1000000000
    \<and> tv_sec ts * 1000000000 + tv_nsec ts = 1000 * max 100 (when - now)"
  using assms by (rule arm_ok)

definition two_timers :: timer_state where
  "two_timers = \<lparr>timers = [(5, 1), (9, 2)], heap = [1 \<mapsto> Timer_new 5 10 True, 2 \<mapsto> Timer_new 9 0 False], armed = None\<rparr>"

lemma two_timers_inv: "timer_inv {} two_timers"
  by (simp add: timer_inv_def two_timers_def Timer_new_def timer_ok_def time_ok_def UINTPTR_MAX_def)


theorem expired_timers_in_order_witness:
  "\<exists>ex1 s1 ex2 s2. getExpired 6 two_timers = Inr (ex1, s1) \<and> getExpired 9 s1 = Inr (ex2, s2)
    \<and> sorted_wrt (<) (ex1 @ ex2) \<and> set (ex1 @ ex2) = {e \<in> set (timers two_timers). fst e \<le> 9}
    \<and> set (timers s2) = {e \<in> set (timers two_timers). 9 < fst e}"
  by (rule expired_timers_in_order [OF two_timers_inv]) simp

theorem armed_time_bounds_witness:
  "\<exists>ts. howMuchTimeFromNow 10 3000020 = Inr ts \<and> tv_sec ts * 1000000000 + tv_nsec ts = 3000010000"
  using armed_time_bounds [of 3000020 10] by (auto simp: time_ok_def)

end
