(* ===== verification/Log_File.thy ===== *)
theory Log_File
  imports Civil_Time
begin

section \<open>Log files: buffered writing and rolling\<close>

text \<open>
  Model of \<open>include/LogFile.h\<close> and \<open>src/LogFile.cpp\<close>.  A \<open>File\<close> is an open stdio stream:
  \<open>accepted\<close> are the bytes \<open>fwrite\<close> has taken, \<open>flushed\<close> how many of them the last
  \<open>fflush\<close> has handed to the kernel.  A \<open>LogFile\<close> owns the current \<open>File\<close>; \<open>rolled\<close> keeps
  the earlier ones, which the code neither closes nor flushes.  The operating system answers
  through the record \<open>file_env\<close>: how many bytes each \<open>fwrite\<close> call can take, whether the
  stream reports an error, whether \<open>fopen\<close> succeeds, what the two possible readings of
  \<open>time(2)\<close> are, and the process id.
\<close>

subsection \<open>The operating system's answers\<close>

record file_env =
  takes :: "nat \<Rightarrow> size_t"
  ferr :: bool
  fopen_ok :: bool
  now1 :: int
  now2 :: int
  getpid :: int

subsection \<open>File\<close>

record File =
  fname :: string
  accepted :: string
  flushed :: nat
  reports :: nat
  writtenBytes :: size_t

definition File_new :: "bool \<Rightarrow> string \<Rightarrow> File res" where
  "File_new opened filename =
     assertR opened (Inr \<lparr>fname = filename, accepted = [], flushed = 0, reports = 0, writtenBytes = 0\<rparr>)"

text \<open>
  One \<open>fwrite\<close>, the \<open>k\<close>-th of an \<open>append\<close>: the stream takes a prefix of what it is offered.
  The pointer is never null, since the constructor asserts it.
\<close>

definition File_write :: "file_env \<Rightarrow> nat \<Rightarrow> string \<Rightarrow> File \<Rightarrow> size_t \<times> File" where
  "File_write env k logline f =
     (let x = min (takes env k) (length logline)
      in (x, f\<lparr>accepted := accepted f @ take x logline\<rparr>))"

text \<open>The \<open>while (remain > 0)\<close> loop, entered with the number \<open>n\<close> of bytes already written.\<close>

function append_loop :: "file_env \<Rightarrow> nat \<Rightarrow> string \<Rightarrow> size_t \<Rightarrow> File \<Rightarrow> File" where
  "append_loop env k logline n f =
     (if n < length logline
      then (let (x, f') = File_write env k (drop n logline) f
            in if x = 0 then (if ferr env then f'\<lparr>reports := reports f' + 1\<rparr> else f')
               else append_loop env (Suc k) logline (n + x) f')
      else f)"
  by pat_completeness auto
termination
  by (relation "measure (\<lambda>(env, k, logline, n, f). length logline - n)") (auto simp: File_write_def)

declare append_loop.simps [simp del]

definition File_append :: "file_env \<Rightarrow> string \<Rightarrow> File \<Rightarrow> File" where
  "File_append env logline f =
     (let (n, f1) = File_write env 0 logline f;
          f2 = append_loop env 1 logline n f1
      in f2\<lparr>writtenBytes := size_add (writtenBytes f2) (length logline)\<rparr>)"

definition File_flush :: "File \<Rightarrow> File" where
  "File_flush f = f\<lparr>flushed := length (accepted f)\<rparr>"

subsection \<open>LogFile\<close>

definition kCheckTimeRoll :: int where "kCheckTimeRoll = 1024"
definition kRollPerSeconds :: int where "kRollPerSeconds = 60 * 60 * 24"

record LogFile =
  basename :: string
  rollSize :: size_t
  flushInterval :: int
  count :: int
  has_mutex :: bool
  startOfPeriod :: int
  lastRoll :: int
  lastFlush :: int
  curFile :: "File option"
  rolled :: "File list"

text \<open>
  \<open>".%Y%m%d-%H%M%S"\<close> needs at most 24 characters for every broken-down time, so
  \<open>strftime\<close> always fills the 32 bytes of \<open>timebuf\<close> with the whole text.
\<close>

definition timebuf :: "int \<Rightarrow> string" where
  "timebuf now =
     (let tm = gmtime_r now
      in ''.'' @ show_int (tm_year tm + 1900) @ fmt_0d 2 (tm_mon tm + 1) @ fmt_0d 2 (tm_mday tm)
         @ ''-'' @ fmt_0d 2 (tm_hour tm) @ fmt_0d 2 (tm_min tm) @ fmt_0d 2 (tm_sec tm))"

definition getLogFileName :: "string \<Rightarrow> int \<Rightarrow> int \<Rightarrow> string" where
  "getLogFileName bname now pid =
     bname @ timebuf now @ fst (snprintf 32 (''.'' @ show_int pid)) @ ''.log''"

definition rollFile :: "bool \<Rightarrow> int \<Rightarrow> int \<Rightarrow> LogFile \<Rightarrow> LogFile res" where
  "rollFile opened now pid lf =
     (let filename = getLogFileName (basename lf) now pid;
          start = now sdiv kRollPerSeconds * kRollPerSeconds
      in if now > lastRoll lf
         then res_bind (File_new opened filename)
                (\<lambda>f. Inr (lf\<lparr>startOfPeriod := start, lastRoll := now, lastFlush := now, curFile := Some f,
                             rolled := rolled lf @ (case curFile lf of Some g \<Rightarrow> [g] | None \<Rightarrow> [])\<rparr>))
         else Inr lf)"

text \<open>The pointer \<open>file_\<close> is not initialised before the constructor rolls for the first time.\<close>

definition LogFile_new :: "string \<Rightarrow> size_t \<Rightarrow> bool \<Rightarrow> int \<Rightarrow> file_env \<Rightarrow> LogFile res" where
  "LogFile_new bname rs threadSafe interval env =
     assertR (CHR ''/'' \<notin> set bname)
       (rollFile (fopen_ok env) (now1 env) (getpid env)
          \<lparr>basename = bname, rollSize = rs, flushInterval = interval, count = 0, has_mutex = threadSafe,
           startOfPeriod = 0, lastRoll = 0, lastFlush = 0, curFile = None, rolled = []\<rparr>)"

definition append_unlocked :: "file_env \<Rightarrow> string \<Rightarrow> LogFile \<Rightarrow> LogFile res" where
  "append_unlocked env logline lf =
     (case curFile lf of None \<Rightarrow> Inl Undefined
      | Some f \<Rightarrow>
          (let f' = File_append env logline f; lf1 = lf\<lparr>curFile := Some f'\<rparr>
           in if writtenBytes f' > rollSize lf1
              then rollFile (fopen_ok env) (now1 env) (getpid env) lf1
              else if count lf1 > kCheckTimeRoll
              then (let lf2 = lf1\<lparr>count := 0\<rparr>; now = now1 env;
                        thisPeriod = now sdiv kRollPerSeconds * kRollPerSeconds
                    in if thisPeriod \<noteq> startOfPeriod lf2
                       then rollFile (fopen_ok env) (now2 env) (getpid env) lf2
                       else if now - lastFlush lf2 > flushInterval lf2
                       then Inr (lf2\<lparr>lastFlush := now, curFile := Some (File_flush f')\<rparr>)
                       else Inr lf2)
              else Inr (lf1\<lparr>count := count lf1 + 1\<rparr>)))"

text \<open>Both branches of \<open>append\<close> do the same; the mutex only orders them against each other.\<close>

definition LogFile_append :: "file_env \<Rightarrow> string \<Rightarrow> LogFile \<Rightarrow> LogFile res" where
  "LogFile_append env logline lf =
     (if has_mutex lf then append_unlocked env logline lf else append_unlocked env logline lf)"

definition LogFile_flush :: "LogFile \<Rightarrow> LogFile res" where
  "LogFile_flush lf =
     (case curFile lf of None \<Rightarrow> Inl Undefined | Some f \<Rightarrow> Inr (lf\<lparr>curFile := Some (File_flush f)\<rparr>))"

subsection \<open>The write loop\<close>

text \<open>How many of \<open>r\<close> remaining bytes the calls from the \<open>k\<close>-th on take before one takes none.\<close>

function taken :: "(nat \<Rightarrow> size_t) \<Rightarrow> nat \<Rightarrow> nat \<Rightarrow> nat" where
  "taken w k r = (let x = min (w k) r in if x = 0 then 0 else x + taken w (Suc k) (r - x))"
  by pat_completeness auto
termination
  by (relation "measure (\<lambda>(w, k, r). r)") auto

declare taken.simps [simp del]

lemma taken_more: "min (w k) r \<noteq> 0 \<Longrightarrow> taken w k r = min (w k) r + taken w (Suc k) (r - min (w k) r)"
  by (subst taken.simps) (simp only: Let_def if_False)

lemma taken_le: "taken w k r \<le> r"
proof (induction w k r rule: taken.induct)
  case (1 w k r)
  then show ?case by (cases "min (w k) r = 0") (auto simp: taken.simps [of w k r] Let_def)
qed

lemma taken_all: "(\<And>j. 0 < w j) \<Longrightarrow> taken w k r = r"
proof (induction w k r rule: taken.induct)
  case (1 w k r)
  show ?case
  proof (cases "r = 0")
    case True
    then show ?thesis by (simp add: taken.simps [of w k])
  next
    case False
    then have "min (w k) r \<noteq> 0" using 1(2) by simp
    with 1 show ?thesis by (simp add: taken.simps [of w k r] Let_def)
  qed
qed

lemma taken_stops: "taken w k r < r \<Longrightarrow> \<exists>j\<ge>k. j \<le> k + taken w k r \<and> w j = 0"
proof (induction w k r rule: taken.induct)
  case (1 w k r)
  let ?x = "min (w k) r"
  show ?case
  proof (cases "?x = 0")
    case True
    with 1(2) have "w k = 0" by auto
    then show ?thesis by (intro exI [of _ k]) simp
  next
    case False
    then have t: "taken w k r = ?x + taken w (Suc k) (r - ?x)" by (rule taken_more)
    then have "taken w (Suc k) (r - ?x) < r - ?x" using 1(2) by linarith
    from 1(1) [OF refl False this] obtain j where
      "Suc k \<le> j" "j \<le> Suc k + taken w (Suc k) (r - ?x)" "w j = 0" by blast
    with t False show ?thesis by (intro exI [of _ j]) linarith
  qed
qed

lemma append_loop_taken:
  "append_loop env k logline n f
     = f\<lparr>accepted := accepted f @ take (taken (takes env) k (length logline - n)) (drop n logline),
         reports := reports f
           + (if taken (takes env) k (length logline - n) < length logline - n \<and> ferr env then 1 else 0)\<rparr>"
proof (induction env k logline n f rule: append_loop.induct)
  case (1 env k logline n f)
  let ?r = "length logline - n"
  let ?x = "min (takes env k) ?r"
  have w: "File_write env k (drop n logline) f = (?x, f\<lparr>accepted := accepted f @ take ?x (drop n logline)\<rparr>)"
    by (simp add: File_write_def Let_def)
  consider "?r = 0" | "?r \<noteq> 0" "?x = 0" | "?r \<noteq> 0" "?x \<noteq> 0" by blast
  then show ?case
  proof cases
    case 1
    then show ?thesis by (simp add: append_loop.simps [of env k logline n f] taken.simps [of _ k])
  next
    case 2
    then show ?thesis using w by (simp add: append_loop.simps [of env k logline n f] taken.simps [of _ k])
  next
    case 3
    then have n: "n < length logline" by simp
    have t: "taken (takes env) k ?r = ?x + taken (takes env) (Suc k) (?r - ?x)"
      using 3(2) by (rule taken_more)
    have r: "length logline - (n + ?x) = ?r - ?x" by simp
    have "append_loop env k logline n f
        = append_loop env (Suc k) logline (n + ?x) (f\<lparr>accepted := accepted f @ take ?x (drop n logline)\<rparr>)"
      using n 3(2) w by (simp add: append_loop.simps [of env k logline n f])
    also note "1.IH" [OF n w [symmetric] refl 3(2), unfolded r]
    finally show ?thesis
      unfolding t less_diff_conv [of _ ?r ?x, unfolded add.commute [of _ ?x], symmetric]
      by (simp add: take_add add.commute [of ?x n])
  qed
qed

lemma taken_cong:
  "(\<And>j. k \<le> j \<Longrightarrow> j < k + r \<Longrightarrow> w j = w' j) \<Longrightarrow> taken w k r = taken w' k r"
proof (induction w k r rule: taken.induct)
  case (1 w k r)
  have eq: "r \<noteq> 0 \<Longrightarrow> w k = w' k" using 1(2) [of k] by simp
  show ?case
  proof (cases "min (w k) r = 0")
    case True
    with eq show ?thesis by (cases "r = 0") (simp_all add: taken.simps [of _ k])
  next
    case False
    then have x: "min (w' k) r = min (w k) r" using eq by (cases "r = 0") simp_all
    have "taken w (Suc k) (r - min (w k) r) = taken w' (Suc k) (r - min (w k) r)"
      using False by (intro 1(1) [OF refl False] 1(2)) auto
    with False x show ?thesis using taken_more [of w k r] taken_more [of w' k r] by simp
  qed
qed

text \<open>
  What one \<open>append\<close> puts into the stream: the first call may take nothing without ending it.
\<close>

definition append_taken :: "(nat \<Rightarrow> size_t) \<Rightarrow> nat \<Rightarrow> nat" where
  "append_taken w len = min (w 0) len + taken w 1 (len - min (w 0) len)"

lemma append_taken_le: "append_taken w len \<le> len"
  using taken_le [of w 1 "len - min (w 0) len"] by (simp add: append_taken_def)

lemma append_taken_all: "(\<And>j. 0 < w j) \<Longrightarrow> append_taken w len = len"
  using taken_all [of w 1 "len - min (w 0) len"] by (simp add: append_taken_def)

lemma File_append_taken:
  "File_append env logline f
     = f\<lparr>accepted := accepted f @ take (append_taken (takes env) (length logline)) logline,
         reports := reports f
           + (if append_taken (takes env) (length logline) < length logline \<and> ferr env then 1 else 0),
         writtenBytes := size_add (writtenBytes f) (length logline)\<rparr>"
proof -
  let ?n = "min (takes env 0) (length logline)"
  have "taken (takes env) 1 (length logline - ?n) < length logline - ?n
      \<longleftrightarrow> append_taken (takes env) (length logline) < length logline"
    unfolding append_taken_def by linarith
  moreover have "take ?n logline @ take (taken (takes env) 1 (length logline - ?n)) (drop ?n logline)
      = take (append_taken (takes env) (length logline)) logline"
    by (simp add: append_taken_def take_add)
  ultimately show ?thesis
    by (simp add: File_append_def File_write_def append_loop_taken Let_def del: One_nat_def)
qed

subsection \<open>File names\<close>

lemma length_timebuf: "time_ok t \<Longrightarrow> length (timebuf t) = 16"
  using tm_widths [OF gmtime_ok [of t]] show_year(1) [of t] by (simp add: timebuf_def Let_def)

lemma timebuf_inject:
  assumes "time_ok s" and "time_ok t" and "timebuf s = timebuf t"
  shows "s = t"
proof -
  note w = tm_widths [OF gmtime_ok [of s]] tm_widths [OF gmtime_ok [of t]] show_year [OF assms(1)] show_year [OF assms(2)]
  let ?s = "gmtime_r s" and ?t = "gmtime_r t"
  have "show_int (tm_year ?s + 1900) = show_int (tm_year ?t + 1900)"
    and "fmt_0d 2 (tm_mon ?s + 1) = fmt_0d 2 (tm_mon ?t + 1)" "fmt_0d 2 (tm_mday ?s) = fmt_0d 2 (tm_mday ?t)"
      "fmt_0d 2 (tm_hour ?s) = fmt_0d 2 (tm_hour ?t)" "fmt_0d 2 (tm_min ?s) = fmt_0d 2 (tm_min ?t)"
      "fmt_0d 2 (tm_sec ?s) = fmt_0d 2 (tm_sec ?t)"
    using assms(3) w by (simp_all add: timebuf_def Let_def)
  then have "tm_year ?s = tm_year ?t" "tm_mon ?s = tm_mon ?t" "tm_mday ?s = tm_mday ?t"
      "tm_hour ?s = tm_hour ?t" "tm_min ?s = tm_min ?t" "tm_sec ?s = tm_sec ?t"
    using gmtime_ok [of s] gmtime_ok [of t]
    by (auto simp: tm_ok_def dest: fmt_0d_inject [rotated 2] show_int_inject)
  then have "?s = ?t" by simp
  then show ?thesis by (simp add: gmtime_inject)
qed

lemma getLogFileName_inject:
  assumes "time_ok s" and "time_ok t" and "getLogFileName b s pid = getLogFileName b t pid"
  shows "s = t"
  using assms timebuf_inject [OF assms(1,2)] length_timebuf by (simp add: getLogFileName_def)

subsection \<open>What the log files hold together\<close>

definition log_files :: "LogFile \<Rightarrow> File list" where
  "log_files lf = rolled lf @ (case curFile lf of None \<Rightarrow> [] | Some f \<Rightarrow> [f])"

definition log_text :: "LogFile \<Rightarrow> string" where
  "log_text lf = concat (map accepted (log_files lf))"

text \<open>
  An operating system that takes at least a byte of every write, opens every file, and whose
  clock is between 1970 and 9999; it need not advance.
\<close>

definition env_good :: "int \<Rightarrow> file_env \<Rightarrow> bool" where
  "env_good pid env \<longleftrightarrow> (\<forall>k. 0 < takes env k) \<and> fopen_ok env \<and> getpid env = pid
     \<and> time_ok (now1 env) \<and> time_ok (now2 env)"

text \<open>
  The invariant: there is a current file, and the files are named after strictly
  increasing times, the last of which is \<open>lastRoll_\<close>.
\<close>

definition lf_good :: "int \<Rightarrow> LogFile \<Rightarrow> bool" where
  "lf_good pid lf \<longleftrightarrow> curFile lf \<noteq> None
     \<and> (\<exists>ts. sorted_wrt (<) ts \<and> list_all (\<lambda>t. time_ok t \<and> t \<le> lastRoll lf) ts
          \<and> map fname (log_files lf) = map (\<lambda>t. getLogFileName (basename lf) t pid) ts)"

lemma lf_good_distinct:
  assumes "lf_good pid lf"
  shows "distinct (map fname (log_files lf))"
proof -
  obtain ts where ts: "sorted_wrt (<) ts" "list_all (\<lambda>t. time_ok t \<and> t \<le> lastRoll lf) ts"
      "map fname (log_files lf) = map (\<lambda>t. getLogFileName (basename lf) t pid) ts"
    using assms by (auto simp: lf_good_def)
  have "inj_on (\<lambda>t. getLogFileName (basename lf) t pid) (set ts)"
    using ts(2) getLogFileName_inject by (intro inj_onI) (auto simp: list_all_iff)
  moreover have "distinct ts" using ts(1) by (simp add: strict_sorted_iff)
  ultimately show ?thesis by (simp add: ts(3) distinct_map)
qed

text \<open>Only the list of files, the base name and the last roll matter for the invariant.\<close>

lemma lf_good_cong:
  assumes "lf_good pid lf" and "curFile lf' \<noteq> None" and "map fname (log_files lf') = map fname (log_files lf)"
    and "basename lf' = basename lf" and "lastRoll lf' = lastRoll lf"
  shows "lf_good pid lf'"
  using assms by (simp add: lf_good_def)

lemma rollFile_good:
  assumes "lf_good pid lf" and "time_ok now"
  shows "\<exists>lf'. rollFile True now pid lf = Inr lf' \<and> lf_good pid lf' \<and> log_text lf' = log_text lf
    \<and> (lastRoll lf < now \<longrightarrow> (\<exists>f. curFile lf' = Some f \<and> writtenBytes f = 0))
    \<and> (\<not> lastRoll lf < now \<longrightarrow> lf' = lf) \<and> rollSize lf' = rollSize lf"
proof (cases "lastRoll lf < now")
  case False
  with assms show ?thesis by (simp add: rollFile_def)
next
  case True
  obtain f where f: "curFile lf = Some f" using assms(1) by (auto simp: lf_good_def)
  obtain ts where ts: "sorted_wrt (<) ts" "list_all (\<lambda>t. time_ok t \<and> t \<le> lastRoll lf) ts"
      "map fname (log_files lf) = map (\<lambda>t. getLogFileName (basename lf) t pid) ts"
    using assms(1) by (auto simp: lf_good_def)
  let ?g = "\<lparr>fname = getLogFileName (basename lf) now pid, accepted = [], flushed = 0, reports = 0, writtenBytes = 0\<rparr>"
  let ?lf = "lf\<lparr>startOfPeriod := now sdiv kRollPerSeconds * kRollPerSeconds, lastRoll := now,
                lastFlush := now, curFile := Some ?g, rolled := rolled lf @ [f]\<rparr>"
  have r: "rollFile True now pid lf = Inr ?lf" using True f by (simp add: rollFile_def File_new_def Let_def)
  have files: "log_files ?lf = log_files lf @ [?g]" using f by (simp add: log_files_def)
  have "sorted_wrt (<) (ts @ [now])" "list_all (\<lambda>t. time_ok t \<and> t \<le> now) (ts @ [now])"
    using ts(1,2) True assms(2) by (auto simp: sorted_wrt_append list_all_iff)
  moreover have "map fname (log_files ?lf) = map (\<lambda>t. getLogFileName (basename ?lf) t pid) (ts @ [now])"
    using ts(3) by (simp add: files)
  ultimately have "lf_good pid ?lf" unfolding lf_good_def by auto
  with r True show ?thesis by (simp add: log_text_def files)
qed

text \<open>A state whose current file is the old one with the line appended.\<close>

lemma appended_good:
  assumes good: "lf_good pid lf" and env: "env_good pid env" and f: "curFile lf = Some f"
    and h: "curFile lf1 = Some h" "accepted h = accepted (File_append env logline f)" "fname h = fname (File_append env logline f)"
    and lf1: "rolled lf1 = rolled lf" "basename lf1 = basename lf" "lastRoll lf1 = lastRoll lf"
  shows "lf_good pid lf1 \<and> log_text lf1 = log_text lf @ logline"
proof -
  have g: "accepted h = accepted f @ logline" "fname h = fname f"
    using env append_taken_all [of "takes env"] h(2,3) by (simp_all add: File_append_taken env_good_def)
  have "lf_good pid lf1"
    by (rule lf_good_cong [OF good]) (use h(1) lf1 f g in \<open>simp_all add: log_files_def\<close>)
  moreover have "log_text lf1 = log_text lf @ logline" using h(1) lf1 f g by (simp add: log_text_def log_files_def)
  ultimately show ?thesis ..
qed

lemma append_unlocked_good:
  assumes "lf_good pid lf" and "env_good pid env"
  shows "\<exists>lf'. append_unlocked env logline lf = Inr lf' \<and> lf_good pid lf'
    \<and> log_text lf' = log_text lf @ logline
    \<and> ((\<exists>f. curFile lf' = Some f \<and> writtenBytes f \<le> rollSize lf') \<or> now1 env \<le> lastRoll lf)"
proof -
  obtain f where f: "curFile lf = Some f" using assms(1) by (auto simp: lf_good_def)
  define g where "g = File_append env logline f"
  note good = appended_good [OF assms f, of _ _ logline, folded g_def]
  have env: "fopen_ok env = True" "getpid env = pid" "time_ok (now1 env)" "time_ok (now2 env)"
    using assms(2) by (simp_all add: env_good_def)
  let ?lf1 = "lf\<lparr>curFile := Some g\<rparr>"
  consider (size) "writtenBytes g > rollSize lf"
    | (period) "\<not> writtenBytes g > rollSize lf" "count lf > kCheckTimeRoll"
        "now1 env sdiv kRollPerSeconds * kRollPerSeconds \<noteq> startOfPeriod lf"
    | (stay) "\<not> writtenBytes g > rollSize lf"
        "\<not> (count lf > kCheckTimeRoll \<and> now1 env sdiv kRollPerSeconds * kRollPerSeconds \<noteq> startOfPeriod lf)"
    by blast
  then show ?thesis
  proof cases
    case size
    then have "append_unlocked env logline lf = rollFile True (now1 env) pid ?lf1"
      by (simp add: append_unlocked_def f g_def [symmetric] env Let_def)
    with rollFile_good [OF conjunct1 [OF good] env(3), of ?lf1 g] good [of ?lf1 g]
    show ?thesis by fastforce
  next
    case period
    let ?lf2 = "?lf1\<lparr>count := 0\<rparr>"
    have "append_unlocked env logline lf = rollFile True (now2 env) pid ?lf2"
      using period by (simp add: append_unlocked_def f g_def [symmetric] env Let_def)
    with rollFile_good [OF conjunct1 [OF good] env(4), of ?lf2 g] good [of ?lf2 g] period(1)
    show ?thesis by (cases "lastRoll ?lf2 < now2 env") fastforce+
  next
    case stay
    show ?thesis
    proof (cases "count lf > kCheckTimeRoll")
      case True
      with stay good [of "?lf1\<lparr>count := 0, lastFlush := now1 env, curFile := Some (File_flush g)\<rparr>" "File_flush g"]
        good [of "?lf1\<lparr>count := 0\<rparr>" g]
      show ?thesis by (simp add: append_unlocked_def f g_def [symmetric] Let_def File_flush_def)
    next
      case False
      with stay good [of "?lf1\<lparr>count := count lf + 1\<rparr>" g]
      show ?thesis by (simp add: append_unlocked_def f g_def [symmetric] Let_def)
    qed
  qed
qed

lemma LogFile_append_unlocked: "LogFile_append = append_unlocked"
  by (intro ext) (simp add: LogFile_append_def)

lemma LogFile_flush_good:
  assumes "lf_good pid lf"
  shows "\<exists>lf'. LogFile_flush lf = Inr lf' \<and> lf_good pid lf' \<and> log_text lf' = log_text lf"
proof -
  obtain f where f: "curFile lf = Some f" using assms by (auto simp: lf_good_def)
  have "lf_good pid (lf\<lparr>curFile := Some (File_flush f)\<rparr>)"
    by (rule lf_good_cong [OF assms]) (simp_all add: log_files_def f File_flush_def)
  then show ?thesis by (simp add: LogFile_flush_def f log_text_def log_files_def File_flush_def)
qed

lemma LogFile_new_good:
  assumes "CHR ''/'' \<notin> set b" and "env_good pid env" and "0 < now1 env"
  shows "\<exists>lf. LogFile_new b rs safe interval env = Inr lf \<and> lf_good pid lf \<and> log_text lf = []"
  using assms by (auto simp: LogFile_new_def rollFile_def File_new_def env_good_def lf_good_def
      log_files_def log_text_def Let_def intro!: exI [of _ "[now1 env]"])

subsection \<open>The interface the asynchronous logger writes to\<close>

locale log_output =
  fixes good :: "'s \<Rightarrow> bool"
    and text_of :: "'s \<Rightarrow> string"
    and usable :: "'e \<Rightarrow> bool"
    and put :: "'e \<Rightarrow> string \<Rightarrow> 's \<Rightarrow> 's res"
    and sync :: "'s \<Rightarrow> 's res"
  assumes put_text: "good s \<Longrightarrow> usable e \<Longrightarrow> \<exists>s'. put e l s = Inr s' \<and> good s' \<and> text_of s' = text_of s @ l"
    and sync_text: "good s \<Longrightarrow> \<exists>s'. sync s = Inr s' \<and> good s' \<and> text_of s' = text_of s"
begin

lemma put_all:
  assumes "good s" and "list_all (\<lambda>(e, l). usable e) ws"
  shows "\<exists>s'. foldR (\<lambda>(e, l). put e l) ws s = Inr s' \<and> good s' \<and> text_of s' = text_of s @ concat (map snd ws)"
  using assms
proof (induction ws arbitrary: s)
  case Nil
  then show ?case by simp
next
  case (Cons w ws)
  obtain e l where w: "w = (e, l)" by (cases w)
  with Cons.prems obtain s1 where s1: "put e l s = Inr s1" "good s1" "text_of s1 = text_of s @ l"
    using put_text [of s e l] by auto
  from Cons.IH [OF s1(2)] Cons.prems(2) s1 w show ?case by auto
qed

lemma put_all_sync:
  assumes "good s" and "list_all (\<lambda>(e, l). usable e) ws"
  shows "\<exists>s'. res_bind (foldR (\<lambda>(e, l). put e l) ws s) sync = Inr s' \<and> good s'
    \<and> text_of s' = text_of s @ concat (map snd ws)"
proof -
  obtain s1 where s1: "foldR (\<lambda>(e, l). put e l) ws s = Inr s1" "good s1"
      "text_of s1 = text_of s @ concat (map snd ws)"
    using put_all [OF assms] by blast
  with sync_text [OF s1(2)] show ?thesis by simp
qed

end

interpretation lf: log_output "lf_good pid" log_text "env_good pid" LogFile_append LogFile_flush
  using append_unlocked_good LogFile_flush_good
  by unfold_locales (auto simp: LogFile_append_unlocked, blast)

subsection \<open>Properties\<close>

text \<open>
  C36 (termination). \<open>File::append\<close> returns for every behaviour of \<open>fwrite\<close>: it makes at most
  one call more than the line has bytes, as its result depends on no later answer.  What it
  leaves in the stream is a prefix of the line, the whole line unless one of the calls after
  the first took nothing, and \<open>writtenBytes_\<close> grows by the length of the line in any case.
\<close>
theorem File_append_returns:
  assumes "\<And>j. j \<le> length logline \<Longrightarrow> takes env' j = takes env j" and "ferr env' = ferr env"
  shows "File_append env' logline f = File_append env logline f
    \<and> writtenBytes (File_append env logline f) = size_add (writtenBytes f) (length logline)
    \<and> (\<exists>m \<le> length logline. accepted (File_append env logline f) = accepted f @ take m logline
         \<and> (m = length logline \<or> (\<exists>j \<le> m + 1. 0 < j \<and> takes env j = 0)))"
proof (intro conjI)
  let ?n = "min (takes env 0) (length logline)"
  have "taken (takes env') 1 (length logline - ?n) = taken (takes env) 1 (length logline - ?n)"
    using assms(1) by (intro taken_cong) auto
  then have "append_taken (takes env') (length logline) = append_taken (takes env) (length logline)"
    using assms(1) [of 0] by (simp add: append_taken_def)
  then show "File_append env' logline f = File_append env logline f"
    by (simp add: File_append_taken assms(2))
  show "writtenBytes (File_append env logline f) = size_add (writtenBytes f) (length logline)"
    by (simp add: File_append_taken)
  have "append_taken (takes env) (length logline) = length logline
      \<or> (\<exists>j \<le> append_taken (takes env) (length logline) + 1. 0 < j \<and> takes env j = 0)"
  proof (cases "taken (takes env) 1 (length logline - ?n) < length logline - ?n")
    case True
    then obtain j where "1 \<le> j" "j \<le> 1 + taken (takes env) 1 (length logline - ?n)" "takes env j = 0"
      using taken_stops by blast
    then show ?thesis unfolding append_taken_def by (intro disjI2 exI [of _ j]) linarith
  next
    case False
    then show ?thesis using taken_le [of "takes env" 1 "length logline - ?n"]
      unfolding append_taken_def by linarith
  qed
  then show "\<exists>m \<le> length logline. accepted (File_append env logline f) = accepted f @ take m logline
      \<and> (m = length logline \<or> (\<exists>j \<le> m + 1. 0 < j \<and> takes env j = 0))"
    using append_taken_le [of "takes env" "length logline"]
    by (intro exI [of _ "append_taken (takes env) (length logline)"]) (simp add: File_append_taken)
qed

theorem File_append_returns_witness:
  "\<exists>m \<le> length ''abc''. accepted (File_append \<lparr>takes = (\<lambda>k. if k < 2 then 1 else 0), ferr = True, fopen_ok = True,
      now1 = 0, now2 = 0, getpid = 1\<rparr> ''abc''
      \<lparr>fname = [], accepted = ''x'', flushed = 0, reports = 0, writtenBytes = 0\<rparr>) = ''x'' @ take m ''abc''"
  using File_append_returns [of "''abc''"
      "\<lparr>takes = (\<lambda>k. if k < 2 then 1 else 0), ferr = True, fopen_ok = True, now1 = 0, now2 = 0, getpid = 1\<rparr>"
      "\<lparr>takes = (\<lambda>k. if k < 2 then 1 else 0), ferr = True, fopen_ok = True, now1 = 0, now2 = 0, getpid = 1\<rparr>"
      "\<lparr>fname = [], accepted = ''x'', flushed = 0, reports = 0, writtenBytes = 0\<rparr>", OF refl refl]
  unfolding File.simps by blast



text \<open>
  A file stays above the roll size after an append only while the clock has not passed the
  second of the last roll.
\<close>

lemma log_file_size_bound:
  assumes "lf_good pid lf" and "env_good pid env" and "lastRoll lf < now1 env"
  shows "\<exists>lf' f. LogFile_append env logline lf = Inr lf' \<and> curFile lf' = Some f \<and> writtenBytes f \<le> rollSize lf'"
  using append_unlocked_good [OF assms(1,2), of logline] assms(3) by (auto simp: LogFile_append_unlocked)

text \<open>Before the first successful roll the file pointer is not initialised.\<close>

lemma early_clock_leaves_no_file:
  assumes "CHR ''/'' \<notin> set b" and "now1 e \<le> 0"
  shows "\<exists>lf. LogFile_new b rs safe interval e = Inr lf \<and> LogFile_append env logline lf = Inl Undefined"
  using assms by (simp add: LogFile_new_def rollFile_def LogFile_append_unlocked append_unlocked_def)

end
