(* ===== verification/Async_Logging.thy ===== *)
theory Async_Logging
  imports Log_File
begin

section \<open>The asynchronous logger\<close>

text \<open>
  Model of \<open>include/AsyncLogging.h\<close> and \<open>src/AsyncLogging.cpp\<close>.  Threads that log append to
  a large buffer under a mutex; one writer thread takes the filled buffers away, writes them
  to the log file and gives two of them back.  Buffers are passed around as raw pointers,
  and \<open>std::move\<close> of a raw pointer copies it, so the model keeps the buffers in a heap:
  pointers are addresses, null is \<open>None\<close>, and two pointers may name the same buffer.

  A run is a sequence of operations in the order in which they take effect: an \<open>append\<close> is
  atomic (it holds the mutex), and so is each stretch of \<open>threadFunc\<close> between two points
  where another thread can intervene.  Waiting on the condition variable needs no state of
  its own: until the writer's next operation any number of appends may come, and its wait
  ends by a notification or after \<open>flushInterval_\<close> seconds.
\<close>

subsection \<open>State\<close>

datatype writer_phase = W_none | W_top | W_swap | W_write nat | W_recycle | W_done

record AsyncLogging =
  buffer_heap :: "nat \<Rightarrow> FixedBuffer option"
  heap_end :: nat
  running :: bool
  basename_str :: string
  roll_size :: size_t
  latch_count :: int
  currentBuffer :: "nat option"
  nextBuffer :: "nat option"
  buffers :: "nat list"
  newBuffer1 :: "nat option"
  newBuffer2 :: "nat option"
  buffersToWrite :: "nat list"
  output_file :: "LogFile option"
  phase :: writer_phase

text \<open>A new buffer is placed at the next free address.\<close>

definition new_Buffer :: "FixedBuffer \<Rightarrow> AsyncLogging \<Rightarrow> nat \<times> AsyncLogging" where
  "new_Buffer fb s =
     (heap_end s, s\<lparr>buffer_heap := (buffer_heap s)(heap_end s \<mapsto> fb), heap_end := heap_end s + 1\<rparr>)"

definition deref :: "AsyncLogging \<Rightarrow> nat option \<Rightarrow> FixedBuffer res" where
  "deref s p =
     (case p of None \<Rightarrow> Inl Undefined
      | Some a \<Rightarrow> (case buffer_heap s a of None \<Rightarrow> Inl Undefined | Some fb \<Rightarrow> Inr fb))"

definition assign :: "nat option \<Rightarrow> FixedBuffer \<Rightarrow> AsyncLogging \<Rightarrow> AsyncLogging res" where
  "assign p fb s =
     (case p of None \<Rightarrow> Inl Undefined | Some a \<Rightarrow> Inr (s\<lparr>buffer_heap := (buffer_heap s)(a \<mapsto> fb)\<rparr>))"

text \<open>The constructor allocates two buffers and clears them.\<close>

definition AsyncLogging_new :: "char list \<Rightarrow> char list \<Rightarrow> string \<Rightarrow> size_t \<Rightarrow> AsyncLogging" where
  "AsyncLogging_new memory1 memory2 bname rs =
     \<lparr>buffer_heap = [0 \<mapsto> FixedBuffer_bzero (FixedBuffer_new memory1), 1 \<mapsto> FixedBuffer_bzero (FixedBuffer_new memory2)],
      heap_end = 2, running = False, basename_str = bname, roll_size = rs, latch_count = 1,
      currentBuffer = Some 0, nextBuffer = Some 1, buffers = [],
      newBuffer1 = None, newBuffer2 = None, buffersToWrite = [], output_file = None, phase = W_none\<rparr>"

subsection \<open>Logging threads\<close>

definition append_to :: "nat option \<Rightarrow> string \<Rightarrow> AsyncLogging \<Rightarrow> AsyncLogging res" where
  "append_to p logline s =
     res_bind (deref s p) (\<lambda>fb. res_bind (FixedBuffer_append logline fb) (\<lambda>fb'. assign p fb' s))"

text \<open>
  A full buffer is pushed and the spare one taken over; the pointer to the spare buffer
  keeps its value.
\<close>

definition AsyncLogging_append :: "char list \<Rightarrow> string \<Rightarrow> AsyncLogging \<Rightarrow> AsyncLogging res" where
  "AsyncLogging_append memory logline s =
     res_bind (deref s (currentBuffer s))
       (\<lambda>fb. if avail fb > int (length logline)
              then append_to (currentBuffer s) logline s
              else (let s1 = s\<lparr>buffers := buffers s @ [the (currentBuffer s)]\<rparr>;
                        s2 = (if nextBuffer s1 \<noteq> None
                              then s1\<lparr>currentBuffer := nextBuffer s1\<rparr>
                              else (let (b, s') = new_Buffer (FixedBuffer_new memory) s1 in s'\<lparr>currentBuffer := Some b\<rparr>))
                    in append_to (currentBuffer s2) logline s2))"

subsection \<open>The writer thread\<close>

definition AsyncLogging_start :: "AsyncLogging \<Rightarrow> AsyncLogging" where
  "AsyncLogging_start s = s\<lparr>running := True\<rparr>"

definition AsyncLogging_stop :: "AsyncLogging \<Rightarrow> AsyncLogging" where
  "AsyncLogging_stop s = s\<lparr>running := False\<rparr>"

text \<open>The part of \<open>threadFunc\<close> before its loop.\<close>

definition thread_begin :: "file_env \<Rightarrow> char list \<Rightarrow> char list \<Rightarrow> AsyncLogging \<Rightarrow> AsyncLogging res" where
  "thread_begin env memory1 memory2 s =
     assertR (running s)
       (res_bind (LogFile_new (basename_str s) (roll_size s) True 3 env)
          (\<lambda>out. let (b1, s1) = new_Buffer (FixedBuffer_bzero (FixedBuffer_new memory1)) (s\<lparr>latch_count := latch_count s - 1\<rparr>);
                      (b2, s2) = new_Buffer (FixedBuffer_bzero (FixedBuffer_new memory2)) s1
                  in Inr (s2\<lparr>newBuffer1 := Some b1, newBuffer2 := Some b2, buffersToWrite := [],
                             output_file := Some out, phase := W_top\<rparr>)))"

text \<open>The head of the loop and its assertions; a stopped logger flushes and returns.\<close>

definition thread_top :: "AsyncLogging \<Rightarrow> AsyncLogging res" where
  "thread_top s =
     (if running s
      then assertR (newBuffer1 s \<noteq> None)
             (res_bind (deref s (newBuffer1 s))
               (\<lambda>fb1. assertR (FixedBuffer_length fb1 = 0)
                  (assertR (newBuffer2 s \<noteq> None)
                    (res_bind (deref s (newBuffer2 s))
                      (\<lambda>fb2. assertR (FixedBuffer_length fb2 = 0)
                         (assertR (buffersToWrite s = []) (Inr (s\<lparr>phase := W_swap\<rparr>))))))))
      else (case output_file s of None \<Rightarrow> Inl Undefined
            | Some out \<Rightarrow> res_bind (LogFile_flush out)
                            (\<lambda>out'. Inr (s\<lparr>output_file := Some out', phase := W_done\<rparr>))))"

text \<open>The critical section.\<close>

definition thread_swap :: "AsyncLogging \<Rightarrow> AsyncLogging res" where
  "thread_swap s =
     definedR (currentBuffer s \<noteq> None)
       (let s1 = s\<lparr>buffers := buffers s @ [the (currentBuffer s)]\<rparr>;
            s2 = s1\<lparr>currentBuffer := newBuffer1 s1, newBuffer1 := None\<rparr>;
            s3 = s2\<lparr>buffers := buffersToWrite s2, buffersToWrite := buffers s2\<rparr>;
            s4 = (if nextBuffer s3 = None then s3\<lparr>nextBuffer := newBuffer2 s3, newBuffer2 := None\<rparr> else s3)
        in Inr (s4\<lparr>phase := W_write 0\<rparr>))"

text \<open>One pass of the \<open>for\<close> loop over the buffers, or its end.\<close>

definition thread_write :: "file_env \<Rightarrow> nat \<Rightarrow> AsyncLogging \<Rightarrow> AsyncLogging res" where
  "thread_write env i s =
     assertR (buffersToWrite s \<noteq> [])
       (if i < length (buffersToWrite s)
        then (case output_file s of None \<Rightarrow> Inl Undefined
              | Some out \<Rightarrow>
                  res_bind (deref s (Some (buffersToWrite s ! i)))
                    (\<lambda>fb. res_bind (LogFile_append env (asString fb) out)
                       (\<lambda>out'. Inr (s\<lparr>output_file := Some out', phase := W_write (i + 1)\<rparr>))))
        else Inr (s\<lparr>phase := W_recycle\<rparr>))"

text \<open>Taking the last buffer back and resetting it.\<close>

definition take_back :: "AsyncLogging \<Rightarrow> (nat \<times> AsyncLogging) res" where
  "take_back s =
     assertR (buffersToWrite s \<noteq> [])
       (let b = last (buffersToWrite s); s1 = s\<lparr>buffersToWrite := butlast (buffersToWrite s)\<rparr>
        in res_bind (deref s1 (Some b))
             (\<lambda>fb. res_bind (assign (Some b) (FixedBuffer_reset fb) s1) (\<lambda>s2. Inr (b, s2))))"

definition thread_recycle :: "AsyncLogging \<Rightarrow> AsyncLogging res" where
  "thread_recycle s =
     (let s1 = (if length (buffersToWrite s) > 2 then s\<lparr>buffersToWrite := take 2 (buffersToWrite s)\<rparr> else s)
      in res_bind (if newBuffer1 s1 = None
                   then res_bind (take_back s1) (\<lambda>(b, s'). Inr (s'\<lparr>newBuffer1 := Some b\<rparr>)) else Inr s1)
           (\<lambda>s2. res_bind (if newBuffer2 s2 = None
                   then res_bind (take_back s2) (\<lambda>(b, s'). Inr (s'\<lparr>newBuffer2 := Some b\<rparr>)) else Inr s2)
              (\<lambda>s3. case output_file s3 of None \<Rightarrow> Inl Undefined
                 | Some out \<Rightarrow> res_bind (LogFile_flush out)
                     (\<lambda>out'. Inr (s3\<lparr>buffersToWrite := [], output_file := Some out', phase := W_top\<rparr>)))))"

definition threadFunc_step :: "file_env \<Rightarrow> AsyncLogging \<Rightarrow> AsyncLogging res" where
  "threadFunc_step env s =
     (case phase s of W_none \<Rightarrow> Inr s | W_top \<Rightarrow> thread_top s | W_swap \<Rightarrow> thread_swap s
      | W_write i \<Rightarrow> thread_write env i s | W_recycle \<Rightarrow> thread_recycle s | W_done \<Rightarrow> Inr s)"

subsection \<open>Runs\<close>

datatype async_op = Append "char list" string | Writer file_env | Stop

fun async_exec :: "async_op \<Rightarrow> AsyncLogging \<Rightarrow> AsyncLogging res" where
  "async_exec (Append memory logline) s = AsyncLogging_append memory logline s"
| "async_exec (Writer env) s = threadFunc_step env s"
| "async_exec Stop s = Inr (AsyncLogging_stop s)"

text \<open>The output function of the server.\<close>

definition asyncOutput :: "char list \<Rightarrow> string \<Rightarrow> AsyncLogging option \<Rightarrow> AsyncLogging option res" where
  "asyncOutput memory msg g_asyncLog =
     (case g_asyncLog of None \<Rightarrow> Inl Undefined
      | Some log \<Rightarrow> res_bind (AsyncLogging_append memory msg log) (\<lambda>log'. Inr (Some log')))"

subsection \<open>Buffers in the heap\<close>

definition content :: "AsyncLogging \<Rightarrow> nat \<Rightarrow> string" where
  "content s a = (case buffer_heap s a of None \<Rightarrow> [] | Some fb \<Rightarrow> asString fb)"

definition buffer_at :: "AsyncLogging \<Rightarrow> nat \<Rightarrow> bool" where
  "buffer_at s a \<longleftrightarrow> (case buffer_heap s a of None \<Rightarrow> False
     | Some fb \<Rightarrow> fb_wf fb \<and> length (data fb) = kLargeBuffer)"

definition ptr_ok :: "AsyncLogging \<Rightarrow> nat option \<Rightarrow> bool" where
  "ptr_ok s p \<longleftrightarrow> (case p of None \<Rightarrow> False | Some a \<Rightarrow> buffer_at s a)"

lemma buffer_atE:
  assumes "buffer_at s a"
  obtains fb where "buffer_heap s a = Some fb" "fb_wf fb" "length (data fb) = kLargeBuffer" "asString fb = content s a"
  using assms by (auto simp: buffer_at_def content_def split: option.splits)

lemma deref_content:
  assumes "buffer_at s a"
  shows "\<exists>fb. deref s (Some a) = Inr fb \<and> asString fb = content s a \<and> fb_wf fb
    \<and> FixedBuffer_length fb = int (length (content s a))
    \<and> avail fb = int kLargeBuffer - int (length (content s a))"
  using assms by (elim buffer_atE)
    (auto simp: deref_def FixedBuffer_length_def avail_def length_asString [symmetric])

text \<open>Storing into one buffer: it exists, its text is the new one, the others are as they were.\<close>

lemma heap_store:
  assumes "buffer_heap s' = (buffer_heap s)(a \<mapsto> fb)" and "fb_wf fb" and "length (data fb) = kLargeBuffer"
  shows "buffer_at s' b \<longleftrightarrow> b = a \<or> buffer_at s b"
    and "content s' b = (if b = a then asString fb else content s b)"
  using assms by (auto simp: buffer_at_def content_def)

lemma append_to_ok:
  assumes "buffer_at s a"
  shows "\<exists>h. append_to (Some a) l s = Inr (s\<lparr>buffer_heap := h\<rparr>)
    \<and> buffer_at (s\<lparr>buffer_heap := h\<rparr>) = buffer_at s
    \<and> (\<forall>b. content (s\<lparr>buffer_heap := h\<rparr>) b
         = (if b = a \<and> length (content s a) + length l < kLargeBuffer then content s a @ l else content s b))"
proof -
  obtain fb where fb: "buffer_heap s a = Some fb" "fb_wf fb" "length (data fb) = kLargeBuffer"
      "asString fb = content s a"
    using assms by (rule buffer_atE)
  obtain fb' where fb': "FixedBuffer_append l fb = Inr fb'" "fb_wf fb'" "length (data fb') = kLargeBuffer"
      "asString fb' = (if length (content s a) + length l < kLargeBuffer then content s a @ l else content s a)"
    using append_fits [OF fb(2), of l] append_dropped [OF fb(2), of l] fb by (cases "length (content s a) + length l < kLargeBuffer") auto
  let ?h = "(buffer_heap s)(a \<mapsto> fb')"
  have "append_to (Some a) l s = Inr (s\<lparr>buffer_heap := ?h\<rparr>)"
    by (simp add: append_to_def deref_def assign_def fb(1) fb'(1))
  moreover have "buffer_at (s\<lparr>buffer_heap := ?h\<rparr>) b = buffer_at s b"
    and "content (s\<lparr>buffer_heap := ?h\<rparr>) b
         = (if b = a \<and> length (content s a) + length l < kLargeBuffer then content s a @ l else content s b)" for b
    using heap_store [of "s\<lparr>buffer_heap := ?h\<rparr>" s a fb' b] fb' assms by auto
  ultimately show ?thesis by (blast intro: ext)
qed

subsection \<open>Well-typed states\<close>

definition output_ok :: "int \<Rightarrow> AsyncLogging \<Rightarrow> bool" where
  "output_ok pid s \<longleftrightarrow> (case output_file s of None \<Rightarrow> False | Some lf \<Rightarrow> lf_good pid lf)"

definition writer_ok :: "int \<Rightarrow> AsyncLogging \<Rightarrow> bool" where
  "writer_ok pid s \<longleftrightarrow>
     (case phase s of
        W_none \<Rightarrow> True
      | W_write i \<Rightarrow> output_ok pid s \<and> newBuffer1 s = None \<and> ptr_ok s (newBuffer2 s) \<and> buffersToWrite s \<noteq> []
      | W_recycle \<Rightarrow> output_ok pid s \<and> newBuffer1 s = None \<and> ptr_ok s (newBuffer2 s) \<and> buffersToWrite s \<noteq> []
      | W_done \<Rightarrow> output_ok pid s
      | _ \<Rightarrow> output_ok pid s \<and> ptr_ok s (newBuffer1 s) \<and> ptr_ok s (newBuffer2 s) \<and> buffersToWrite s = [])"

text \<open>Every pointer that is used points to an allocated buffer of the right size.\<close>

definition async_typed :: "int \<Rightarrow> AsyncLogging \<Rightarrow> bool" where
  "async_typed pid s \<longleftrightarrow> ptr_ok s (currentBuffer s) \<and> ptr_ok s (nextBuffer s)
     \<and> list_all (buffer_at s) (buffers s) \<and> list_all (buffer_at s) (buffersToWrite s) \<and> writer_ok pid s"

lemma ptr_ok_cong: "buffer_at s' = buffer_at s \<Longrightarrow> ptr_ok s' = ptr_ok s"
  by (intro ext) (simp add: ptr_ok_def split: option.split)

lemma ptr_ok_simps [simp]: "\<not> ptr_ok s None" "ptr_ok s (Some a) = buffer_at s a"
  by (simp_all add: ptr_ok_def)

lemma ptr_okE: "ptr_ok s p \<Longrightarrow> (\<And>a. p = Some a \<Longrightarrow> buffer_at s a \<Longrightarrow> thesis) \<Longrightarrow> thesis"
  by (cases p) simp_all

text \<open>Only the heap matters for what an address holds.\<close>

lemma heap_frame:
  "buffer_heap s' = buffer_heap s \<Longrightarrow> buffer_at s' = buffer_at s"
  "buffer_heap s' = buffer_heap s \<Longrightarrow> content s' = content s"
  by (simp_all add: buffer_at_def content_def fun_eq_iff)

lemma frame_fields [simp]:
  "buffer_at (s\<lparr>buffers := bs\<rparr>) = buffer_at s" "content (s\<lparr>buffers := bs\<rparr>) = content s"
  "buffer_at (s\<lparr>currentBuffer := p\<rparr>) = buffer_at s" "content (s\<lparr>currentBuffer := p\<rparr>) = content s"
  "buffer_at (s\<lparr>newBuffer1 := p\<rparr>) = buffer_at s" "content (s\<lparr>newBuffer1 := p\<rparr>) = content s"
  "buffer_at (s\<lparr>newBuffer2 := p\<rparr>) = buffer_at s" "content (s\<lparr>newBuffer2 := p\<rparr>) = content s"
  "buffer_at (s\<lparr>buffersToWrite := bs\<rparr>) = buffer_at s" "content (s\<lparr>buffersToWrite := bs\<rparr>) = content s"
  "buffer_at (s\<lparr>output_file := f\<rparr>) = buffer_at s" "content (s\<lparr>output_file := f\<rparr>) = content s"
  "buffer_at (s\<lparr>phase := ph\<rparr>) = buffer_at s" "content (s\<lparr>phase := ph\<rparr>) = content s"
  "buffer_at (s\<lparr>running := r\<rparr>) = buffer_at s" "content (s\<lparr>running := r\<rparr>) = content s"
  by (auto intro!: heap_frame)

lemma ptr_ok_fields [simp]:
  "ptr_ok (s\<lparr>buffers := bs\<rparr>) = ptr_ok s" "ptr_ok (s\<lparr>currentBuffer := p\<rparr>) = ptr_ok s"
  "ptr_ok (s\<lparr>newBuffer1 := p\<rparr>) = ptr_ok s" "ptr_ok (s\<lparr>newBuffer2 := p\<rparr>) = ptr_ok s"
  "ptr_ok (s\<lparr>buffersToWrite := bs\<rparr>) = ptr_ok s" "ptr_ok (s\<lparr>output_file := f\<rparr>) = ptr_ok s"
  "ptr_ok (s\<lparr>phase := ph\<rparr>) = ptr_ok s" "ptr_ok (s\<lparr>running := r\<rparr>) = ptr_ok s"
  by (auto intro!: ptr_ok_cong)

lemma async_typed_heap:
  assumes "async_typed pid s" and "buffer_at (s\<lparr>buffer_heap := h\<rparr>) = buffer_at s"
  shows "async_typed pid (s\<lparr>buffer_heap := h\<rparr>)"
  using assms(1) unfolding async_typed_def writer_ok_def output_ok_def ptr_ok_cong [OF assms(2)] assms(2)
  by (simp split: writer_phase.splits)

lemma append_typed:
  assumes "async_typed pid s"
  shows "\<exists>s'. AsyncLogging_append memory l s = Inr s' \<and> async_typed pid s'"
proof -
  obtain c n where cn: "currentBuffer s = Some c" "buffer_at s c" "nextBuffer s = Some n" "buffer_at s n"
    using assms by (auto simp: async_typed_def ptr_ok_def split: option.splits)
  obtain fb where fb: "deref s (Some c) = Inr fb" using deref_content [OF cn(2)] by blast
  let ?s2 = "s\<lparr>buffers := buffers s @ [c], currentBuffer := Some n\<rparr>"
  have at: "buffer_at ?s2 = buffer_at s" by (intro ext) (simp add: buffer_at_def)
  with assms cn have t2: "async_typed pid ?s2"
    unfolding async_typed_def writer_ok_def output_ok_def ptr_ok_cong [OF at] at
    by (simp split: writer_phase.splits)
  obtain h1 where h1: "append_to (Some c) l s = Inr (s\<lparr>buffer_heap := h1\<rparr>)"
      "buffer_at (s\<lparr>buffer_heap := h1\<rparr>) = buffer_at s"
    using append_to_ok [OF cn(2)] by blast
  obtain h2 where h2: "append_to (Some n) l ?s2 = Inr (?s2\<lparr>buffer_heap := h2\<rparr>)"
      "buffer_at (?s2\<lparr>buffer_heap := h2\<rparr>) = buffer_at ?s2"
    using append_to_ok [of ?s2 n] at cn(4) by metis
  from async_typed_heap [OF assms h1(2)] async_typed_heap [OF t2 h2(2)] h1(1) h2(1) show ?thesis
    by (simp add: AsyncLogging_append_def cn fb Let_def)
qed

subsection \<open>What each stretch of the writer does\<close>

lemma output_okE:
  assumes "output_ok pid s"
  obtains lf where "output_file s = Some lf" "lf_good pid lf"
  using assms by (auto simp: output_ok_def split: option.splits)

lemma thread_top_result:
  assumes "async_typed pid s" and "phase s = W_top" and "running s"
    and "newBuffer1 s = Some a" and "newBuffer2 s = Some b"
  shows "thread_top s = assertR (content s a = [] \<and> content s b = []) (Inr (s\<lparr>phase := W_swap\<rparr>))"
proof -
  have ab: "buffer_at s a" "buffer_at s b" "buffersToWrite s = []"
    using assms by (simp_all add: async_typed_def writer_ok_def ptr_ok_def)
  obtain fa where fa: "deref s (Some a) = Inr fa" "FixedBuffer_length fa = int (length (content s a))"
    using deref_content [OF ab(1)] by blast
  obtain fb where fb: "deref s (Some b) = Inr fb" "FixedBuffer_length fb = int (length (content s b))"
    using deref_content [OF ab(2)] by blast
  show ?thesis using assms(3-5) ab(3) fa fb by (simp add: thread_top_def)
qed

lemma thread_top_stopped:
  assumes "async_typed pid s" and "phase s = W_top" and "\<not> running s"
  shows "\<exists>lf lf'. output_file s = Some lf \<and> thread_top s = Inr (s\<lparr>output_file := Some lf', phase := W_done\<rparr>)
    \<and> lf_good pid lf' \<and> log_text lf' = log_text lf"
proof -
  obtain lf where lf: "output_file s = Some lf" "lf_good pid lf"
    using assms by (auto simp: async_typed_def writer_ok_def elim: output_okE)
  from LogFile_flush_good [OF lf(2)] assms(3) lf(1) show ?thesis by (auto simp: thread_top_def)
qed

lemma thread_swap_result:
  assumes "async_typed pid s" and "phase s = W_swap" and "currentBuffer s = Some c"
  shows "thread_swap s = Inr (s\<lparr>currentBuffer := newBuffer1 s, buffers := [], newBuffer1 := None,
           buffersToWrite := buffers s @ [c], phase := W_write 0\<rparr>)"
  using assms by (auto simp: thread_swap_def async_typed_def writer_ok_def ptr_ok_def Let_def split: option.splits)

lemma thread_write_result:
  assumes "async_typed pid s" and "phase s = W_write i" and "i < length (buffersToWrite s)" and "env_good pid env"
  shows "\<exists>lf lf'. output_file s = Some lf
    \<and> thread_write env i s = Inr (s\<lparr>output_file := Some lf', phase := W_write (i + 1)\<rparr>)
    \<and> lf_good pid lf' \<and> log_text lf' = log_text lf @ content s (buffersToWrite s ! i)"
proof -
  obtain lf where lf: "output_file s = Some lf" "lf_good pid lf"
    using assms(1,2) by (auto simp: async_typed_def writer_ok_def elim: output_okE)
  have "buffer_at s (buffersToWrite s ! i)"
    using assms(1,3) by (simp add: async_typed_def list_all_length)
  then obtain fb where fb: "deref s (Some (buffersToWrite s ! i)) = Inr fb"
      "asString fb = content s (buffersToWrite s ! i)"
    using deref_content by blast
  from lf.put_text [OF lf(2) assms(4), of "asString fb"] obtain lf' where
    "LogFile_append env (asString fb) lf = Inr lf'" "lf_good pid lf'" "log_text lf' = log_text lf @ asString fb"
    by blast
  moreover have "buffersToWrite s \<noteq> []" using assms(3) by auto
  ultimately show ?thesis using assms(3) lf(1) fb
    by (intro exI [of _ lf] exI [of _ lf']) (simp add: thread_write_def)
qed

definition given_back :: "nat list \<Rightarrow> nat" where
  "given_back ws = last (if length ws > 2 then take 2 ws else ws)"

lemma given_back_in: "ws \<noteq> [] \<Longrightarrow> given_back ws \<in> set ws"
  using last_in_set [of ws] in_set_takeD [OF last_in_set [of "take 2 ws"]]
  by (cases "2 < length ws") (auto simp: given_back_def)

lemma thread_recycle_result:
  assumes "async_typed pid s" and "phase s = W_recycle"
  shows "\<exists>h lf lf'. output_file s = Some lf
    \<and> thread_recycle s = Inr (s\<lparr>buffer_heap := h, newBuffer1 := Some (given_back (buffersToWrite s)),
         buffersToWrite := [], output_file := Some lf', phase := W_top\<rparr>)
    \<and> buffer_at (s\<lparr>buffer_heap := h\<rparr>) = buffer_at s
    \<and> (\<forall>b. content (s\<lparr>buffer_heap := h\<rparr>) b = (if b = given_back (buffersToWrite s) then [] else content s b))
    \<and> lf_good pid lf' \<and> log_text lf' = log_text lf"
proof -
  let ?ws = "buffersToWrite s" and ?b = "given_back (buffersToWrite s)"
  let ?us = "if length ?ws > 2 then take 2 ?ws else ?ws"
  have w: "?ws \<noteq> []" "newBuffer1 s = None" "newBuffer2 s \<noteq> None" "output_ok pid s"
    using assms by (auto simp: async_typed_def writer_ok_def ptr_ok_def split: option.splits)
  obtain n2 where n2: "newBuffer2 s = Some n2" using w(3) by blast
  obtain lf where lf: "output_file s = Some lf" "lf_good pid lf" using w(4) by (rule output_okE)
  obtain lf' where lf': "LogFile_flush lf = Inr lf'" "lf_good pid lf'" "log_text lf' = log_text lf"
    using LogFile_flush_good [OF lf(2)] by blast
  have b: "buffer_at s ?b"
    using assms(1) given_back_in [OF w(1)] by (simp add: async_typed_def list_all_iff)
  obtain fb where fb: "buffer_heap s ?b = Some fb" "fb_wf fb" "length (data fb) = kLargeBuffer"
    using b by (rule buffer_atE)
  let ?h = "(buffer_heap s)(?b \<mapsto> FixedBuffer_reset fb)"
  have s1: "(if length ?ws > 2 then s\<lparr>buffersToWrite := take 2 ?ws\<rparr> else s) = s\<lparr>buffersToWrite := ?us\<rparr>"
    by simp
  have "?us \<noteq> []" using w(1) by auto
  then have "take_back (s\<lparr>buffersToWrite := ?us\<rparr>)
      = Inr (?b, s\<lparr>buffer_heap := ?h, buffersToWrite := butlast ?us\<rparr>)"
    using fb(1) by (simp add: take_back_def Let_def deref_def assign_def given_back_def)
  then have "thread_recycle s = Inr (s\<lparr>buffer_heap := ?h, newBuffer1 := Some ?b,
         buffersToWrite := [], output_file := Some lf', phase := W_top\<rparr>)"
    unfolding thread_recycle_def Let_def s1 using w(2) n2 lf(1) lf'(1) by (simp cong: if_cong)
  moreover have "fb_wf (FixedBuffer_reset fb)" "length (data (FixedBuffer_reset fb)) = kLargeBuffer"
      "asString (FixedBuffer_reset fb) = []"
    using fb by (simp_all add: FixedBuffer_reset_def fb_wf_def asString_def FixedBuffer_length_def)
  then have "buffer_at (s\<lparr>buffer_heap := ?h\<rparr>) = buffer_at s"
      "\<forall>b. content (s\<lparr>buffer_heap := ?h\<rparr>) b = (if b = ?b then [] else content s b)"
    using heap_store [of "s\<lparr>buffer_heap := ?h\<rparr>" s ?b "FixedBuffer_reset fb"] b by auto
  ultimately show ?thesis using lf(1) lf'(2,3) by blast
qed

subsection \<open>Every step keeps the pointers valid\<close>

lemmas typed_defs = async_typed_def writer_ok_def output_ok_def

lemma writer_typed:
  assumes "async_typed pid s" and "env_good pid env"
  shows "case threadFunc_step env s of
      Inr s' \<Rightarrow> async_typed pid s' | Inl e \<Rightarrow> e = Assert_failed \<and> phase s = W_top"
proof (cases "phase s")
  case W_top
  show ?thesis
  proof (cases "running s")
    case True
    obtain a b where "newBuffer1 s = Some a" "newBuffer2 s = Some b"
      using assms(1) W_top by (auto simp: typed_defs elim!: ptr_okE)
    with thread_top_result [OF assms(1) W_top True this] assms(1) W_top show ?thesis
      by (simp add: threadFunc_step_def typed_defs)
  next
    case False
    from thread_top_stopped [OF assms(1) W_top this] assms(1) W_top show ?thesis
      by (auto simp: threadFunc_step_def typed_defs)
  qed
next
  case W_swap
  obtain c where c: "currentBuffer s = Some c" "buffer_at s c"
    using assms(1) by (auto simp: typed_defs elim!: ptr_okE)
  with thread_swap_result [OF assms(1) W_swap c(1)] assms(1) W_swap show ?thesis
    by (auto simp: threadFunc_step_def typed_defs)
next
  case (W_write i)
  show ?thesis
  proof (cases "i < length (buffersToWrite s)")
    case True
    from thread_write_result [OF assms(1) W_write True assms(2)] assms(1) W_write show ?thesis
      by (auto simp: threadFunc_step_def typed_defs)
  next
    case False
    with assms(1) W_write show ?thesis
      by (auto simp: threadFunc_step_def thread_write_def typed_defs)
  qed
next
  case W_recycle
  from thread_recycle_result [OF assms(1) W_recycle] obtain h lf' where
    h: "thread_recycle s = Inr (s\<lparr>buffer_heap := h, newBuffer1 := Some (given_back (buffersToWrite s)),
         buffersToWrite := [], output_file := Some lf', phase := W_top\<rparr>)"
      "buffer_at (s\<lparr>buffer_heap := h\<rparr>) = buffer_at s" "lf_good pid lf'" by blast
  have "buffer_at s (given_back (buffersToWrite s))"
    using assms(1) W_recycle given_back_in by (auto simp: typed_defs list_all_iff)
  with h ptr_ok_cong [OF h(2)] assms(1) W_recycle show ?thesis
    by (simp add: threadFunc_step_def typed_defs)
qed (use assms in \<open>simp_all add: threadFunc_step_def\<close>)

definition op_ok :: "int \<Rightarrow> async_op \<Rightarrow> bool" where
  "op_ok pid op \<longleftrightarrow> (case op of Writer env \<Rightarrow> env_good pid env | _ \<Rightarrow> True)"

lemma stop_typed: "async_typed pid s \<Longrightarrow> async_typed pid (AsyncLogging_stop s)"
  by (simp add: AsyncLogging_stop_def typed_defs split: writer_phase.splits)

lemma exec_typed:
  assumes "async_typed pid s" and "op_ok pid op"
  shows "case async_exec op s of Inr s' \<Rightarrow> async_typed pid s' | Inl e \<Rightarrow> e = Assert_failed"
proof (cases op)
  case (Append memory l)
  with append_typed [OF assms(1), of memory l] show ?thesis by auto
next
  case (Writer env)
  with writer_typed [OF assms(1), of env] assms(2) show ?thesis by (auto simp: op_ok_def split: sum.splits)
next
  case Stop
  with stop_typed [OF assms(1)] show ?thesis by simp
qed

subsection \<open>Starting\<close>

definition zeroed :: "char list \<Rightarrow> FixedBuffer" where
  "zeroed memory = FixedBuffer_bzero (FixedBuffer_new memory)"

lemma zeroed_ok: "length memory = kLargeBuffer \<Longrightarrow>
    fb_wf (zeroed memory) \<and> length (data (zeroed memory)) = kLargeBuffer \<and> asString (zeroed memory) = []"
  by (simp add: zeroed_def FixedBuffer_bzero_def FixedBuffer_new_def fb_wf_def asString_def FixedBuffer_length_def)

text \<open>The logger of the server, started, with its writer in front of the loop.\<close>

definition async_started ::
  "file_env \<Rightarrow> char list \<Rightarrow> char list \<Rightarrow> char list \<Rightarrow> char list \<Rightarrow> string \<Rightarrow> size_t \<Rightarrow> AsyncLogging res" where
  "async_started env m1 m2 m3 m4 bname rs =
     thread_begin env m3 m4 (AsyncLogging_start (AsyncLogging_new m1 m2 bname rs))"

definition large :: "char list \<Rightarrow> bool" where
  "large memory \<longleftrightarrow> length memory = kLargeBuffer"

lemma async_started_ok:
  assumes "large m1" "large m2" "large m3" "large m4"
    and "CHR ''/'' \<notin> set b" and "env_good pid env" and "0 < now1 env"
  shows "\<exists>s lf. async_started env m1 m2 m3 m4 b rs = Inr s \<and> async_typed pid s \<and> phase s = W_top \<and> running s
    \<and> buffers s = [] \<and> buffersToWrite s = [] \<and> currentBuffer s = Some 0 \<and> nextBuffer s = Some 1
    \<and> newBuffer1 s = Some 2 \<and> newBuffer2 s = Some 3 \<and> (\<forall>a. content s a = [])
    \<and> output_file s = Some lf \<and> log_text lf = []"
proof -
  obtain lf where lf: "LogFile_new b rs True 3 env = Inr lf" "lf_good pid lf" "log_text lf = []"
    using LogFile_new_good [OF assms(5-7)] by blast
  let ?h = "[0 \<mapsto> zeroed m1, 1 \<mapsto> zeroed m2, 2 \<mapsto> zeroed m3, 3 \<mapsto> zeroed m4]"
  let ?s = "\<lparr>buffer_heap = ?h, heap_end = 4, running = True, basename_str = b, roll_size = rs, latch_count = 0,
      currentBuffer = Some 0, nextBuffer = Some 1, buffers = [],
      newBuffer1 = Some 2, newBuffer2 = Some 3, buffersToWrite = [], output_file = Some lf, phase = W_top\<rparr>"
  have z: "fb_wf (zeroed m)" "length (data (zeroed m)) = kLargeBuffer" "asString (zeroed m) = []"
    if "m \<in> {m1, m2, m3, m4}" for m
    using zeroed_ok [of m] that assms(1-4) by (auto simp: large_def)
  have "async_started env m1 m2 m3 m4 b rs = Inr ?s"
    by (simp add: async_started_def thread_begin_def AsyncLogging_start_def AsyncLogging_new_def new_Buffer_def
        lf(1) zeroed_def numeral_2_eq_2 numeral_3_eq_3 Let_def)
  moreover have "buffer_at ?s a" if "a \<in> {0, 1, 2, 3}" for a
    using that z by (auto simp: buffer_at_def)
  then have "async_typed pid ?s" using lf(2) by (simp add: typed_defs)
  moreover have "content ?s a = []" for a using z by (simp add: content_def)
  ultimately show ?thesis using lf(3) by (intro exI [of _ ?s] exI [of _ lf]) simp
qed

subsection \<open>Runs in which no buffer overflows\<close>

text \<open>What has been appended and not yet written: the buffers from the position of the writer
  on, those waiting for it, and the current one.\<close>

definition unwritten :: "AsyncLogging \<Rightarrow> string" where
  "unwritten s =
     (case phase s of W_write i \<Rightarrow> concat (map (content s) (drop i (buffersToWrite s))) | _ \<Rightarrow> [])
     @ concat (map (content s) (buffers s))
     @ (case currentBuffer s of Some c \<Rightarrow> content s c | None \<Rightarrow> [])"

definition written :: "AsyncLogging \<Rightarrow> string" where
  "written s = (case output_file s of Some lf \<Rightarrow> log_text lf | None \<Rightarrow> [])"

definition writing :: "writer_phase \<Rightarrow> bool" where
  "writing ph \<longleftrightarrow> (case ph of W_write i \<Rightarrow> True | W_recycle \<Rightarrow> True | _ \<Rightarrow> False)"

text \<open>
  Without an overflow three different buffers are in use: the current one, the spare one of
  the writer, and one that alternates between being spare and being written.
\<close>

definition quiet :: "int \<Rightarrow> string \<Rightarrow> AsyncLogging \<Rightarrow> bool" where
  "quiet pid sofar s \<longleftrightarrow> async_typed pid s \<and> buffers s = [] \<and> phase s \<noteq> W_none
     \<and> (\<forall>i. phase s = W_write i \<longrightarrow> i \<le> 1)
     \<and> (\<exists>c x n. currentBuffer s = Some c \<and> newBuffer2 s = Some n \<and> distinct [c, x, n] \<and> content s n = []
          \<and> (if writing (phase s) then buffersToWrite s = [x] else newBuffer1 s = Some x \<and> content s x = []))
     \<and> sofar = written s @ unwritten s"

lemma quiet_append:
  assumes "quiet pid sofar s" and "currentBuffer s = Some c" and "length (content s c) + length l < kLargeBuffer"
  shows "\<exists>s'. AsyncLogging_append memory l s = Inr s' \<and> quiet pid (sofar @ l) s'"
proof -
  from assms(1,2) obtain x n where q: "async_typed pid s" "buffers s = []" "phase s \<noteq> W_none"
      "\<forall>i. phase s = W_write i \<longrightarrow> i \<le> 1" "newBuffer2 s = Some n" "distinct [c, x, n]" "content s n = []"
      "if writing (phase s) then buffersToWrite s = [x] else newBuffer1 s = Some x \<and> content s x = []"
      "sofar = written s @ unwritten s"
    unfolding quiet_def by auto
  have c: "buffer_at s c" using q(1) assms(2) by (simp add: typed_defs)
  obtain fb where fb: "deref s (Some c) = Inr fb" "avail fb = int kLargeBuffer - int (length (content s c))"
    using deref_content [OF c] by blast
  obtain h where h: "append_to (Some c) l s = Inr (s\<lparr>buffer_heap := h\<rparr>)"
      "buffer_at (s\<lparr>buffer_heap := h\<rparr>) = buffer_at s"
      "\<forall>b. content (s\<lparr>buffer_heap := h\<rparr>) b = (if b = c then content s c @ l else content s b)"
    using append_to_ok [OF c, of l] assms(3) by auto
  let ?s = "s\<lparr>buffer_heap := h\<rparr>"
  have "AsyncLogging_append memory l s = Inr ?s"
    using fb h(1) assms(2,3) by (simp add: AsyncLogging_append_def)
  moreover have "content ?s x = content s x" "content ?s n = content s n" "content ?s c = content s c @ l"
    using h(3) q(6) by auto
  moreover have "written ?s @ unwritten ?s = sofar @ l"
  proof (cases "phase s")
    case (W_write i)
    then have "buffersToWrite s = [x]" using q(8) by (simp add: writing_def)
    then have "concat (map (content ?s) (drop i (buffersToWrite s))) = concat (map (content s) (drop i (buffersToWrite s)))"
      using calculation(2) by (cases i) simp_all
    with W_write q(2,9) calculation assms(2) show ?thesis by (simp add: written_def unwritten_def)
  qed (use q(2,9) calculation assms(2) in \<open>simp_all add: written_def unwritten_def\<close>)
  ultimately show ?thesis
    using q(2-8) async_typed_heap [OF q(1) h(2)] assms(2) unfolding quiet_def
    by (intro exI [of _ ?s]) auto
qed

text \<open>The same with the three buffers named, and the writer phase by phase.\<close>

definition quiet_at :: "int \<Rightarrow> string \<Rightarrow> nat \<Rightarrow> nat \<Rightarrow> nat \<Rightarrow> AsyncLogging \<Rightarrow> bool" where
  "quiet_at pid sofar c x n s \<longleftrightarrow> async_typed pid s \<and> buffers s = [] \<and> phase s \<noteq> W_none
     \<and> (\<forall>i. phase s = W_write i \<longrightarrow> i \<le> 1)
     \<and> currentBuffer s = Some c \<and> newBuffer2 s = Some n \<and> distinct [c, x, n] \<and> content s n = []
     \<and> (if writing (phase s) then buffersToWrite s = [x] else newBuffer1 s = Some x \<and> content s x = [])
     \<and> sofar = written s @ unwritten s"

lemma quiet_iff: "quiet pid sofar s \<longleftrightarrow> (\<exists>c x n. quiet_at pid sofar c x n s)"
  by (auto simp: quiet_def quiet_at_def)

lemmas quiet_step_defs = quiet_at_def writing_def written_def unwritten_def

lemma quiet_typed:
  assumes "quiet_at pid sofar c x n s" and "env_good pid env" and "threadFunc_step env s = Inr s'"
  shows "async_typed pid s'"
  using writer_typed [of pid s env] assms by (simp add: quiet_at_def)

lemma quiet_top:
  assumes q: "quiet_at pid sofar c x n s" and env: "env_good pid env" and ph: "phase s = W_top"
  shows "\<exists>s'. threadFunc_step env s = Inr s' \<and> quiet pid sofar s'"
proof (cases "running s")
  case True
  have "threadFunc_step env s = Inr (s\<lparr>phase := W_swap\<rparr>)"
    using thread_top_result [OF _ ph True, of pid x n] q ph by (simp add: threadFunc_step_def quiet_at_def writing_def)
  moreover from quiet_typed [OF q env this] q ph have "quiet_at pid sofar c x n (s\<lparr>phase := W_swap\<rparr>)"
    by (auto simp: quiet_step_defs)
  ultimately show ?thesis unfolding quiet_iff by blast
next
  case False
  have "async_typed pid s" using q by (simp add: quiet_at_def)
  from thread_top_stopped [OF this ph False] obtain lf lf' where lf: "output_file s = Some lf" "log_text lf' = log_text lf"
      "thread_top s = Inr (s\<lparr>output_file := Some lf', phase := W_done\<rparr>)" by blast
  then have "threadFunc_step env s = Inr (s\<lparr>output_file := Some lf', phase := W_done\<rparr>)"
    using ph by (simp add: threadFunc_step_def)
  moreover from quiet_typed [OF q env this] q ph lf(1,2)
  have "quiet_at pid sofar c x n (s\<lparr>output_file := Some lf', phase := W_done\<rparr>)" by (auto simp: quiet_step_defs)
  ultimately show ?thesis unfolding quiet_iff by blast
qed

text \<open>The current buffer goes to the writer and the one given back becomes current.\<close>

lemma quiet_swap:
  assumes q: "quiet_at pid sofar c x n s" and env: "env_good pid env" and ph: "phase s = W_swap"
  shows "\<exists>s'. threadFunc_step env s = Inr s' \<and> quiet pid sofar s'"
proof -
  let ?s = "s\<lparr>currentBuffer := newBuffer1 s, buffers := [], newBuffer1 := None,
         buffersToWrite := buffers s @ [c], phase := W_write 0\<rparr>"
  have "threadFunc_step env s = Inr ?s"
    using thread_swap_result [OF _ ph, of pid c] q ph by (simp add: threadFunc_step_def quiet_at_def)
  moreover from quiet_typed [OF q env this] q ph have "quiet_at pid sofar x c n ?s" by (auto simp: quiet_step_defs)
  ultimately show ?thesis unfolding quiet_iff by blast
qed

lemma quiet_write:
  assumes q: "quiet_at pid sofar c x n s" and env: "env_good pid env" and ph: "phase s = W_write i"
  shows "\<exists>s'. threadFunc_step env s = Inr s' \<and> quiet pid sofar s'"
proof -
  have ws: "buffersToWrite s = [x]" and t: "async_typed pid s" and "i = 0 \<or> i = 1"
    using q ph by (auto simp: quiet_at_def writing_def le_Suc_eq)
  then consider "i = 0" | "i = 1" by blast
  then show ?thesis
  proof cases
    case 1
    obtain lf lf' where lf: "output_file s = Some lf" "log_text lf' = log_text lf @ content s x"
        "thread_write env i s = Inr (s\<lparr>output_file := Some lf', phase := W_write (i + 1)\<rparr>)"
      using thread_write_result [OF t ph _ env] ws 1 by auto
    then have "threadFunc_step env s = Inr (s\<lparr>output_file := Some lf', phase := W_write (i + 1)\<rparr>)"
      using ph by (simp add: threadFunc_step_def)
    moreover from quiet_typed [OF q env this] q ph lf(1,2) ws 1
    have "quiet_at pid sofar c x n (s\<lparr>output_file := Some lf', phase := W_write (i + 1)\<rparr>)" by (auto simp: quiet_step_defs)
    ultimately show ?thesis unfolding quiet_iff by blast
  next
    case 2
    then have "threadFunc_step env s = Inr (s\<lparr>phase := W_recycle\<rparr>)"
      using ph ws by (simp add: threadFunc_step_def thread_write_def)
    moreover from quiet_typed [OF q env this] q ph ws 2 have "quiet_at pid sofar c x n (s\<lparr>phase := W_recycle\<rparr>)"
      by (auto simp: quiet_step_defs)
    ultimately show ?thesis unfolding quiet_iff by blast
  qed
qed

lemma quiet_recycle:
  assumes q: "quiet_at pid sofar c x n s" and env: "env_good pid env" and ph: "phase s = W_recycle"
  shows "\<exists>s'. threadFunc_step env s = Inr s' \<and> quiet pid sofar s'"
proof -
  have ws: "buffersToWrite s = [x]" and t: "async_typed pid s" using q ph by (simp_all add: quiet_at_def writing_def)
  from thread_recycle_result [OF t ph] obtain h lf lf' where
    r: "output_file s = Some lf" "log_text lf' = log_text lf"
      "thread_recycle s = Inr (s\<lparr>buffer_heap := h, newBuffer1 := Some x,
         buffersToWrite := [], output_file := Some lf', phase := W_top\<rparr>)"
      "\<forall>b. content (s\<lparr>buffer_heap := h\<rparr>) b = (if b = x then [] else content s b)"
    by (auto simp: ws given_back_def)
  let ?s = "s\<lparr>buffer_heap := h, newBuffer1 := Some x, buffersToWrite := [], output_file := Some lf', phase := W_top\<rparr>"
  have "threadFunc_step env s = Inr ?s" using r(3) ph by (simp add: threadFunc_step_def)
  moreover from quiet_typed [OF q env this] q ph r(1,2,4) have "quiet_at pid sofar c x n ?s"
    by (auto simp: quiet_step_defs)
  ultimately show ?thesis unfolding quiet_iff by blast
qed

lemma quiet_writer:
  assumes "quiet pid sofar s" and env: "env_good pid env"
  shows "\<exists>s'. threadFunc_step env s = Inr s' \<and> quiet pid sofar s'"
proof -
  obtain c x n where q: "quiet_at pid sofar c x n s" using assms(1) by (auto simp: quiet_iff)
  show ?thesis
  proof (cases "phase s")
    case W_none
    with q show ?thesis by (simp add: quiet_at_def)
  next
    case W_done
    with assms(1) show ?thesis by (simp add: threadFunc_step_def)
  qed (use quiet_top [OF q env] quiet_swap [OF q env] quiet_write [OF q env] quiet_recycle [OF q env] in blast)+
qed

text \<open>The runs in which every appended line fits into the buffer that is current at the time.\<close>

fun roomy :: "async_op list \<Rightarrow> AsyncLogging \<Rightarrow> bool" where
  "roomy [] s = True"
| "roomy (op # ops) s =
     ((case op of
         Append memory l \<Rightarrow> (case currentBuffer s of None \<Rightarrow> False | Some c \<Rightarrow> length (content s c) + length l < kLargeBuffer)
       | _ \<Rightarrow> True)
      \<and> (case async_exec op s of Inr s' \<Rightarrow> roomy ops s' | Inl e \<Rightarrow> True))"

fun appended :: "async_op list \<Rightarrow> string" where
  "appended [] = []"
| "appended (Append memory l # ops) = l @ appended ops"
| "appended (op # ops) = appended ops"

lemma quiet_stop: "quiet pid sofar s \<Longrightarrow> quiet pid sofar (AsyncLogging_stop s)"
proof -
  have "unwritten (s\<lparr>running := False\<rparr>) = unwritten s" "written (s\<lparr>running := False\<rparr>) = written s"
    by (simp_all add: unwritten_def written_def split: writer_phase.split option.split)
  then show "quiet pid sofar s \<Longrightarrow> quiet pid sofar (AsyncLogging_stop s)"
    using stop_typed [of pid s] unfolding quiet_def AsyncLogging_stop_def by (simp cong: if_cong)
qed

lemma quiet_run:
  assumes "quiet pid sofar s" and "list_all (op_ok pid) ops" and "roomy ops s"
  shows "\<exists>s'. foldR async_exec ops s = Inr s' \<and> quiet pid (sofar @ appended ops) s'"
  using assms
proof (induction ops arbitrary: s sofar)
  case Nil
  then show ?case by simp
next
  case (Cons op ops)
  have "\<exists>s1. async_exec op s = Inr s1 \<and> quiet pid (sofar @ appended [op]) s1"
  proof (cases op)
    case (Append memory l)
    with Cons.prems(3) obtain c where "currentBuffer s = Some c" "length (content s c) + length l < kLargeBuffer"
      by (auto split: option.splits)
    with quiet_append [OF Cons.prems(1)] Append show ?thesis by simp
  next
    case (Writer env)
    with quiet_writer [OF Cons.prems(1)] Cons.prems(2) show ?thesis by (simp add: op_ok_def)
  next
    case Stop
    with quiet_stop [OF Cons.prems(1)] show ?thesis by simp
  qed
  then obtain s1 where s1: "async_exec op s = Inr s1" "quiet pid (sofar @ appended [op]) s1" by blast
  have "appended [op] @ appended ops = appended (op # ops)" by (cases op) simp_all
  with Cons.IH [OF s1(2)] Cons.prems(2,3) s1(1) show ?case by simp
qed

lemma typed_run:
  assumes "async_typed pid s" and "list_all (op_ok pid) ops"
  shows "case foldR async_exec ops s of Inr s' \<Rightarrow> async_typed pid s' | Inl e \<Rightarrow> e = Assert_failed"
  using assms
proof (induction ops arbitrary: s)
  case Nil
  then show ?case by simp
next
  case (Cons op ops)
  with exec_typed [OF Cons.prems(1), of op] show ?case
    by (cases "async_exec op s") auto
qed

lemma roomy_writers: "roomy (map Writer envs) s"
  by (induction envs arbitrary: s) (auto split: sum.splits)

lemma async_started_quiet:
  assumes "large m1" "large m2" "large m3" "large m4"
    and "CHR ''/'' \<notin> set b" and "env_good pid env" and "0 < now1 env"
    and "async_started env m1 m2 m3 m4 b rs = Inr s"
  shows "quiet pid [] s" and "currentBuffer s = Some 0" and "content s 0 = []"
  using async_started_ok [OF assms(1-7), of rs] assms(8)
  by (auto simp: quiet_def written_def unwritten_def writing_def)

subsection \<open>Runs step by step\<close>

text \<open>
  What a running logger looks like: the phase of the writer, the pointers, the two lists of
  buffers, the text written so far and the text each buffer holds.
\<close>

definition view ::
  "int \<Rightarrow> writer_phase \<Rightarrow> nat \<Rightarrow> nat \<Rightarrow> nat list \<Rightarrow> nat option \<Rightarrow> nat \<Rightarrow> nat list \<Rightarrow> string \<Rightarrow> (nat \<Rightarrow> string)
     \<Rightarrow> AsyncLogging \<Rightarrow> bool" where
  "view pid ph c n bs n1 n2 ws out f s \<longleftrightarrow> async_typed pid s \<and> running s \<and> phase s = ph
     \<and> currentBuffer s = Some c \<and> nextBuffer s = Some n \<and> buffers s = bs
     \<and> newBuffer1 s = n1 \<and> newBuffer2 s = Some n2 \<and> buffersToWrite s = ws \<and> written s = out \<and> content s = f"

lemma view_append:
  assumes "view pid ph c n bs n1 n2 ws out f s" and "length (f c) + length l < kLargeBuffer"
  shows "\<exists>s'. async_exec (Append memory l) s = Inr s' \<and> view pid ph c n bs n1 n2 ws out (f(c := f c @ l)) s'"
proof -
  have v: "async_typed pid s" "currentBuffer s = Some c" "content s = f" using assms(1) by (simp_all add: view_def)
  have c: "buffer_at s c" using v(1,2) by (simp add: typed_defs)
  obtain fb where fb: "deref s (Some c) = Inr fb" "avail fb = int kLargeBuffer - int (length (content s c))"
    using deref_content [OF c] by blast
  obtain h where h: "append_to (Some c) l s = Inr (s\<lparr>buffer_heap := h\<rparr>)"
      "buffer_at (s\<lparr>buffer_heap := h\<rparr>) = buffer_at s"
      "\<forall>b. content (s\<lparr>buffer_heap := h\<rparr>) b = (if b = c then content s c @ l else content s b)"
    using append_to_ok [OF c, of l] assms(2) v(3) by auto
  have "content (s\<lparr>buffer_heap := h\<rparr>) = f(c := f c @ l)" using h(3) v(3) by auto
  with assms fb h(1) v async_typed_heap [OF v(1) h(2)] show ?thesis
    by (simp add: AsyncLogging_append_def view_def written_def)
qed

lemma view_overflow:
  assumes "view pid ph c n bs n1 n2 ws out f s" and "kLargeBuffer \<le> length (f c) + length l"
  shows "\<exists>s'. async_exec (Append memory l) s = Inr s' \<and> view pid ph n n (bs @ [c]) n1 n2 ws out
      (if length (f n) + length l < kLargeBuffer then f(n := f n @ l) else f) s'"
proof -
  have v: "async_typed pid s" "currentBuffer s = Some c" "nextBuffer s = Some n" "content s = f" "buffers s = bs"
    using assms(1) by (simp_all add: view_def)
  let ?s2 = "s\<lparr>buffers := buffers s @ [c], currentBuffer := Some n\<rparr>"
  have at: "buffer_at s c" "buffer_at s n" using v by (simp_all add: typed_defs)
  obtain fb where fb: "deref s (Some c) = Inr fb" "avail fb = int kLargeBuffer - int (length (content s c))"
    using deref_content [OF at(1)] by blast
  have t2: "async_typed pid ?s2" using v(1) at v(3) by (simp add: typed_defs split: writer_phase.splits)
  obtain h where h: "append_to (Some n) l ?s2 = Inr (?s2\<lparr>buffer_heap := h\<rparr>)"
      "buffer_at (?s2\<lparr>buffer_heap := h\<rparr>) = buffer_at ?s2"
      "\<forall>b. content (?s2\<lparr>buffer_heap := h\<rparr>) b
         = (if b = n \<and> length (content ?s2 n) + length l < kLargeBuffer then content ?s2 n @ l else content ?s2 b)"
    using append_to_ok [of ?s2 n l] at(2) by auto
  have "content (?s2\<lparr>buffer_heap := h\<rparr>) = (if length (f n) + length l < kLargeBuffer then f(n := f n @ l) else f)"
    using h(3) v(4) by auto
  moreover have "AsyncLogging_append memory l s = Inr (?s2\<lparr>buffer_heap := h\<rparr>)"
    using assms(2) fb h(1) v by (simp add: AsyncLogging_append_def Let_def)
  ultimately show ?thesis
    using assms(1) v async_typed_heap [OF t2 h(2)] by (simp add: view_def written_def)
qed

lemma view_typed_step:
  assumes "view pid ph c n bs n1 n2 ws out f s" and "env_good pid env" and "threadFunc_step env s = Inr s'"
  shows "async_typed pid s'"
  using writer_typed [of pid s env] assms by (simp add: view_def)

lemma view_top:
  assumes "view pid W_top c n bs (Some a) b [] out f s"
  shows "async_exec (Writer env) s = assertR (f a = [] \<and> f b = []) (Inr (s\<lparr>phase := W_swap\<rparr>))"
  using assms thread_top_result [of pid s a b] by (simp add: view_def threadFunc_step_def)

lemma view_top_swap:
  assumes "view pid W_top c n bs (Some a) b [] out f s" and "f a = []" and "f b = []" and "env_good pid env"
  shows "\<exists>s'. async_exec (Writer env) s = Inr s' \<and> view pid W_swap c n bs (Some a) b [] out f s'"
  using view_top [OF assms(1), of env] view_typed_step [OF assms(1,4)] assms(1-3)
  by (simp add: view_def written_def)

lemma view_swap:
  assumes "view pid W_swap c n bs (Some a) b [] out f s" and "env_good pid env"
  shows "\<exists>s'. async_exec (Writer env) s = Inr s' \<and> view pid (W_write 0) a n [] None b (bs @ [c]) out f s'"
  using thread_swap_result [of pid s c] view_typed_step [OF assms] assms(1)
  by (simp add: view_def written_def threadFunc_step_def)

lemma view_write:
  assumes "view pid (W_write i) c n bs None b ws out f s" and "i < length ws" and "env_good pid env"
  shows "\<exists>s'. async_exec (Writer env) s = Inr s' \<and> view pid (W_write (i + 1)) c n bs None b ws (out @ f (ws ! i)) f s'"
  using thread_write_result [of pid s i env] view_typed_step [OF assms(1,3)] assms
  by (auto simp: view_def written_def threadFunc_step_def)

lemma view_write_end:
  assumes "view pid (W_write i) c n bs None b ws out f s" and "i = length ws" and "ws \<noteq> []" and "env_good pid env"
  shows "\<exists>s'. async_exec (Writer env) s = Inr s' \<and> view pid W_recycle c n bs None b ws out f s'"
  using view_typed_step [OF assms(1,4)] assms(1-3)
  by (auto simp: view_def written_def threadFunc_step_def thread_write_def)

lemma view_recycle:
  assumes "view pid W_recycle c n bs None b ws out f s" and "env_good pid env"
  shows "\<exists>s'. async_exec (Writer env) s = Inr s'
    \<and> view pid W_top c n bs (Some (given_back ws)) b [] out (f(given_back ws := [])) s'"
proof -
  have v: "async_typed pid s" "phase s = W_recycle" "buffersToWrite s = ws" "content s = f" "written s = out"
    using assms(1) by (simp_all add: view_def)
  from thread_recycle_result [OF v(1,2)] v(3) obtain h lf lf' where
    r: "output_file s = Some lf" "log_text lf' = log_text lf"
      "thread_recycle s = Inr (s\<lparr>buffer_heap := h, newBuffer1 := Some (given_back ws),
         buffersToWrite := [], output_file := Some lf', phase := W_top\<rparr>)"
      "\<forall>b. content (s\<lparr>buffer_heap := h\<rparr>) b = (if b = given_back ws then [] else content s b)"
    by auto
  let ?s = "s\<lparr>buffer_heap := h, newBuffer1 := Some (given_back ws), buffersToWrite := [],
              output_file := Some lf', phase := W_top\<rparr>"
  have "threadFunc_step env s = Inr ?s" using r(3) v(2) by (simp add: threadFunc_step_def)
  moreover have "content (s\<lparr>buffer_heap := h\<rparr>) = f(given_back ws := [])" using r(4) v(4) by auto
  ultimately show ?thesis
    using view_typed_step [OF assms] assms(1) v(5) r(1,2) by (simp add: view_def written_def)
qed

lemma view_started:
  assumes "large m1" "large m2" "large m3" "large m4"
    and "CHR ''/'' \<notin> set b" and "env_good pid env" and "0 < now1 env"
    and "async_started env m1 m2 m3 m4 b rs = Inr s"
  shows "view pid W_top 0 1 [] (Some 2) 3 [] [] (\<lambda>_. []) s"
  using async_started_ok [OF assms(1-7), of rs] assms(8) by (auto simp: view_def written_def)

subsection \<open>Properties\<close>

text \<open>
  C35 (type). In every interleaving of logging threads, writer and \<open>stop\<close>, from the start of
  the logger on, overflowing buffers included, every pointer that the code dereferences
  points to an allocated buffer of 4,000,000 bytes whose write position is inside it, the
  pointer to the spare buffer is never null, and the lists the writer indexes are not
  empty.  No operation has undefined behaviour; the only way a run can end early is a
  failing assertion.
\<close>
theorem async_run_well_typed:
  assumes "large m1" "large m2" "large m3" "large m4"
    and "CHR ''/'' \<notin> set b" and "env_good pid env" and "0 < now1 env"
    and "list_all (op_ok pid) ops"
  shows "\<exists>s. async_started env m1 m2 m3 m4 b rs = Inr s \<and> async_typed pid s
    \<and> (case foldR async_exec ops s of Inr s' \<Rightarrow> async_typed pid s' | Inl e \<Rightarrow> e = Assert_failed)"
  using async_started_ok [OF assms(1-7), of rs] typed_run [OF _ assms(8)] by blast

theorem async_run_well_typed_witness:
  "\<exists>s. async_started \<lparr>takes = (\<lambda>k. 1), ferr = False, fopen_ok = True, now1 = 5, now2 = 5, getpid = 7\<rparr>
        (replicate kLargeBuffer CHR ''x'') (replicate kLargeBuffer CHR ''x'')
        (replicate kLargeBuffer CHR ''x'') (replicate kLargeBuffer CHR ''x'') ''srv'' 10 = Inr s \<and> async_typed 7 s
    \<and> (case foldR async_exec [Append [] ''hello'', Stop] s of Inr s' \<Rightarrow> async_typed 7 s' | Inl e \<Rightarrow> e = Assert_failed)"
  by (rule async_run_well_typed) (simp_all add: large_def env_good_def time_ok_def op_ok_def)

text \<open>
  C32 (safety). As long as every line fits into the current buffer, the asynchronous logger
  neither loses nor repeats nor reorders a line, in any interleaving of the logging threads
  with the writer: no assertion fails, and what the log files hold followed by what is
  still in the buffers is exactly the appended lines in the order of their appends.
\<close>
theorem async_lines_in_order:
  assumes "large m1" "large m2" "large m3" "large m4"
    and "CHR ''/'' \<notin> set b" and "env_good pid env" and "0 < now1 env"
    and "async_started env m1 m2 m3 m4 b rs = Inr s"
    and "list_all (op_ok pid) ops" and "roomy ops s"
  shows "\<exists>s'. foldR async_exec ops s = Inr s' \<and> written s' @ unwritten s' = appended ops"
  using quiet_run [OF async_started_quiet(1) [OF assms(1-8)] assms(9,10)] by (auto simp: quiet_def)

theorem async_lines_in_order_witness:
  "\<exists>s s'. async_started \<lparr>takes = (\<lambda>k. 1), ferr = False, fopen_ok = True, now1 = 5, now2 = 5, getpid = 7\<rparr>
        (replicate kLargeBuffer CHR ''x'') (replicate kLargeBuffer CHR ''x'')
        (replicate kLargeBuffer CHR ''x'') (replicate kLargeBuffer CHR ''x'') ''srv'' 10 = Inr s
    \<and> foldR async_exec (Append [] ''hello'' # map Writer (replicate 4
          \<lparr>takes = (\<lambda>k. 1), ferr = False, fopen_ok = True, now1 = 5, now2 = 5, getpid = 7\<rparr>)) s = Inr s'
    \<and> written s' @ unwritten s' = ''hello''"
proof -
  let ?e = "\<lparr>takes = (\<lambda>k. 1), ferr = False, fopen_ok = True, now1 = 5, now2 = 5, getpid = 7\<rparr>"
  let ?m = "replicate kLargeBuffer CHR ''x''"
  let ?ops = "Append [] ''hello'' # map Writer (replicate 4 ?e)"
  have e: "env_good 7 ?e" and m: "large ?m" by (simp_all add: env_good_def time_ok_def large_def)
  obtain s where s: "async_started ?e ?m ?m ?m ?m ''srv'' 10 = Inr s"
    using async_started_ok [OF m m m m _ e, of "''srv''" 10] by auto
  have "currentBuffer s = Some 0" "content s 0 = []"
    using async_started_quiet(2,3) [OF m m m m _ e _ s] by simp_all
  then have "roomy ?ops s" using roomy_writers by (simp add: kLargeBuffer_def del: map_replicate split: sum.splits)
  moreover have "list_all (op_ok 7) ?ops" using e by (simp add: op_ok_def list_all_iff)
  moreover have "appended (map Writer envs) = []" for envs by (induction envs) simp_all
  ultimately show ?thesis
    using async_lines_in_order [OF m m m m _ e _ s, of ?ops] s by (auto simp del: map_replicate)
qed

text \<open>A large line: it fits into an empty buffer, but two of them do not.\<close>

definition half_full :: "string \<Rightarrow> bool" where
  "half_full l \<longleftrightarrow> length l < kLargeBuffer \<and> kLargeBuffer \<le> 2 * length l"

text \<open>
  C37 (error). \<open>std::move\<close> does not clear the pointer to the spare buffer, so the second
  overflow between two passes of the writer hands out the buffer that has just been filled.
  Of three lines that need a buffer each, logged while the writer waits, the third is lost
  and the second is written twice.
\<close>
theorem second_overflow_loses_line:
  assumes "large m1" "large m2" "large m3" "large m4"
    and "CHR ''/'' \<notin> set b" and "env_good pid env" and "0 < now1 env"
    and "async_started env m1 m2 m3 m4 b rs = Inr s"
    and "half_full l1" and "half_full l2" and "half_full l3"
  shows "\<exists>s'. foldR async_exec
      [Writer env, Append m l1, Append m l2, Append m l3, Writer env, Writer env, Writer env, Writer env] s = Inr s'
    \<and> written s' = l1 @ l2 @ l2 \<and> unwritten s' = []"
proof -
  let ?N = kLargeBuffer
  have len: "length l1 < ?N" "length l2 < ?N" "?N \<le> length l1 + length l2" "?N \<le> length l2 + length l3"
    using assms(9-11) by (auto simp: half_full_def)
  obtain s1 where s1: "async_exec (Writer env) s = Inr s1" "view pid W_swap 0 1 [] (Some 2) 3 [] [] (\<lambda>_. []) s1"
    using view_top_swap [OF view_started [OF assms(1-8)] refl refl assms(6)] by blast
  obtain s2 where s2: "async_exec (Append m l1) s1 = Inr s2"
      "view pid W_swap 0 1 [] (Some 2) 3 [] [] ((\<lambda>_. [])(0 := l1)) s2"
    using view_append [OF s1(2), of l1 m] len(1) by auto
  obtain s3 where s3: "async_exec (Append m l2) s2 = Inr s3"
      "view pid W_swap 1 1 [0] (Some 2) 3 [] [] ((\<lambda>_. [])(0 := l1, 1 := l2)) s3"
    using view_overflow [OF s2(2), of l2 m] len by (auto simp: add.commute)
  obtain s4 where s4: "async_exec (Append m l3) s3 = Inr s4"
      "view pid W_swap 1 1 [0, 1] (Some 2) 3 [] [] ((\<lambda>_. [])(0 := l1, 1 := l2)) s4"
    using view_overflow [OF s3(2), of l3 m] len by auto
  obtain s5 where s5: "async_exec (Writer env) s4 = Inr s5"
      "view pid (W_write 0) 2 1 [] None 3 [0, 1, 1] [] ((\<lambda>_. [])(0 := l1, 1 := l2)) s5"
    using view_swap [OF s4(2) assms(6)] by auto
  obtain s6 where s6: "async_exec (Writer env) s5 = Inr s6"
      "view pid (W_write 1) 2 1 [] None 3 [0, 1, 1] l1 ((\<lambda>_. [])(0 := l1, 1 := l2)) s6"
    using view_write [OF s5(2) _ assms(6)] by auto
  obtain s7 where s7: "async_exec (Writer env) s6 = Inr s7"
      "view pid (W_write 2) 2 1 [] None 3 [0, 1, 1] (l1 @ l2) ((\<lambda>_. [])(0 := l1, 1 := l2)) s7"
    using view_write [OF s6(2) _ assms(6)] by (auto simp: numeral_2_eq_2)
  obtain s8 where s8: "async_exec (Writer env) s7 = Inr s8"
      "view pid (W_write 3) 2 1 [] None 3 [0, 1, 1] (l1 @ l2 @ l2) ((\<lambda>_. [])(0 := l1, 1 := l2)) s8"
    using view_write [OF s7(2) _ assms(6)] by (auto simp: numeral_3_eq_3 numeral_2_eq_2)
  have "written s8 = l1 @ l2 @ l2 \<and> unwritten s8 = []"
    using s8(2) by (auto simp: view_def unwritten_def)
  then show ?thesis using s1(1) s2(1) s3(1) s4(1) s5(1) s6(1) s7(1) s8(1) by simp
qed

theorem second_overflow_loses_line_witness:
  "\<exists>s s'. async_started \<lparr>takes = (\<lambda>k. 1), ferr = False, fopen_ok = True, now1 = 5, now2 = 5, getpid = 7\<rparr>
        (replicate kLargeBuffer CHR ''x'') (replicate kLargeBuffer CHR ''x'')
        (replicate kLargeBuffer CHR ''x'') (replicate kLargeBuffer CHR ''x'') ''srv'' 10 = Inr s
    \<and> foldR async_exec
      [Writer \<lparr>takes = (\<lambda>k. 1), ferr = False, fopen_ok = True, now1 = 5, now2 = 5, getpid = 7\<rparr>,
       Append [] (replicate 2000000 CHR ''a''), Append [] (replicate 2000000 CHR ''b''),
       Append [] (replicate 2000000 CHR ''c''),
       Writer \<lparr>takes = (\<lambda>k. 1), ferr = False, fopen_ok = True, now1 = 5, now2 = 5, getpid = 7\<rparr>,
       Writer \<lparr>takes = (\<lambda>k. 1), ferr = False, fopen_ok = True, now1 = 5, now2 = 5, getpid = 7\<rparr>,
       Writer \<lparr>takes = (\<lambda>k. 1), ferr = False, fopen_ok = True, now1 = 5, now2 = 5, getpid = 7\<rparr>,
       Writer \<lparr>takes = (\<lambda>k. 1), ferr = False, fopen_ok = True, now1 = 5, now2 = 5, getpid = 7\<rparr>] s = Inr s'
    \<and> written s' = replicate 2000000 CHR ''a'' @ replicate 2000000 CHR ''b'' @ replicate 2000000 CHR ''b''
    \<and> unwritten s' = []"
proof -
  let ?e = "\<lparr>takes = (\<lambda>k. 1), ferr = False, fopen_ok = True, now1 = 5, now2 = 5, getpid = 7\<rparr>"
  let ?m = "replicate kLargeBuffer CHR ''x''"
  have e: "env_good 7 ?e" "0 < now1 ?e" and m: "large ?m" by (simp_all add: env_good_def time_ok_def large_def)
  have b: "CHR ''/'' \<notin> set ''srv''" by simp
  have half: "half_full (replicate 2000000 c)" for c by (simp add: half_full_def kLargeBuffer_def)
  obtain s where s: "async_started ?e ?m ?m ?m ?m ''srv'' 10 = Inr s"
    using async_started_ok [OF m m m m b e] by blast
  from second_overflow_loses_line [OF m m m m b e s half half half] s show ?thesis by blast
qed

text \<open>
  After a pass that followed an overflow, the buffer given back to the writer
  and the spare buffer of the logging threads are the same one.  An overflow that comes
  before the writer reaches the head of its loop fills it, and the assertion that the
  writer's buffer is empty aborts the process.
\<close>
theorem overflow_after_pass_aborts:
  assumes "large m1" "large m2" "large m3" "large m4"
    and "CHR ''/'' \<notin> set b" and "env_good pid env" and "0 < now1 env"
    and "async_started env m1 m2 m3 m4 b rs = Inr s"
    and "half_full l1" and "half_full l2" and "half_full l3" and "half_full l4"
  shows "foldR async_exec
      [Writer env, Append m l1, Append m l2, Writer env, Writer env, Writer env, Writer env, Writer env,
       Append m l3, Append m l4, Writer env] s = Inl Assert_failed"
proof -
  let ?N = kLargeBuffer
  have len: "length l1 < ?N" "length l2 < ?N" "?N \<le> length l1 + length l2"
      "length l3 < ?N" "length l4 < ?N" "?N \<le> length l3 + length l4" "l4 \<noteq> []"
    using assms(9-12) by (auto simp: half_full_def kLargeBuffer_def)
  obtain s1 where s1: "async_exec (Writer env) s = Inr s1" "view pid W_swap 0 1 [] (Some 2) 3 [] [] (\<lambda>_. []) s1"
    using view_top_swap [OF view_started [OF assms(1-8)] refl refl assms(6)] by blast
  obtain s2 where s2: "async_exec (Append m l1) s1 = Inr s2"
      "view pid W_swap 0 1 [] (Some 2) 3 [] [] ((\<lambda>_. [])(0 := l1)) s2"
    using view_append [OF s1(2), of l1 m] len(1) by auto
  obtain s3 where s3: "async_exec (Append m l2) s2 = Inr s3"
      "view pid W_swap 1 1 [0] (Some 2) 3 [] [] ((\<lambda>_. [])(0 := l1, 1 := l2)) s3"
    using view_overflow [OF s2(2), of l2 m] len by (auto simp: add.commute)
  obtain s4 where s4: "async_exec (Writer env) s3 = Inr s4"
      "view pid (W_write 0) 2 1 [] None 3 [0, 1] [] ((\<lambda>_. [])(0 := l1, 1 := l2)) s4"
    using view_swap [OF s3(2) assms(6)] by auto
  obtain s5 where s5: "async_exec (Writer env) s4 = Inr s5"
      "view pid (W_write 1) 2 1 [] None 3 [0, 1] l1 ((\<lambda>_. [])(0 := l1, 1 := l2)) s5"
    using view_write [OF s4(2) _ assms(6)] by auto
  obtain s6 where s6: "async_exec (Writer env) s5 = Inr s6"
      "view pid (W_write 2) 2 1 [] None 3 [0, 1] (l1 @ l2) ((\<lambda>_. [])(0 := l1, 1 := l2)) s6"
    using view_write [OF s5(2) _ assms(6)] by (auto simp: numeral_2_eq_2)
  obtain s7 where s7: "async_exec (Writer env) s6 = Inr s7"
      "view pid W_recycle 2 1 [] None 3 [0, 1] (l1 @ l2) ((\<lambda>_. [])(0 := l1, 1 := l2)) s7"
    using view_write_end [OF s6(2) _ _ assms(6)] by auto
  obtain s8 where s8: "async_exec (Writer env) s7 = Inr s8"
      "view pid W_top 2 1 [] (Some 1) 3 [] (l1 @ l2) ((\<lambda>_. [])(0 := l1, 1 := [])) s8"
    using view_recycle [OF s7(2) assms(6)] by (auto simp: given_back_def)
  obtain s9 where s9: "async_exec (Append m l3) s8 = Inr s9"
      "view pid W_top 2 1 [] (Some 1) 3 [] (l1 @ l2) ((\<lambda>_. [])(0 := l1, 1 := [], 2 := l3)) s9"
    using view_append [OF s8(2), of l3 m] len(4) by auto
  obtain s10 where s10: "async_exec (Append m l4) s9 = Inr s10"
      "view pid W_top 1 1 [2] (Some 1) 3 [] (l1 @ l2) ((\<lambda>_. [])(0 := l1, 1 := [], 2 := l3, 1 := l4)) s10"
    using view_overflow [OF s9(2), of l4 m] len(5,6) by auto
  have "async_exec (Writer env) s10 = Inl Assert_failed"
    using view_top [OF s10(2), of env] len(7) by simp
  then show ?thesis
    using s1(1) s2(1) s3(1) s4(1) s5(1) s6(1) s7(1) s8(1) s9(1) s10(1) by simp
qed

theorem overflow_after_pass_aborts_witness:
  "\<exists>s. async_started \<lparr>takes = (\<lambda>k. 1), ferr = False, fopen_ok = True, now1 = 5, now2 = 5, getpid = 7\<rparr>
        (replicate kLargeBuffer CHR ''x'') (replicate kLargeBuffer CHR ''x'')
        (replicate kLargeBuffer CHR ''x'') (replicate kLargeBuffer CHR ''x'') ''srv'' 10 = Inr s
    \<and> (\<exists>ops. list_all (op_ok 7) ops \<and> foldR async_exec ops s = Inl Assert_failed)"
proof -
  let ?e = "\<lparr>takes = (\<lambda>k. 1), ferr = False, fopen_ok = True, now1 = 5, now2 = 5, getpid = 7\<rparr>"
  let ?m = "replicate kLargeBuffer CHR ''x''"
  have e: "env_good 7 ?e" "0 < now1 ?e" and m: "large ?m" by (simp_all add: env_good_def time_ok_def large_def)
  have b: "CHR ''/'' \<notin> set ''srv''" by simp
  have half: "half_full (replicate 2000000 CHR ''a'')" by (simp add: half_full_def kLargeBuffer_def)
  obtain s where s: "async_started ?e ?m ?m ?m ?m ''srv'' 10 = Inr s"
    using async_started_ok [OF m m m m b e] by blast
  let ?l = "Append [] (replicate 2000000 CHR ''a'')"
  have "list_all (op_ok 7) [Writer ?e, ?l, ?l, Writer ?e, Writer ?e, Writer ?e, Writer ?e, Writer ?e, ?l, ?l, Writer ?e]"
    using e(1) by (simp add: op_ok_def)
  with overflow_after_pass_aborts [OF m m m m b e s half half half half, of "[]"] s show ?thesis by blast
qed

text \<open>
  Lines that are appended while the writer is in its last pass are not written: \<open>stop\<close> ends
  the loop without another look at the buffers.
\<close>

lemma stop_leaves_lines:
  assumes "view pid W_top c n bs (Some a) d [] out f s"
  shows "\<exists>s'. foldR async_exec [Stop, Writer env] s = Inr s' \<and> phase s' = W_done
    \<and> written s' = out \<and> content s' c = f c"
proof -
  have "async_typed pid (AsyncLogging_stop s)" using assms stop_typed by (simp add: view_def)
  from thread_top_stopped [OF this] assms show ?thesis
    by (auto simp: view_def AsyncLogging_stop_def threadFunc_step_def written_def)
qed

end
