(* ===== verification/String_Piece.thy ===== *)
theory String_Piece
  imports Prelude "HOL-Library.List_Lexorder" "HOL-Library.Char_ord"
begin

section \<open>String pieces\<close>

text \<open>
  Model of \<open>include/StringPiece.h\<close>: a pointer to characters and a length, which need not end
  at a zero byte.  A pointer is the memory from it to the end of its object, or null; a read
  behind that end is undefined.  The lengths are C++ \<open>int\<close>s.
\<close>

subsection \<open>State and operations\<close>

record StringPiece =
  ptr :: "char list option"
  plength :: int

definition StringPiece_empty :: StringPiece where
  "StringPiece_empty = \<lparr>ptr = None, plength = 0\<rparr>"

text \<open>\<open>strlen\<close>: the memory up to the first zero byte; without one the scan leaves the object.\<close>

definition strlen :: "char list \<Rightarrow> nat res" where
  "strlen mem = definedR (CHR 0x00 \<in> set mem) (Inr (length (takeWhile (\<lambda>c. c \<noteq> CHR 0x00) mem)))"

definition to_int32 :: "int \<Rightarrow> int" where
  "to_int32 v = (v + 2147483648) mod 4294967296 - 2147483648"

definition StringPiece_cstr :: "char list \<Rightarrow> StringPiece res" where
  "StringPiece_cstr str = res_bind (strlen str) (\<lambda>n. Inr \<lparr>ptr = Some str, plength = to_int32 (int n)\<rparr>)"

definition StringPiece_string :: "string \<Rightarrow> StringPiece" where
  "StringPiece_string str = \<lparr>ptr = Some (str @ [CHR 0x00]), plength = to_int32 (int (length str))\<rparr>"

definition StringPiece_range :: "char list \<Rightarrow> int \<Rightarrow> StringPiece" where
  "StringPiece_range offset len = \<lparr>ptr = Some offset, plength = len\<rparr>"

definition piece_empty :: "StringPiece \<Rightarrow> bool" where
  "piece_empty p \<longleftrightarrow> plength p = 0"

definition piece_clear :: "StringPiece \<Rightarrow> StringPiece" where
  "piece_clear p = \<lparr>ptr = None, plength = 0\<rparr>"

definition piece_set :: "char list \<Rightarrow> int \<Rightarrow> StringPiece \<Rightarrow> StringPiece" where
  "piece_set buffer len p = \<lparr>ptr = Some buffer, plength = len\<rparr>"

definition piece_set_cstr :: "char list \<Rightarrow> StringPiece \<Rightarrow> StringPiece res" where
  "piece_set_cstr str p = res_bind (strlen str) (\<lambda>n. Inr \<lparr>ptr = Some str, plength = to_int32 (int n)\<rparr>)"

definition piece_at :: "StringPiece \<Rightarrow> int \<Rightarrow> char res" where
  "piece_at p i =
     (case ptr p of None \<Rightarrow> Inl Undefined
      | Some m \<Rightarrow> definedR (0 \<le> i \<and> i < int (length m)) (Inr (m ! nat i)))"

text \<open>The pointer may move up to one past the end of its object; the piece cannot move back.\<close>

definition remove_prefix :: "int \<Rightarrow> StringPiece \<Rightarrow> StringPiece res" where
  "remove_prefix n p =
     (case ptr p of None \<Rightarrow> definedR (n = 0) (Inr p)
      | Some m \<Rightarrow> definedR (0 \<le> n \<and> n \<le> int (length m))
                   (Inr (p\<lparr>ptr := Some (drop (nat n) m), plength := plength p - n\<rparr>)))"

definition remove_suffix :: "int \<Rightarrow> StringPiece \<Rightarrow> StringPiece" where
  "remove_suffix n p = p\<lparr>plength := plength p - n\<rparr>"

text \<open>
  \<open>memcmp\<close> compares bytes as unsigned characters; it may read \<open>n\<close> bytes of both operands,
  which must exist, and its operands must not be null.  Only the sign of its result is specified.
\<close>

fun compare_bytes :: "string \<Rightarrow> string \<Rightarrow> int" where
  "compare_bytes (c # cs) (d # ds) = (if c = d then compare_bytes cs ds else if c < d then - 1 else 1)"
| "compare_bytes cs ds = 0"

definition memcmp :: "char list option \<Rightarrow> char list option \<Rightarrow> int \<Rightarrow> int res" where
  "memcmp a b n =
     (case (a, b) of
        (Some m, Some m') \<Rightarrow> definedR (0 \<le> n \<and> n \<le> int (length m) \<and> n \<le> int (length m'))
                               (Inr (compare_bytes (take (nat n) m) (take (nat n) m')))
      | _ \<Rightarrow> Inl Undefined)"

definition piece_equal :: "StringPiece \<Rightarrow> StringPiece \<Rightarrow> bool res" where
  "piece_equal p x =
     (if plength p = plength x
      then res_bind (memcmp (ptr p) (ptr x) (plength p)) (\<lambda>r. Inr (r = 0)) else Inr False)"

definition piece_not_equal :: "StringPiece \<Rightarrow> StringPiece \<Rightarrow> bool res" where
  "piece_not_equal p x = res_bind (piece_equal p x) (\<lambda>b. Inr (\<not> b))"

definition compare :: "StringPiece \<Rightarrow> StringPiece \<Rightarrow> int res" where
  "compare p x =
     res_bind (memcmp (ptr p) (ptr x) (if plength p < plength x then plength p else plength x))
       (\<lambda>r. if r = 0
             then if plength p < plength x then Inr (- 1)
                  else if plength p > plength x then Inr 1 else Inr r
             else Inr r)"

text \<open>\<open>std::string(data(), size())\<close> and \<open>assign\<close>.\<close>

definition as_string :: "StringPiece \<Rightarrow> string res" where
  "as_string p =
     (case ptr p of None \<Rightarrow> definedR (plength p = 0) (Inr [])
      | Some m \<Rightarrow> if plength p < 0 then Inl Length_error
                   else definedR (plength p \<le> int (length m)) (Inr (take (nat (plength p)) m)))"

definition CopyToString :: "StringPiece \<Rightarrow> string \<Rightarrow> string res" where
  "CopyToString p target = as_string p"

definition starts_with :: "StringPiece \<Rightarrow> StringPiece \<Rightarrow> bool res" where
  "starts_with p x =
     (if plength p \<ge> plength x
      then res_bind (memcmp (ptr p) (ptr x) (plength x)) (\<lambda>r. Inr (r = 0)) else Inr False)"

subsection \<open>Pieces as strings\<close>

text \<open>A piece that names existing characters, and the string it stands for.\<close>

definition piece_ok :: "StringPiece \<Rightarrow> bool" where
  "piece_ok p \<longleftrightarrow> (case ptr p of None \<Rightarrow> False | Some m \<Rightarrow> 0 \<le> plength p \<and> plength p \<le> int (length m))"

definition text_of_piece :: "StringPiece \<Rightarrow> string" where
  "text_of_piece p = (case ptr p of None \<Rightarrow> [] | Some m \<Rightarrow> take (nat (plength p)) m)"

lemma piece_okE:
  assumes "piece_ok p"
  obtains m where "ptr p = Some m" "0 \<le> plength p" "nat (plength p) \<le> length m"
    "length (text_of_piece p) = nat (plength p)" "text_of_piece p = take (nat (plength p)) m"
  using assms by (auto simp: piece_ok_def text_of_piece_def nat_le_iff split: option.splits)

lemma piece_of_string_ok:
  "length s < 2147483648 \<Longrightarrow> piece_ok (StringPiece_string s) \<and> text_of_piece (StringPiece_string s) = s"
  by (simp add: piece_ok_def text_of_piece_def StringPiece_string_def to_int32_def)

lemma compare_bytes_eq: "length cs = length ds \<Longrightarrow> compare_bytes cs ds = 0 \<longleftrightarrow> cs = ds"
  by (induction cs ds rule: compare_bytes.induct) auto

text \<open>The sign of a comparison in the lexicographic order of byte strings.\<close>

definition sign_of :: "string \<Rightarrow> string \<Rightarrow> int" where
  "sign_of s t = (if s < t then - 1 else if s = t then 0 else 1)"

lemma sign_of_Cons: "sign_of (c # s) (d # t) = (if c = d then sign_of s t else if c < d then - 1 else 1)"
  by (auto simp: sign_of_def)

lemma compare_bytes_sign:
  "sign_of s t = (let r = compare_bytes (take (min (length s) (length t)) s) (take (min (length s) (length t)) t)
     in if r \<noteq> 0 then r else if length s < length t then - 1 else if length s > length t then 1 else 0)"
proof (induction s arbitrary: t)
  case Nil
  then show ?case by (cases t) (simp_all add: sign_of_def)
next
  case (Cons c s)
  show ?case
  proof (cases t)
    case Nil
    then show ?thesis by (simp add: sign_of_def)
  next
    case t: (Cons d t')
    then show ?thesis using Cons.IH [of t'] by (simp add: sign_of_Cons Let_def)
  qed
qed

lemma compare_sign:
  assumes "piece_ok p" and "piece_ok x"
  shows "compare p x = Inr (sign_of (text_of_piece p) (text_of_piece x))"
proof -
  obtain m where m: "ptr p = Some m" "0 \<le> plength p" "nat (plength p) \<le> length m"
      "length (text_of_piece p) = nat (plength p)" "text_of_piece p = take (nat (plength p)) m"
    using assms(1) by (rule piece_okE)
  obtain m' where m': "ptr x = Some m'" "0 \<le> plength x" "nat (plength x) \<le> length m'"
      "length (text_of_piece x) = nat (plength x)" "text_of_piece x = take (nat (plength x)) m'"
    using assms(2) by (rule piece_okE)
  let ?n = "if plength p < plength x then plength p else plength x"
  have n: "nat ?n = min (length (text_of_piece p)) (length (text_of_piece x))" "0 \<le> ?n"
    using m(2,4) m'(2,4) by auto
  have "take (nat ?n) m = take (nat ?n) (text_of_piece p)" "take (nat ?n) m' = take (nat ?n) (text_of_piece x)"
    using m m' by auto
  moreover have "?n \<le> int (length m)" "?n \<le> int (length m')" using m(2,3) m'(2,3) by auto
  ultimately have "memcmp (ptr p) (ptr x) ?n
      = Inr (compare_bytes (take (nat ?n) (text_of_piece p)) (take (nat ?n) (text_of_piece x)))"
    using m(1) m'(1) n(2) by (simp add: memcmp_def)
  moreover have "plength p < plength x \<longleftrightarrow> length (text_of_piece p) < length (text_of_piece x)"
    "plength p > plength x \<longleftrightarrow> length (text_of_piece p) > length (text_of_piece x)"
    using m(2,4) m'(2,4) by auto
  ultimately show ?thesis
    unfolding compare_def compare_bytes_sign [of "text_of_piece p"] n(1) Let_def by simp
qed

lemma memcmp_full:
  assumes "piece_ok p" and "piece_ok x" and "plength x \<le> plength p"
  shows "memcmp (ptr p) (ptr x) (plength x)
    = Inr (compare_bytes (take (length (text_of_piece x)) (text_of_piece p)) (text_of_piece x))"
proof -
  obtain m where m: "ptr p = Some m" "0 \<le> plength p" "nat (plength p) \<le> length m"
      "text_of_piece p = take (nat (plength p)) m"
    using assms(1) by (rule piece_okE)
  obtain m' where m': "ptr x = Some m'" "0 \<le> plength x" "nat (plength x) \<le> length m'"
      "text_of_piece x = take (nat (plength x)) m'"
    using assms(2) by (rule piece_okE)
  have "nat (plength x) \<le> nat (plength p)" "plength x \<le> int (length m)" "plength x \<le> int (length m')"
    using assms(3) m(3) m'(3) by auto
  with m m' assms(3) show ?thesis by (simp add: memcmp_def min_absorb1 min_absorb2)
qed

text \<open>
  On pieces that name existing characters no operation reads outside
  them, and the comparisons agree with those of the strings the pieces stand for:
  \<open>==\<close> is equality, \<open>compare\<close> the three-way comparison in the lexicographic order of
  unsigned bytes, and \<open>starts_with\<close> the prefix relation.
\<close>
theorem pieces_compare_as_strings:
  assumes "piece_ok p" and "piece_ok x"
  shows "as_string p = Inr (text_of_piece p)
    \<and> piece_equal p x = Inr (text_of_piece p = text_of_piece x)
    \<and> compare p x = Inr (if text_of_piece p < text_of_piece x then - 1
                         else if text_of_piece p = text_of_piece x then 0 else 1)
    \<and> starts_with p x = Inr (prefix (text_of_piece x) (text_of_piece p))"
proof (intro conjI)
  have len: "length (text_of_piece p) = nat (plength p)" "length (text_of_piece x) = nat (plength x)"
      "0 \<le> plength p" "0 \<le> plength x"
    using assms by (auto elim: piece_okE)
  show "as_string p = Inr (text_of_piece p)"
    using assms(1) by (elim piece_okE) (auto simp: as_string_def)
  show "compare p x = Inr (if text_of_piece p < text_of_piece x then - 1
      else if text_of_piece p = text_of_piece x then 0 else 1)"
    using compare_sign [OF assms] by (simp add: sign_of_def)
  show "piece_equal p x = Inr (text_of_piece p = text_of_piece x)"
    using memcmp_full [OF assms] len compare_bytes_eq [of "text_of_piece p" "text_of_piece x"]
    by (auto simp: piece_equal_def)
  have "take (length (text_of_piece x)) (text_of_piece p) = text_of_piece x
      \<longleftrightarrow> prefix (text_of_piece x) (text_of_piece p)"
    by (metis append_eq_conv_conj prefix_def)
  with memcmp_full [OF assms] len
    compare_bytes_eq [of "take (length (text_of_piece x)) (text_of_piece p)" "text_of_piece x"]
  show "starts_with p x = Inr (prefix (text_of_piece x) (text_of_piece p))"
    by (auto simp: starts_with_def dest: prefix_length_le)
qed

theorem pieces_compare_as_strings_witness:
  "compare (StringPiece_string ''Length'') (StringPiece_string ''Lengths'') = Inr (- 1)
    \<and> starts_with (StringPiece_string ''Lengths'') (StringPiece_string ''Length'') = Inr True"
  using pieces_compare_as_strings [of "StringPiece_string ''Length''" "StringPiece_string ''Lengths''"]
    pieces_compare_as_strings [of "StringPiece_string ''Lengths''" "StringPiece_string ''Length''"]
    piece_of_string_ok [of "''Length''"] piece_of_string_ok [of "''Lengths''"]
  by (simp add: less_list_code)

end
