(* ===== verification/File_Util.thy ===== *)
theory File_Util
  imports String_Piece Log_Stream
begin

section \<open>Reading small files\<close>

text \<open>
  Model of \<open>include/FileUtil.h\<close> and \<open>src/FileUtil.cpp\<close>: reading a file into a string with a
  bound on its size, or its start into a fixed buffer.  The operating system's answers are
  the parameters: \<open>open\<close> a descriptor or an error, each \<open>read\<close> some bytes or an error,
  \<open>fstat\<close> the facts about the file.
\<close>

subsection \<open>SmallFile\<close>

definition kBufferSize :: nat where "kBufferSize = 65536"

record SmallFile =
  fd :: int
  err :: int
  buf :: "char list"

text \<open>\<open>opened\<close>: the result of \<open>open(2)\<close> and the value of \<open>errno\<close> after it.\<close>

definition SmallFile_new :: "int \<Rightarrow> int \<Rightarrow> char list \<Rightarrow> SmallFile" where
  "SmallFile_new opened errno_after memory =
     \<lparr>fd = opened, err = (if opened < 0 then errno_after else 0), buf = overwrite 0 [CHR 0x00] memory\<rparr>"

definition SmallFile_delete :: "SmallFile \<Rightarrow> int list" where
  "SmallFile_delete f = (if fd f \<ge> 0 then [fd f] else [])"

datatype file_type = Regular | Directory | OtherType

record file_stat =
  st_type :: file_type
  st_size :: int
  st_mtime :: int
  st_ctime :: int

text \<open>What \<open>readToString\<close> leaves behind: the error, the content and the values of the pointers
  that are not null.\<close>

record read_result =
  r_err :: int
  r_content :: string
  r_fileSize :: "int option"
  r_modifyTime :: "int option"
  r_createTime :: "int option"

definition EISDIR :: int where "EISDIR = 21"

text \<open>The answer of a \<open>read\<close> at an offset of the file: an error number, or the bytes that are there.\<close>

type_synonym reader = "nat \<Rightarrow> int + string"

text \<open>\<open>fileSize\<close>, \<open>modifyTime\<close> and \<open>createTime\<close> say which of the pointers are not null.\<close>

definition stat_part ::
  "int \<Rightarrow> bool \<Rightarrow> bool \<Rightarrow> bool \<Rightarrow> (int + file_stat) \<Rightarrow> read_result \<Rightarrow> read_result res" where
  "stat_part maxSize fileSize modifyTime createTime statted r =
     (if fileSize
      then (case statted of
              Inr st \<Rightarrow>
                res_bind
                  (case st_type st of
                     Regular \<Rightarrow>
                       (let wanted = min maxSize (st_size st)
                        in if wanted < 0 then Inl Length_error else Inr (r\<lparr>r_fileSize := Some (st_size st)\<rparr>))
                   | Directory \<Rightarrow> Inr (r\<lparr>r_err := EISDIR\<rparr>)
                   | OtherType \<Rightarrow> Inr r)
                  (\<lambda>r1. Inr (let r2 = (if modifyTime then r1\<lparr>r_modifyTime := Some (st_mtime st)\<rparr> else r1)
                              in if createTime then r2\<lparr>r_createTime := Some (st_ctime st)\<rparr> else r2))
            | Inl e \<Rightarrow> Inr (r\<lparr>r_err := e\<rparr>))
      else Inr r)"

text \<open>
  The \<open>while\<close> loop.  The comparison converts \<open>maxSize\<close> to \<open>size_t\<close>, so a negative bound is a
  very large one.
\<close>

definition to_size_t :: "int \<Rightarrow> size_t" where
  "to_size_t v = nat (v mod 18446744073709551616)"

function read_loop :: "reader \<Rightarrow> size_t \<Rightarrow> int \<Rightarrow> string \<Rightarrow> int \<times> string" where
  "read_loop answers maxSize e content =
     (if length content < maxSize
      then (let toRead = min (maxSize - length content) kBufferSize
            in case answers (length content) of
                 Inl errno_after \<Rightarrow> (errno_after, content)
               | Inr there \<Rightarrow>
                   (let bytes = take toRead there
                    in if bytes = [] then (e, content)
                       else read_loop answers maxSize e (content @ bytes)))
      else (e, content))"
  by pat_completeness auto
termination
  by (relation "measure (\<lambda>(answers, maxSize, e, content). maxSize - length content)")
    (auto simp: kBufferSize_def min_def simp flip: length_greater_0_conv)

declare read_loop.simps [simp del]

definition readToString ::
  "reader \<Rightarrow> (int + file_stat) \<Rightarrow> int \<Rightarrow> bool \<Rightarrow> bool \<Rightarrow> bool \<Rightarrow> string \<Rightarrow> SmallFile \<Rightarrow> read_result res" where
  "readToString answers statted maxSize fileSize modifyTime createTime content f =
     (let r0 = \<lparr>r_err = err f, r_content = content, r_fileSize = None, r_modifyTime = None, r_createTime = None\<rparr>
      in if fd f \<ge> 0
         then res_bind (stat_part maxSize fileSize modifyTime createTime statted (r0\<lparr>r_content := []\<rparr>))
                (\<lambda>r. let (e, c) = read_loop answers (to_size_t maxSize) (r_err r) (r_content r)
                     in Inr (r\<lparr>r_err := e, r_content := c\<rparr>))
         else Inr r0)"

definition readFile ::
  "int \<Rightarrow> int \<Rightarrow> char list \<Rightarrow> reader \<Rightarrow> (int + file_stat) \<Rightarrow> int \<Rightarrow> bool \<Rightarrow> bool \<Rightarrow> bool \<Rightarrow> string \<Rightarrow> read_result res" where
  "readFile opened errno_after memory answers statted maxSize fileSize modifyTime createTime content =
     readToString answers statted maxSize fileSize modifyTime createTime content
       (SmallFile_new opened errno_after memory)"

text \<open>\<open>preadd\<close>: what \<open>pread(2)\<close> finds at the start of the file, or its error.\<close>

definition readToBuffer :: "int + string \<Rightarrow> bool \<Rightarrow> SmallFile \<Rightarrow> (int \<times> int option \<times> SmallFile) res" where
  "readToBuffer preadd size_wanted f =
     (if fd f \<ge> 0
      then (case preadd of
              Inr there \<Rightarrow>
                (let bytes = take (kBufferSize - 1) there
                 in res_bind (copy_to 0 (bytes @ [CHR 0x00]) (buf f))
                      (\<lambda>b. Inr (err f, if size_wanted then Some (int (length bytes)) else None, f\<lparr>buf := b\<rparr>)))
            | Inl errno_after \<Rightarrow> Inr (errno_after, None, f))
      else Inr (err f, None, f))"

subsection \<open>What the loop reads\<close>

text \<open>A file that can be read: every \<open>read\<close> finds at least one byte unless it is at the end.\<close>

definition holds :: "reader \<Rightarrow> string \<Rightarrow> bool" where
  "holds answers file \<longleftrightarrow> (\<forall>pos. \<exists>n > 0. answers pos = Inr (take n (drop pos file)))"

lemma read_loop_take:
  assumes "holds answers file" and "k \<le> maxSize" and "k \<le> length file"
  shows "read_loop answers maxSize e (take k file) = (e, take maxSize file)"
  using assms(2,3)
proof (induction "maxSize - k" arbitrary: k rule: less_induct)
  case less
  have len: "length (take k file) = k" using less.prems(2) by simp
  obtain n where n: "0 < n" "answers k = Inr (take n (drop k file))"
    using assms(1) by (auto simp: holds_def)
  show ?case
  proof (cases "k < length file \<and> k < maxSize")
    case True
    define m where "m = min (min (min (maxSize - k) kBufferSize) n) (length file - k)"
    have m: "0 < m" "k + m \<le> maxSize" "k + m \<le> length file"
      using True n(1) by (auto simp: m_def kBufferSize_def)
    have bytes: "take (min (maxSize - k) kBufferSize) (take n (drop k file)) = take m (drop k file)"
      by (simp add: m_def min_def)
    have "take m (drop k file) \<noteq> []" using True m(1) by simp
    moreover have "take k file @ take m (drop k file) = take (k + m) file" by (simp add: take_add)
    ultimately have "read_loop answers maxSize e (take k file) = read_loop answers maxSize e (take (k + m) file)"
      using True by (subst read_loop.simps) (simp only: len n(2) bytes Let_def sum.case if_True if_False)
    also have "\<dots> = (e, take maxSize file)" using less.hyps [OF _ m(2,3)] m by simp
    finally show ?thesis .
  next
    case False
    then have eq: "take k file = take maxSize file" and stop: "k < maxSize \<Longrightarrow> take n (drop k file) = []"
      using less.prems by auto
    have "read_loop answers maxSize e (take k file) = (e, take k file)"
    proof (cases "k < maxSize")
      case True
      then show ?thesis
        by (subst read_loop.simps) (simp only: len n(2) stop Let_def sum.case take_Nil if_True simp_thms)
    next
      case False
      then show ?thesis by (subst read_loop.simps) (simp only: len if_False)
    qed
    then show ?thesis by (simp only: eq)
  qed
qed

text \<open>
  Reading a readable regular file with a non-negative bound ends, however
  the system cuts its answers, and leaves in the string exactly the first bytes of the
  file, as many as the bound allows; whatever the string held before is gone.  The result
  does not depend on the size \<open>fstat\<close> reports, which is zero for the files in \<open>/proc\<close>.
\<close>
theorem readFile_takes_prefix:
  assumes "0 \<le> opened" and "holds answers file" and "0 \<le> maxSize" and "maxSize < 2147483648"
    and "st_type st = Regular" and "0 \<le> st_size st"
  shows "readFile opened e memory answers (Inr st) maxSize fileSize modifyTime createTime old
    = Inr \<lparr>r_err = 0, r_content = take (nat maxSize) file,
           r_fileSize = (if fileSize then Some (st_size st) else None),
           r_modifyTime = (if fileSize \<and> modifyTime then Some (st_mtime st) else None),
           r_createTime = (if fileSize \<and> createTime then Some (st_ctime st) else None)\<rparr>"
proof -
  have "to_size_t maxSize = nat maxSize" using assms(3,4) by (simp add: to_size_t_def)
  moreover have "read_loop answers (nat maxSize) 0 [] = (0, take (nat maxSize) file)"
    using read_loop_take [OF assms(2), of 0 "nat maxSize" 0] by simp
  moreover have "\<not> min maxSize (st_size st) < 0" using assms(3,6) by simp
  ultimately show ?thesis
    using assms(1,3,5) by (simp add: readFile_def readToString_def SmallFile_new_def stat_part_def Let_def)
qed

theorem readFile_takes_prefix_witness:
  "readFile 3 0 [CHR ''x''] (\<lambda>pos. Inr (take 2 (drop pos ''Threads:''))) (Inr \<lparr>st_type = Regular, st_size = 0,
      st_mtime = 1, st_ctime = 1\<rparr>) 5 False False False ''old''
    = Inr \<lparr>r_err = 0, r_content = ''Threa'', r_fileSize = None, r_modifyTime = None, r_createTime = None\<rparr>"
proof -
  have "holds (\<lambda>pos. Inr (take 2 (drop pos ''Threads:''))) ''Threads:''"
    unfolding holds_def by (intro allI exI [of _ 2]) simp
  from readFile_takes_prefix [OF _ this, of 3 5 "\<lparr>st_type = Regular, st_size = 0, st_mtime = 1, st_ctime = 1\<rparr>"
      0 "[CHR ''x'']" False False False "''old''"]
  show ?thesis by simp
qed

text \<open>
  A negative bound makes the reservation throw when the size is asked for, and reads the
  whole file otherwise.
\<close>

lemma negative_bound_throws:
  assumes "0 \<le> opened" and "maxSize < 0" and "st_type st = Regular"
  shows "readFile opened e memory answers (Inr st) maxSize True m c old = Inl Length_error"
proof -
  have "min maxSize (st_size st) < 0" using assms(2) by simp
  with assms show ?thesis by (simp add: readFile_def readToString_def SmallFile_new_def stat_part_def Let_def)
qed

end
