(* ===== verification/Process_Info.thy ===== *)
theory Process_Info
  imports File_Util Civil_Time
begin

section \<open>Process information\<close>

text \<open>
  Model of \<open>include/ProcessInfo.h\<close> and \<open>src/ProcessInfo.cpp\<close>: what the server finds out about
  its own process.  What the system calls answer (the ids, the entries of a directory, the
  limits, the text of \<open>/proc/self/status\<close>) is a parameter of each function.
\<close>

subsection \<open>Library functions\<close>

definition isdigit :: "char \<Rightarrow> bool" where
  "isdigit c \<longleftrightarrow> 48 \<le> (of_char c :: nat) \<and> (of_char c :: nat) \<le> 57"

definition isspace :: "char \<Rightarrow> bool" where
  "isspace c \<longleftrightarrow> (of_char c :: nat) = 32 \<or> 9 \<le> (of_char c :: nat) \<and> (of_char c :: nat) \<le> 13"

text \<open>\<open>atoi\<close>: white space, a sign, digits; undefined when the value is not an \<open>int\<close>.\<close>

definition atoi :: "string \<Rightarrow> int res" where
  "atoi cs =
     (let cs1 = dropWhile isspace cs;
          (neg, cs2) = (case cs1 of c # ds \<Rightarrow> if c = CHR ''-'' then (True, ds)
                                               else if c = CHR ''+'' then (False, ds) else (False, cs1)
                        | [] \<Rightarrow> (False, []));
          v = int (read_nat (takeWhile isdigit cs2));
          w = (if neg then - v else v)
      in definedR (- 2147483648 \<le> w \<and> w < 2147483648) (Inr w))"

text \<open>\<open>std::string::find\<close>: the first position at which the text continues with the pattern.\<close>

fun string_find :: "string \<Rightarrow> string \<Rightarrow> nat option" where
  "string_find pat [] = (if pat = [] then Some 0 else None)"
| "string_find pat (c # cs) =
     (if prefix pat (c # cs) then Some 0
      else (case string_find pat cs of Some i \<Rightarrow> Some (Suc i) | None \<Rightarrow> None))"

subsection \<open>Operations\<close>

definition pidString :: "int \<Rightarrow> string" where
  "pidString pid = fst (snprintf 32 (show_int pid))"

definition username :: "string option \<Rightarrow> string" where
  "username pw_name = (case pw_name of Some name \<Rightarrow> name | None \<Rightarrow> ''unknownuser'')"

text \<open>Names of directory entries are not empty; \<open>d_name[0]\<close> of an empty name is its zero byte.\<close>

definition first_is_digit :: "string \<Rightarrow> bool" where
  "first_is_digit d_name = (case d_name of c # cs \<Rightarrow> isdigit c | [] \<Rightarrow> False)"

definition fdDirFilter :: "string \<Rightarrow> int \<Rightarrow> int res" where
  "fdDirFilter d_name opened = (if first_is_digit d_name then int_inc opened else Inr opened)"

definition taskDirFilter :: "string \<Rightarrow> int list \<Rightarrow> int list res" where
  "taskDirFilter d_name pids =
     (if first_is_digit d_name then res_bind (atoi d_name) (\<lambda>v. Inr (pids @ [v])) else Inr pids)"

text \<open>
  \<open>scandir\<close> calls the filter once for every entry; as the filters select none, the list of
  names stays null.  \<open>None\<close> is a directory that cannot be read.
\<close>

definition scanDir :: "(string \<Rightarrow> 's \<Rightarrow> 's res) \<Rightarrow> string list option \<Rightarrow> 's \<Rightarrow> 's res" where
  "scanDir dirfilter entries s = (case entries of None \<Rightarrow> Inr s | Some names \<Rightarrow> foldR dirfilter names s)"

definition openedFiles :: "string list option \<Rightarrow> int res" where
  "openedFiles entries = scanDir fdDirFilter entries 0"

definition maxOpenFiles :: "int option \<Rightarrow> string list option \<Rightarrow> int res" where
  "maxOpenFiles rlim_cur entries =
     (case rlim_cur of None \<Rightarrow> openedFiles entries | Some limit \<Rightarrow> Inr (to_int32 limit))"

definition threads :: "string list option \<Rightarrow> int list res" where
  "threads entries = res_bind (scanDir taskDirFilter entries []) (\<lambda>result. Inr (sort result))"

text \<open>\<open>procStatus\<close> reads at most 65536 bytes; its error is ignored.\<close>

definition procStatus :: "int \<Rightarrow> int \<Rightarrow> char list \<Rightarrow> reader \<Rightarrow> string res" where
  "procStatus opened errno_after memory answers =
     res_bind (readFile opened errno_after memory answers (Inl 0) 65536 False False False [])
       (\<lambda>r. Inr (r_content r))"

definition numThreads_of :: "string \<Rightarrow> int res" where
  "numThreads_of status =
     (case string_find ''Threads:'' status of Some pos \<Rightarrow> atoi (drop (pos + 8) status) | None \<Rightarrow> Inr 0)"

definition numThreads :: "int \<Rightarrow> int \<Rightarrow> char list \<Rightarrow> reader \<Rightarrow> int res" where
  "numThreads opened errno_after memory answers =
     res_bind (procStatus opened errno_after memory answers) numThreads_of"

subsection \<open>Lemmas and properties\<close>

lemma digit_char_isdigit [simp]: "d < 10 \<Longrightarrow> isdigit (digit_char d)"
  by (auto elim!: digit_cases simp: digit_char_def isdigit_def)

lemma show_nat_digits_all: "list_all isdigit (show_nat n)"
proof (induction n rule: show_nat.induct)
  case (1 n)
  then show ?case by (cases "n < 10") (simp_all add: show_nat.simps [of n])
qed

lemma takeWhile_digits:
  assumes "rest = [] \<or> \<not> isdigit (hd rest)"
  shows "takeWhile isdigit (show_nat n @ rest) = show_nat n"
  using assms show_nat_digits_all [of n]
  by (cases rest) (auto simp: list_all_iff takeWhile_append)

lemma isdigit_not: "isdigit c \<Longrightarrow> \<not> isspace c \<and> c \<noteq> CHR ''-'' \<and> c \<noteq> CHR ''+''"
  by (auto simp: isdigit_def isspace_def)

lemma atoi_show_nat:
  assumes "list_all isspace ws" and "rest = [] \<or> \<not> isdigit (hd rest)" and "n < 2147483648"
  shows "atoi (ws @ show_nat n @ rest) = Inr (int n)"
proof -
  obtain c cs where c: "show_nat n = c # cs" using show_nat_head [of n] by blast
  then have "isdigit c" using show_nat_digits_all [of n] by simp
  then have nc: "\<not> isspace c" "c \<noteq> CHR ''-''" "c \<noteq> CHR ''+''" using isdigit_not by blast+
  have "dropWhile isspace (ws @ show_nat n @ rest) = show_nat n @ rest"
    using assms(1) c nc(1) by (simp add: list_all_iff dropWhile_append)
  with c nc assms(2,3) takeWhile_digits [OF assms(2), of n] show ?thesis
    by (simp add: atoi_def read_show_nat [of n, unfolded c])
qed

lemma string_find_first:
  assumes "prefix pat (drop k cs)" and "\<And>i. i < k \<Longrightarrow> \<not> prefix pat (drop i cs)" and "k \<le> length cs"
  shows "string_find pat cs = Some k"
  using assms
proof (induction cs arbitrary: k)
  case Nil
  then show ?case by simp
next
  case (Cons c cs)
  show ?case
  proof (cases k)
    case 0
    with Cons.prems(1) show ?thesis by simp
  next
    case (Suc j)
    then have "string_find pat cs = Some j"
      using Cons.prems(1) Cons.prems(2) [of "Suc _"] Cons.prems(3) by (intro Cons.IH) auto
    moreover have "\<not> prefix pat (c # cs)" using Cons.prems(2) [of 0] Suc by simp
    ultimately show ?thesis using Suc by simp
  qed
qed

text \<open>
  The number of threads is read back from the status text as the kernel
  prints it: from the first line that starts the count, behind any white space, up to the
  end of the digits, provided the line lies within the first 65536 bytes.
\<close>
theorem numThreads_reads_count:
  assumes "0 \<le> opened" and "holds answers status" and "length status \<le> 65536"
    and "status = pre @ ''Threads:'' @ ws @ show_nat n @ [CHR 0x0A] @ rest"
    and "\<And>i. i < length pre \<Longrightarrow> \<not> prefix ''Threads:'' (drop i status)"
    and "list_all isspace ws" and "n < 2147483648"
  shows "numThreads opened e memory answers = Inr (int n)"
proof -
  have "read_loop answers 65536 0 [] = (0, status)"
    using read_loop_take [OF assms(2), of 0 65536 0] assms(3) by simp
  then have "procStatus opened e memory answers = Inr status"
    using assms(1) by (simp add: procStatus_def readFile_def readToString_def SmallFile_new_def
        stat_part_def to_size_t_def Let_def)
  moreover have "string_find ''Threads:'' status = Some (length pre)"
    using assms(4,5) by (intro string_find_first) auto
  moreover have "drop (length pre + 8) status = ws @ show_nat n @ [CHR 0x0A] @ rest"
    by (simp add: assms(4))
  moreover have "\<not> isdigit (CHR 0x0A)" by (simp add: isdigit_def)
  ultimately show ?thesis
    using atoi_show_nat [OF assms(6) _ assms(7), of "[CHR 0x0A] @ rest"]
    by (simp add: numThreads_def numThreads_of_def)
qed

theorem numThreads_reads_count_witness:
  "numThreads 3 0 [CHR ''x''] (\<lambda>pos. Inr (take 4 (drop pos
     (''Tgid:1'' @ [CHR 0x0A] @ ''Threads:'' @ [CHR 0x09] @ ''12'' @ [CHR 0x0A])))) = Inr 12"
proof -
  let ?s = "''Tgid:1'' @ [CHR 0x0A] @ ''Threads:'' @ [CHR 0x09] @ ''12'' @ [CHR 0x0A]"
  have "holds (\<lambda>pos. Inr (take 4 (drop pos ?s))) ?s"
    unfolding holds_def by (intro allI exI [of _ 4]) simp
  moreover have n12: "show_nat 12 = ''12''" by (simp add: show_nat.simps digit_char_def)
  have "\<not> prefix ''Threads:'' (drop i ?s)" if "i < length (''Tgid:1'' @ [CHR 0x0A])" for i
  proof -
    from that have "i = 0 \<or> i = 1 \<or> i = 2 \<or> i = 3 \<or> i = 4 \<or> i = 5 \<or> i = 6" by auto
    then show ?thesis by (elim disjE) simp_all
  qed
  ultimately show ?thesis
    using numThreads_reads_count [of 3 "\<lambda>pos. Inr (take 4 (drop pos ?s))" ?s "''Tgid:1'' @ [CHR 0x0A]"
        "[CHR 0x09]" 12 "[]" 0 "[CHR ''x'']"]
    by (simp add: n12 isspace_def)
qed

text \<open>The entries counted and listed are those whose names are numbers.\<close>

lemma openedFiles_counts:
  assumes "length names < 2147483648"
  shows "openedFiles (Some names) = Inr (int (length (filter first_is_digit names)))"
proof -
  have "foldR fdDirFilter names k = Inr (k + int (length (filter first_is_digit names)))"
    if "k + int (length names) < 2147483648" for k
    using that
  proof (induction names arbitrary: k)
    case (Cons d names)
    then show ?case by (auto simp: fdDirFilter_def int_inc_def)
  qed simp
  from this [of 0] assms show ?thesis by (simp add: openedFiles_def scanDir_def)
qed

lemma threads_sorted: "threads entries = Inr pids \<Longrightarrow> sorted pids"
  by (auto simp: threads_def)

end
