(* ===== verification/Sync.thy ===== *)
theory Sync
  imports Logging "HOL-Library.Word"
begin

section \<open>Mutexes, condition variables, latches, atomic counters and threads\<close>

text \<open>
  Model of \<open>include/Mutex.h\<close>, \<open>include/Condition.h\<close>, \<open>src/Condition.cpp\<close>,
  \<open>include/CountDownLatch.h\<close>, \<open>include/Atomic.h\<close>, \<open>include/Thread.h\<close> and \<open>src/Thread.cpp\<close>.
  The pthread objects are their documented behaviour: a mutex has at most one owner, waiting
  on a condition variable gives the mutex up and takes it back, a broadcast wakes all
  waiters, and a wait may end without a notification.
\<close>

subsection \<open>Mutex and condition variable\<close>

record MutexLock =
  owner :: "int option"
  holder :: int

definition MutexLock_new :: MutexLock where
  "MutexLock_new = \<lparr>owner = None, holder = 0\<rparr>"

definition MutexLock_delete :: "MutexLock \<Rightarrow> unit res" where
  "MutexLock_delete m = assertR (holder m = 0) (assertR (owner m = None) (Inr ()))"

definition isLockedByThisThread :: "int \<Rightarrow> MutexLock \<Rightarrow> bool" where
  "isLockedByThisThread me m \<longleftrightarrow> holder m = me"

definition assertLocked :: "int \<Rightarrow> MutexLock \<Rightarrow> unit res" where
  "assertLocked me m = assertR (isLockedByThisThread me m) (Inr ())"

text \<open>\<open>None\<close>: the caller blocks until another thread gives the mutex up.\<close>

definition mutex_lock :: "int \<Rightarrow> MutexLock \<Rightarrow> MutexLock option" where
  "mutex_lock me m = (if owner m = None then Some (m\<lparr>owner := Some me, holder := me\<rparr>) else None)"

definition mutex_unlock :: "MutexLock \<Rightarrow> MutexLock" where
  "mutex_unlock m = m\<lparr>holder := 0, owner := None\<rparr>"

text \<open>\<open>pthread_cond_wait\<close> knows the pthread mutex only and leaves \<open>holder_\<close> alone.\<close>

definition cond_wait_begin :: "MutexLock \<Rightarrow> MutexLock" where
  "cond_wait_begin m = m\<lparr>owner := None\<rparr>"

definition cond_wait_end :: "int \<Rightarrow> MutexLock \<Rightarrow> MutexLock option" where
  "cond_wait_end me m = (if owner m = None then Some (m\<lparr>owner := Some me\<rparr>) else None)"

text \<open>\<open>waitForSeconds\<close>: the absolute deadline, and whether the wait timed out.\<close>

definition wait_deadline :: "int \<Rightarrow> int \<Rightarrow> int res" where
  "wait_deadline now_sec seconds =
     definedR (now_sec + seconds \<le> 9223372036854775807) (Inr (now_sec + seconds))"

definition ETIMEDOUT :: int where "ETIMEDOUT = 110"

definition waitForSeconds :: "int \<Rightarrow> bool" where
  "waitForSeconds timedwait_result \<longleftrightarrow> ETIMEDOUT = timedwait_result"

text \<open>As long as no thread waits on a condition, \<open>holder_\<close> names the owner of the mutex.\<close>

definition mutex_ok :: "MutexLock \<Rightarrow> bool" where
  "mutex_ok m \<longleftrightarrow> (case owner m of None \<Rightarrow> holder m = 0 | Some t \<Rightarrow> holder m = t)"

lemma mutex_ok_new: "mutex_ok MutexLock_new"
  by (simp add: mutex_ok_def MutexLock_new_def)

lemma mutex_ok_lock: "mutex_lock t m = Some m' \<Longrightarrow> mutex_ok m' \<and> isLockedByThisThread t m'"
  by (auto simp: mutex_ok_def mutex_lock_def isLockedByThisThread_def split: if_splits)

lemma mutex_ok_unlock: "mutex_ok (mutex_unlock m)"
  by (simp add: mutex_ok_def mutex_unlock_def)

text \<open>
  After a wait the thread owns the mutex, but the notifying thread has set \<open>holder_\<close> to
  zero when it unlocked, and \<open>assertLocked\<close> fails.
\<close>

lemma holder_lost_in_wait:
  assumes "mutex_lock t MutexLock_new = Some m1" and "mutex_lock u (cond_wait_begin m1) = Some m2"
    and "cond_wait_end t (mutex_unlock m2) = Some m3" and "0 < t"
  shows "owner m3 = Some t \<and> assertLocked t m3 = Inl Assert_failed"
  using assms by (auto simp: mutex_lock_def MutexLock_new_def cond_wait_begin_def cond_wait_end_def
      mutex_unlock_def assertLocked_def isLockedByThisThread_def)

subsection \<open>CountDownLatch\<close>

text \<open>
  The threads in \<open>wait\<close>: about to test the count under the mutex, asleep in
  \<open>condition_.wait()\<close> (with a flag that a notification is under way), or returned.
\<close>

datatype latch_pc = L_check | L_sleep bool | L_returned

record latch =
  latch_count :: int
  waiters :: "nat \<Rightarrow> latch_pc"

definition CountDownLatch_new :: "int \<Rightarrow> latch" where
  "CountDownLatch_new n = \<lparr>latch_count = n, waiters = (\<lambda>_. L_check)\<rparr>"

definition getCount :: "latch \<Rightarrow> int" where
  "getCount l = latch_count l"

fun notify_pc :: "latch_pc \<Rightarrow> latch_pc" where
  "notify_pc (L_sleep b) = L_sleep True"
| "notify_pc pc = pc"

definition countDown :: "latch \<Rightarrow> latch" where
  "countDown l =
     (let l1 = l\<lparr>latch_count := latch_count l - 1\<rparr>
      in if latch_count l1 = 0 then l1\<lparr>waiters := notify_pc \<circ> waiters l1\<rparr> else l1)"

text \<open>One pass of the \<open>while\<close> loop of \<open>wait\<close>.\<close>

definition latch_wait :: "nat \<Rightarrow> latch \<Rightarrow> latch" where
  "latch_wait t l =
     (if latch_count l > 0 then l\<lparr>waiters := (waiters l)(t := L_sleep False)\<rparr>
      else l\<lparr>waiters := (waiters l)(t := L_returned)\<rparr>)"

inductive latch_step :: "latch \<Rightarrow> latch \<Rightarrow> bool" where
  test: "waiters l t = L_check \<Longrightarrow> latch_step l (latch_wait t l)"
| wake: "waiters l t = L_sleep b \<Longrightarrow> latch_step l (l\<lparr>waiters := (waiters l)(t := L_check)\<rparr>)"
| count: "latch_step l (countDown l)"

inductive_cases latch_stepE: "latch_step l l'"

definition latch_inv :: "latch \<Rightarrow> bool" where
  "latch_inv l \<longleftrightarrow> (\<forall>t. (waiters l t = L_returned \<longrightarrow> latch_count l \<le> 0)
     \<and> (waiters l t = L_sleep False \<longrightarrow> 0 < latch_count l))"

lemma latch_inv_step: "latch_step l l' \<Longrightarrow> latch_inv l \<Longrightarrow> latch_inv l'"
proof (elim latch_stepE)
  assume inv: "latch_inv l" and "l' = countDown l"
  moreover have "notify_pc pc \<noteq> L_sleep False" "notify_pc pc = L_returned \<longleftrightarrow> pc = L_returned" for pc
    by (cases pc; simp)+
  ultimately show "latch_inv l'"
    by (fastforce simp: latch_inv_def countDown_def Let_def)
qed (auto simp: latch_inv_def latch_wait_def)

text \<open>
  No thread returns from \<open>wait\<close> before the count has reached zero, and once it has, every
  thread still asleep has been notified.
\<close>

lemma latch_waits_for_zero:
  assumes "latch_step\<^sup>*\<^sup>* (CountDownLatch_new n) l"
  shows "(waiters l t = L_returned \<longrightarrow> getCount l \<le> 0) \<and> (waiters l t = L_sleep b \<and> getCount l \<le> 0 \<longrightarrow> b)"
proof -
  have "latch_inv l"
    using assms
  proof induction
    case base
    show ?case by (simp add: latch_inv_def CountDownLatch_new_def)
  next
    case (step l l')
    then show ?case using latch_inv_step by blast
  qed
  then show ?thesis by (cases b) (auto simp: latch_inv_def getCount_def not_less)
qed

subsection \<open>Atomic integers\<close>

text \<open>
  \<open>AtomicIntegerT<T>\<close>, for a machine integer \<open>T\<close>, a word: each operation is one atomic step and
  wraps around.
\<close>

record 'T AtomicIntegerT =
  avalue :: 'T

definition Atomic_new :: "'w::len word AtomicIntegerT" where
  "Atomic_new = \<lparr>avalue = 0\<rparr>"

definition atomic_get :: "'w::len word AtomicIntegerT \<Rightarrow> 'w word \<times> 'w word AtomicIntegerT" where
  "atomic_get a = (let old = avalue a in (old, if old = 0 then a\<lparr>avalue := 0\<rparr> else a))"

definition getAndAdd :: "'w::len word \<Rightarrow> 'w word AtomicIntegerT \<Rightarrow> 'w word \<times> 'w word AtomicIntegerT" where
  "getAndAdd x a = (avalue a, a\<lparr>avalue := avalue a + x\<rparr>)"

definition addAndGet :: "'w::len word \<Rightarrow> 'w word AtomicIntegerT \<Rightarrow> 'w word \<times> 'w word AtomicIntegerT" where
  "addAndGet x a = (let (old, a') = getAndAdd x a in (old + x, a'))"

definition incrementAndGet :: "'w::len word AtomicIntegerT \<Rightarrow> 'w word \<times> 'w word AtomicIntegerT" where
  "incrementAndGet a = addAndGet 1 a"

definition decrementAndGet :: "'w::len word AtomicIntegerT \<Rightarrow> 'w word \<times> 'w word AtomicIntegerT" where
  "decrementAndGet a = addAndGet (- 1) a"

definition atomic_add :: "'w::len word \<Rightarrow> 'w word AtomicIntegerT \<Rightarrow> 'w word AtomicIntegerT" where
  "atomic_add x a = snd (getAndAdd x a)"

definition increment :: "'w::len word AtomicIntegerT \<Rightarrow> 'w word AtomicIntegerT" where
  "increment a = snd (incrementAndGet a)"

definition decrement :: "'w::len word AtomicIntegerT \<Rightarrow> 'w word AtomicIntegerT" where
  "decrement a = snd (decrementAndGet a)"

definition getAndSet :: "'w::len word \<Rightarrow> 'w word AtomicIntegerT \<Rightarrow> 'w word \<times> 'w word AtomicIntegerT" where
  "getAndSet x a = (avalue a, a\<lparr>avalue := x\<rparr>)"

text \<open>In whatever order the additions of several threads take effect, the sum is the same.\<close>

lemma atomic_adds: "avalue (fold atomic_add xs a) = avalue a + sum_list xs"
  by (induction xs arbitrary: a) (simp_all add: atomic_add_def getAndAdd_def add.assoc)

lemma increments_count: "avalue ((increment ^^ n) (Atomic_new :: 'w::len word AtomicIntegerT)) = of_nat n"
  by (induction n) (simp_all add: increment_def incrementAndGet_def addAndGet_def getAndAdd_def Atomic_new_def)

subsection \<open>Thread\<close>

text \<open>
  A thread object; the function it runs is a state change of the world \<open>'w\<close>.  The results of
  \<open>pthread_create\<close> and \<open>pthread_join\<close> are parameters.
\<close>

record 'w Thread =
  thread_started :: bool
  thread_tid :: int
  thread_func :: "'w \<Rightarrow> 'w res"
  thread_name :: string

definition Thread_new ::
  "('w \<Rightarrow> 'w res) \<Rightarrow> string \<Rightarrow> 32 word AtomicIntegerT \<Rightarrow> 'w Thread \<times> 32 word AtomicIntegerT" where
  "Thread_new func name numCreated =
     (\<lparr>thread_started = False, thread_tid = 0, thread_func = func, thread_name = name\<rparr>, increment numCreated)"

definition Thread_start :: "int \<Rightarrow> 'w Thread \<Rightarrow> ('w Thread \<times> severity list) res" where
  "Thread_start create_result t =
     assertR (\<not> thread_started t)
       (Inr (t\<lparr>thread_started := True\<rparr>, if create_result \<noteq> 0 then [ERROR] else []))"

definition Thread_join :: "int \<Rightarrow> 'w Thread \<Rightarrow> int res" where
  "Thread_join join_result t = assertR (thread_started t) (Inr join_result)"

definition runInThread :: "int \<Rightarrow> 'w Thread \<Rightarrow> thread_locals \<Rightarrow> 'w \<Rightarrow> ('w Thread \<times> thread_locals \<times> 'w) res" where
  "runInThread gettid t ts w =
     res_bind (tid gettid ts)
       (\<lambda>(id, ts1). let t1 = t\<lparr>thread_tid := id\<rparr>; ts2 = ts1\<lparr>t_threadName := thread_name t1\<rparr>
          in res_bind (thread_func t1 w) (\<lambda>w'. Inr (t1, ts2\<lparr>t_threadName := ''finished''\<rparr>, w')))"

definition startThread :: "int \<Rightarrow> 'w Thread \<Rightarrow> thread_locals \<Rightarrow> 'w \<Rightarrow> ('w Thread \<times> thread_locals \<times> 'w) res" where
  "startThread gettid t ts w = runInThread gettid t ts w"

definition Thread_numCreated :: "32 word AtomicIntegerT \<Rightarrow> int" where
  "Thread_numCreated numCreated = sint (fst (atomic_get numCreated))"

lemma start_once: "Thread_start r t = Inr (t', msgs) \<Longrightarrow> Thread_start r' t' = Inl Assert_failed"
  by (auto simp: Thread_start_def split: if_splits)

end
