(* ===== verification/Loop_Timers.thy ===== *)
theory Loop_Timers
  imports Timer_Queue
begin

section \<open>The timer interface of the event loop\<close>

text \<open>
  Model of \<open>EventLoop::runAt\<close>, \<open>runAfter\<close> and \<open>runEvery\<close> in \<open>src/EventLoop.cpp\<close> on the timer
  queue, called in the loop's own thread, and of the remaining operations of
  \<open>include/Timestamp.h\<close>.  A delay or interval is given by the two values the code takes
  from the \<open>double\<close>: its number of microseconds, and for an interval whether it is positive.
\<close>

subsection \<open>Operations\<close>

definition Timestamp_swap :: "int \<Rightarrow> int \<Rightarrow> int \<times> int" where
  "Timestamp_swap this that = (that, this)"

definition Timestamp_invalid :: int where
  "Timestamp_invalid = 0"

definition secondsSinceEpoch :: "int \<Rightarrow> int" where
  "secondsSinceEpoch t = (if t < 0 then - (- t div kMicroSecondsPerSecond) else t div kMicroSecondsPerSecond)"

definition Timestamp_less :: "int \<Rightarrow> int \<Rightarrow> bool" where
  "Timestamp_less lhs rhs \<longleftrightarrow> lhs < rhs"

definition Timestamp_equal :: "int \<Rightarrow> int \<Rightarrow> bool" where
  "Timestamp_equal lhs rhs \<longleftrightarrow> lhs = rhs"

text \<open>\<open>tv\<close> is what \<open>gettimeofday\<close> gives the caller, \<open>now\<close> the time at which the descriptor is
  armed, \<open>timer\<close> the address of the new timer object.\<close>

definition runAt :: "int \<Rightarrow> nat \<Rightarrow> int \<Rightarrow> 'm timer_state_scheme \<Rightarrow> 'm timer_state_scheme res" where
  "runAt now timer time s = addTimer now timer time 0 False s"

definition runAfter :: "int \<times> int \<Rightarrow> int \<Rightarrow> nat \<Rightarrow> int \<Rightarrow> 'm timer_state_scheme \<Rightarrow> 'm timer_state_scheme res" where
  "runAfter tv now timer delay s =
     res_bind (Timestamp_now (fst tv) (snd tv))
       (\<lambda>t. res_bind (addTime t delay) (\<lambda>time. runAt now timer time s))"

definition runEvery :: "int \<times> int \<Rightarrow> int \<Rightarrow> nat \<Rightarrow> int \<Rightarrow> bool \<Rightarrow> 'm timer_state_scheme \<Rightarrow> 'm timer_state_scheme res" where
  "runEvery tv now timer interval positive s =
     res_bind (Timestamp_now (fst tv) (snd tv))
       (\<lambda>t. res_bind (addTime t interval) (\<lambda>time. addTimer now timer time interval positive s))"

subsection \<open>Adding a timer\<close>

lemma timer_inv_new:
  assumes "timer_inv {} s" and "heap s p = None" and "p < UINTPTR_MAX" and "timer_ok t"
  shows "timer_inv {p} (s\<lparr>heap := (heap s)(p \<mapsto> t)\<rparr>)"
proof (rule timer_invI)
  note i = timer_invD [OF assms(1)]
  have new: "q \<noteq> p" if "(e, q) \<in> set (timers s)" for e q using i(2) [OF that] assms(2) by auto
  show "sorted_wrt (<) (timers (s\<lparr>heap := (heap s)(p \<mapsto> t)\<rparr>))" using i(1) by simp
  show "q \<notin> {p}" if "(e, q) \<in> set (timers (s\<lparr>heap := (heap s)(p \<mapsto> t)\<rparr>))" for e q
    using new that by auto
  show "q < UINTPTR_MAX \<and> (\<exists>u. heap (s\<lparr>heap := (heap s)(p \<mapsto> t)\<rparr>) q = Some u \<and> expiration u = e \<and> timer_ok u)"
    if "(e, q) \<in> set (timers (s\<lparr>heap := (heap s)(p \<mapsto> t)\<rparr>))" for e q
    using new [of e q] i(2) [of e q] that by simp
  show "q < UINTPTR_MAX \<and> (\<exists>u. heap (s\<lparr>heap := (heap s)(p \<mapsto> t)\<rparr>) q = Some u \<and> timer_ok u)" if "q \<in> {p}" for q
    using that assms(3,4) by simp
qed

text \<open>The descriptor is armed for the earliest timer when that is the new one.\<close>

lemma addTimer_ok:
  assumes inv: "timer_inv {} s" and fresh: "heap s p = None" "p < UINTPTR_MAX"
    and t: "timer_ok (Timer_new when d rep)" and now: "time_ok now"
  shows "\<exists>s'. addTimer now p when d rep s = Inr s' \<and> timer_inv {} s'
    \<and> set (timers s') = insert (when, p) (set (timers s)) \<and> heap s' = (heap s)(p \<mapsto> Timer_new when d rep)
    \<and> (if timers s = [] \<or> when < fst (hd (timers s))
       then Inr (the (armed s')) = howMuchTimeFromNow now when else armed s' = armed s)"
proof -
  let ?t = "Timer_new when d rep" and ?s = "s\<lparr>heap := (heap s)(p \<mapsto> Timer_new when d rep)\<rparr>"
  have inv1: "timer_inv {p} ?s" by (rule timer_inv_new [OF inv fresh t])
  have e: "expiration ?t = when" "time_ok when" using t by (simp_all add: Timer_new_def timer_ok_def)
  obtain zs where zs: "TimerQueue_insert p ?s
        = Inr (timers s = [] \<or> when < fst (hd (timers s)), ?s\<lparr>timers := zs\<rparr>)"
      "set zs = insert (when, p) (set (timers s))" "timer_inv {} (?s\<lparr>timers := zs\<rparr>)"
    using insert_ok [OF inv1, of p ?t] e(1) by auto
  obtain ts where ts: "howMuchTimeFromNow now when = Inr ts"
    using e(2) now by (simp add: howMuchTimeFromNow_def int64_def time_ok_def Let_def)
  have arm: "timer_inv {} (?s\<lparr>timers := zs, armed := Some ts\<rparr>)"
    using zs(3) unfolding timer_inv_def by simp
  show ?thesis
  proof (cases "timers s = [] \<or> when < fst (hd (timers s))")
    case True
    with zs(1) ts e(1) have "addTimer now p when d rep s = Inr (?s\<lparr>timers := zs, armed := Some ts\<rparr>)"
      by (simp add: addTimer_def addTimerInLoop_def resetTimerfd_def)
    with True arm zs(2) ts show ?thesis by simp
  next
    case False
    with zs(1) have "addTimer now p when d rep s = Inr (?s\<lparr>timers := zs\<rparr>)"
      by (simp add: addTimer_def addTimerInLoop_def)
    with False zs(2,3) show ?thesis by simp
  qed
qed

text \<open>
  \<open>runEvery\<close> puts one timer into the queue, due one interval after the
  current time and repeating exactly when the interval is positive, leaves the other timers
  and the invariant of the queue as they were, and arms the descriptor if the new timer is
  now the earliest and not otherwise.  \<open>runAfter\<close> does the same for a timer that runs once.
\<close>
theorem runEvery_schedules:
  assumes "timer_inv {} s" and "heap s p = None" and "p < UINTPTR_MAX"
    and "0 \<le> sec" and "sec < 2000000000000" and "0 \<le> usec" and "usec < 1000000"
    and "0 \<le> interval" and "interval < 2305843009213693952" and "time_ok now"
  shows "let due = sec * 1000000 + usec + interval in
    \<exists>s1 s2. runEvery (sec, usec) now p interval positive s = Inr s1 \<and> timer_inv {} s1
      \<and> runAfter (sec, usec) now p interval s = Inr s2 \<and> timer_inv {} s2
      \<and> heap s1 = (heap s)(p \<mapsto> \<lparr>expiration = due, delta = interval, repeats = positive\<rparr>)
      \<and> heap s2 = (heap s)(p \<mapsto> \<lparr>expiration = due, delta = 0, repeats = False\<rparr>)
      \<and> set (timers s1) = insert (due, p) (set (timers s)) \<and> set (timers s2) = insert (due, p) (set (timers s))
      \<and> (if timers s = [] \<or> due < fst (hd (timers s))
         then Inr (the (armed s1)) = howMuchTimeFromNow now due \<and> Inr (the (armed s2)) = howMuchTimeFromNow now due
         else armed s1 = armed s \<and> armed s2 = armed s)"
proof -
  let ?due = "sec * 1000000 + usec + interval"
  have t: "Timestamp_now sec usec = Inr (sec * 1000000 + usec)" "addTime (sec * 1000000 + usec) interval = Inr ?due"
    using assms(4-9) by (simp_all add: Timestamp_now_def kMicroSecondsPerSecond_def int64_def addTime_def)
  have ok: "timer_ok (Timer_new ?due interval positive)" "timer_ok (Timer_new ?due 0 False)"
    using assms(4-9) by (simp_all add: timer_ok_def Timer_new_def time_ok_def)
  from addTimer_ok [OF assms(1-3) ok(1) assms(10)] addTimer_ok [OF assms(1-3) ok(2) assms(10)] t
  show ?thesis
    unfolding Let_def runEvery_def runAfter_def runAt_def fst_conv snd_conv t res_bind_simps Timer_new_def
    by (auto split: if_splits)
qed

theorem runEvery_schedules_witness:
  "\<exists>s1. runEvery (5, 7) 5000007 3 2000000 True \<lparr>timers = [], heap = Map.empty, armed = None\<rparr> = Inr s1
    \<and> set (timers s1) = {(7000007, 3)}"
proof -
  have "timer_inv {} \<lparr>timers = [], heap = Map.empty, armed = None\<rparr>" by (simp add: timer_inv_def)
  from runEvery_schedules [OF this, of 3 5 7 2000000 5000007 True] show ?thesis
    by (auto simp: UINTPTR_MAX_def time_ok_def Let_def)
qed

text \<open>Without timers an alarm changes nothing.\<close>

lemma alarm_without_timers: "timers s = [] \<Longrightarrow> TimerQueue_handleRead run now now2 s = Inr s"
  by (simp add: TimerQueue_handleRead_def getExpired_def reset_def)

subsection \<open>The end of the queue\<close>

text \<open>
  \<open>~TimerQueue\<close> deletes the timers that are still queued; deleting an object twice is undefined.
  The descriptor is closed and its channel stays in the poller, which goes with the loop.
\<close>

definition delete_timer :: "int \<times> nat \<Rightarrow> 'm timer_state_scheme \<Rightarrow> 'm timer_state_scheme res" where
  "delete_timer it s =
     (case heap s (snd it) of None \<Rightarrow> Inl Undefined | Some t \<Rightarrow> Inr (s\<lparr>heap := (heap s)(snd it := None)\<rparr>))"

definition TimerQueue_delete :: "'m timer_state_scheme \<Rightarrow> 'm timer_state_scheme res" where
  "TimerQueue_delete s = foldR delete_timer (timers s) s"

lemma delete_timers:
  assumes "distinct (map snd its)" and "\<forall>it \<in> set its. heap s (snd it) \<noteq> None"
  shows "foldR delete_timer its s = Inr (s\<lparr>heap := (heap s) |` (- snd ` set its)\<rparr>)"
  using assms
proof (induction its arbitrary: s)
  case Nil
  have "(heap s) |` UNIV = heap s" by (rule ext) (simp add: restrict_map_def)
  then show ?case by simp
next
  case (Cons it its)
  let ?s = "s\<lparr>heap := (heap s)(snd it := None)\<rparr>"
  have step: "delete_timer it s = Inr ?s" using Cons.prems(2) by (auto simp: delete_timer_def)
  have "\<forall>i \<in> set its. heap ?s (snd i) \<noteq> None" using Cons.prems by (force simp: image_iff)
  then have "foldR delete_timer its ?s = Inr (?s\<lparr>heap := heap ?s |` (- snd ` set its)\<rparr>)"
    using Cons.IH Cons.prems(1) by simp
  moreover have "heap ?s |` (- snd ` set its) = heap s |` (- snd ` set (it # its))"
    by (auto simp: restrict_map_def fun_eq_iff)
  ultimately show ?case using step by simp
qed

text \<open>Every queued timer is freed, exactly once, and nothing else.\<close>

lemma TimerQueue_delete_frees:
  assumes "timer_inv {} s"
  shows "TimerQueue_delete s = Inr (s\<lparr>heap := (heap s) |` (- snd ` set (timers s))\<rparr>)"
proof -
  have s: "sorted_wrt (<) (timers s)" and "\<forall>(e, p) \<in> set (timers s). \<exists>t. heap s p = Some t \<and> expiration t = e"
    using assms by (auto simp: timer_inv_def)
  then have h: "\<exists>t. heap s (snd it) = Some t \<and> expiration t = fst it" if "it \<in> set (timers s)" for it using that by auto
  have "inj_on snd (set (timers s))" using h by (intro inj_onI) (metis option.inject prod.expand)
  moreover have "distinct (timers s)" using s by (simp add: strict_sorted_iff)
  ultimately have "distinct (map snd (timers s))" by (simp add: distinct_map)
  with h show ?thesis by (auto simp: TimerQueue_delete_def intro!: delete_timers)
qed

end
