(* ===== verification/Conn_Steps.thy ===== *)
theory Conn_Steps
  imports Tcp_Server
begin

section \<open>What a connection can do in one step\<close>

text \<open>
  The operations of \<open>src/TcpConnection.cpp\<close> and of the channels, seen from outside: for
  every answer of the kernel and every way an operation can return, what it leaves of the
  connection, of the channels and of the rest of the server.  No theorem of this theory asks
  for room in the buffers or for a write to be accepted; where an operation faults, nothing
  is claimed.
\<close>

subsection \<open>Operations on one connection, as far as they return\<close>

lemma Buffer_append_wf:
  assumes "Buffer_append d b = Inr b'" and "buf_wf b" and "length d \<le> vec_max"
  shows "buf_wf b'"
proof (cases "writerIndex b + length d \<le> vec_max")
  case True
  with Buffer_append_spec [OF assms(2) True] assms(1) show ?thesis by auto
next
  case False
  note wf = assms(2) [unfolded buf_wf_def]
  have w: "writableBytes b < length d" using wf False buf_wf_bounds(2) [OF assms(2)] by linarith
  have mv: "\<not> writableBytes b + prependableBytes b < length d + kCheapPrepend"
  proof
    assume "writableBytes b + prependableBytes b < length d + kCheapPrepend"
    then have "makeSpace (length d) b = Inl Length_error"
      using wf False assms(3) by (simp add: makeSpace_def vector_resize_def buf_defs)
    with assms(1) w show False by (simp add: Buffer_append_def ensureWritableBytes_def)
  qed
  obtain b1 where b1: "makeSpace (length d) b = Inr b1" "buf_wf b1" "length d \<le> writableBytes b1"
    using makeSpace_move [OF assms(2) w assms(3) mv] by blast
  then show ?thesis
    using assms(1) w buf_wf_bounds(2) [OF b1(2)]
    by (auto simp: Buffer_append_def ensureWritableBytes_def copy_to_def hasWritten_def beginWrite_def buf_wf_def
        split: if_splits)
qed

lemma retrieve_wf:
  assumes "retrieve n b = Inr b'" and "buf_wf b"
  shows "buf_wf b'"
proof (cases "n \<le> length (readable b)")
  case True
  with retrieve_spec [OF assms(2) True] assms(1) show ?thesis by auto
next
  case False
  with retrieve_too_much [OF assms(2)] assms(1) show ?thesis by simp
qed

lemma readFd_wf:
  assumes "readFd rv b = Inr (n, e, b')" and "buf_wf b"
    and "\<forall>bytes. rv = Inr bytes \<longrightarrow> length bytes \<le> writableBytes b + extrabuf_size"
  shows "buf_wf b'"
proof (cases rv)
  case (Inl e)
  with assms(1,2) show ?thesis by (simp add: readFd_def)
next
  case (Inr bytes)
  note w = buf_wf_bounds(2) [OF assms(2)]
  let ?v = "overwrite (writerIndex b) (take (writableBytes b) bytes) (buffer b)"
  have cp: "copy_to (writerIndex b) (take (writableBytes b) bytes) (buffer b) = Inr ?v" "length ?v = length (buffer b)"
    using w assms(2) by (auto simp: copy_to_def buf_wf_def)
  show ?thesis
  proof (cases "length bytes \<le> writableBytes b")
    case True
    with assms(1,2) Inr cp w show ?thesis by (auto simp: readFd_def buf_wf_def Let_def)
  next
    case False
    let ?b1 = "b\<lparr>buffer := ?v, writerIndex := length ?v\<rparr>"
    have "Buffer_append (drop (writableBytes b) bytes) ?b1 = Inr b'"
      using assms(1) Inr cp False by (simp add: readFd_def Let_def split: prod.splits)
    moreover have "buf_wf ?b1" using assms(2) cp(2) by (simp add: buf_wf_def)
    moreover have "length (drop (writableBytes b) bytes) \<le> vec_max"
      using assms(3) Inr by (simp add: extrabuf_size_def)
    ultimately show ?thesis by (rule Buffer_append_wf)
  qed
qed

text \<open>
  No operation rebinds a channel: descriptor, owner loop and callbacks of every object stay
  as they are, and a channel that is not in the poller stays outside.  \<open>moves\<close> describes an operation on the connection at one address, for every
  way it can return.
\<close>

definition same_binding :: "'cb Channel \<Rightarrow> 'cb Channel \<Rightarrow> bool" where
  "same_binding c c' \<longleftrightarrow> fd c' = fd c \<and> loopOf c' = loopOf c \<and> readCallback c' = readCallback c
     \<and> writeCallback c' = writeCallback c \<and> errorCallback c' = errorCallback c \<and> closeCallback c' = closeCallback c"

definition kept :: "('cb, 'm) poll_state_scheme \<Rightarrow> ('cb, 'm) poll_state_scheme \<Rightarrow> bool" where
  "kept s s' \<longleftrightarrow> (\<forall>k c. store s k = Some c \<longrightarrow>
     (\<exists>c'. store s' k = Some c' \<and> same_binding c c' \<and> (index c < 0 \<longrightarrow> index c' = index c)))"

lemma same_binding_simps [simp]:
  "same_binding c c" "same_binding c (c\<lparr>events := e\<rparr>)" "same_binding c (c\<lparr>index := i\<rparr>)"
  "same_binding c (c\<lparr>revents := r\<rparr>)" "same_binding c (c\<lparr>eventHandling := b\<rparr>)"
  by (simp_all add: same_binding_def)

lemma kept_same: "store s' = store s \<Longrightarrow> kept s s'"
  by (auto simp: kept_def)

lemma same_binding_trans: "same_binding c c1 \<Longrightarrow> same_binding c1 c2 \<Longrightarrow> same_binding c c2"
  by (simp add: same_binding_def)

lemma keptD:
  assumes "kept s s'" and "store s k = Some c"
  obtains c' where "store s' k = Some c'" "same_binding c c'" "index c < 0 \<Longrightarrow> index c' = index c"
  using assms unfolding kept_def by blast

lemma kept_trans: "kept s s1 \<Longrightarrow> kept s1 s2 \<Longrightarrow> kept s s2"
  unfolding kept_def [of s s2] by (auto elim!: keptD intro: same_binding_trans)

lemma kept_put:
  "store s k = Some c \<Longrightarrow> same_binding c c' \<Longrightarrow> index c' = index c \<Longrightarrow> store s' = (store s)(k \<mapsto> c') \<Longrightarrow> kept s s'"
  by (auto simp: kept_def)

definition moves :: "nat \<Rightarrow> TcpConnection \<Rightarrow> 'm net_state_scheme \<Rightarrow> 'm net_state_scheme \<Rightarrow> bool" where
  "moves a c s s' \<longleftrightarrow> (\<exists>c' ch'. conn_at s' a c' ch' \<and> frame a c c' s s' \<and> state c' = state c)
     \<and> kept s s' \<and> calls s \<le> calls s'"

lemma movesE:
  assumes "moves a c s s'"
  obtains c' ch' where "conn_at s' a c' ch'" "frame a c c' s s'" "state c' = state c" "conns s' a = Some c'"
  using assms by (auto simp: moves_def conn_at_def)

lemma moves_trans:
  assumes "moves a c s s1" and "\<And>c1 ch1. conn_at s1 a c1 ch1 \<Longrightarrow> moves a c1 s1 s2"
  shows "moves a c s s2"
proof -
  obtain c1 ch1 where c1: "conn_at s1 a c1 ch1" "frame a c c1 s s1" "state c1 = state c"
    using movesE [OF assms(1)] .
  obtain c2 ch2 where c2: "conn_at s2 a c2 ch2" "frame a c1 c2 s1 s2" "state c2 = state c1"
    using movesE [OF assms(2) [OF c1(1)]] .
  have "frame a c c2 s s2" using c1(2) c2(2) by (rule frame_trans)
  then show ?thesis
    using c2(1,3) c1(3) kept_trans [of s s1 s2] assms(1) assms(2) [OF c1(1)] unfolding moves_def by auto
qed

lemma moves_local:
  assumes c: "conn_at s a c ch"
    and "store s' = store s" "pollfds s' = pollfds s" "channels s' = channels s" "loopId s' = loopId s"
    "conns s' = (conns s)(a \<mapsto> c')" "net_state.more s' = net_state.more s"
    "\<forall>f. f \<noteq> socket c \<longrightarrow> wire s' f = wire s f"
    "\<exists>fs. pendingFunctors s' = pendingFunctors s @ fs \<and> (\<forall>f \<in> set fs. f = WriteComplete a)"
    "socket c' = socket c" "channel c' = channel c" "conn_name c' = conn_name c" "peerAddr c' = peerAddr c"
    "conn_loop c' = conn_loop c" "state c' = state c" "buf_wf (inputBuffer c')" "buf_wf (outputBuffer c')"
    "calls s \<le> calls s'"
  shows "moves a c s s'"
proof -
  have "conn_at s' a c' ch" using assms by (intro conn_at_local [OF c]) simp_all
  moreover have "frame a c c' s s'" using assms by (intro frame_local) simp_all
  ultimately show ?thesis using assms(2,15,18) kept_same unfolding moves_def by blast
qed

lemma moves_events:
  assumes c: "conn_at s a c ch" and "Channel_setEvents f (channel c) s = Inr s'"
  shows "moves a c s s'"
proof -
  obtain s2 p where s2: "Channel_setEvents f (channel c) s = Inr s2" "conn_at s2 a c (ch\<lparr>events := f ch\<rparr>)" "frame a c c s s2"
      "s2 = s\<lparr>store := (store s)(channel c \<mapsto> ch\<lparr>events := f ch\<rparr>), pollfds := (pollfds s)[nat (index ch) := p]\<rparr>"
    using conn_setEvents [OF c] by blast
  have "store s (channel c) = Some ch" using c by (simp add: conn_at_def attached_def)
  then have "kept s s2" by (rule kept_put) (simp_all add: s2(4))
  with s2 assms(2) show ?thesis unfolding moves_def by auto
qed

lemma moves_refl: "conn_at s a c ch \<Longrightarrow> moves a c s s"
  by (rule moves_local [where c' = c]) (auto simp: conn_at_def)

lemma write_moves:
  assumes c: "conn_at s a c ch"
  shows "moves a c s (snd (sys_write K (socket c) d s))"
    and "moves a c s (queueInLoop True (WriteComplete a) s)"
    and "buf_wf ob \<Longrightarrow> moves a c s (set_conn a (c\<lparr>outputBuffer := ob\<rparr>) s)"
    and "buf_wf ob \<Longrightarrow> moves a c s (set_conn a (c\<lparr>inputBuffer := ob\<rparr>) s)"
    and "moves a c s (s\<lparr>shut := (shut s)(socket c := b)\<rparr>)" and "moves a c s (s\<lparr>calls := calls s + 1\<rparr>)"
proof -
  have wf: "buf_wf (inputBuffer c)" "buf_wf (outputBuffer c)" and cs: "(conns s)(a \<mapsto> c) = conns s"
    using c by (auto simp: conn_at_def)
  show "moves a c s (snd (sys_write K (socket c) d s))" "moves a c s (queueInLoop True (WriteComplete a) s)"
    "moves a c s (s\<lparr>shut := (shut s)(socket c := b)\<rparr>)" "moves a c s (s\<lparr>calls := calls s + 1\<rparr>)"
    by (rule moves_local [OF c, where c' = c]; simp add: sys_write_def Let_def wf cs)+
  show "moves a c s (set_conn a (c\<lparr>outputBuffer := ob\<rparr>) s)" if "buf_wf ob"
    by (rule moves_local [OF c, where c' = "c\<lparr>outputBuffer := ob\<rparr>"]; simp add: set_conn_def wf that)
  show "moves a c s (set_conn a (c\<lparr>inputBuffer := ob\<rparr>) s)" if "buf_wf ob"
    by (rule moves_local [OF c, where c' = "c\<lparr>inputBuffer := ob\<rparr>"]; simp add: set_conn_def wf that)
qed

lemma conn_fd: "conn_at s a c ch \<Longrightarrow> fd ch = socket c"
  by (simp add: conn_at_def)

text \<open>Storing a new output buffer and then changing the interest of the channel.\<close>

lemma rest_moves:
  assumes c: "conn_at s a c ch" and "length rest \<le> vec_max"
    and "res_bind (Buffer_append rest (outputBuffer c)) (\<lambda>ob.
        let s2 = set_conn a (c\<lparr>outputBuffer := ob\<rparr>) s
        in if \<not> w then enableWriting (channel c) s2 else Inr s2) = Inr s'"
  shows "moves a c s s'"
proof -
  obtain ob where ob: "Buffer_append rest (outputBuffer c) = Inr ob"
      "(if \<not> w then enableWriting (channel c) (set_conn a (c\<lparr>outputBuffer := ob\<rparr>) s)
        else Inr (set_conn a (c\<lparr>outputBuffer := ob\<rparr>) s)) = Inr s'"
    using assms(3) by (auto simp: Let_def)
  have "buf_wf ob" using ob(1) c assms(2) by (intro Buffer_append_wf [OF ob(1)]) (simp_all add: conn_at_def)
  then have m: "moves a c s (set_conn a (c\<lparr>outputBuffer := ob\<rparr>) s)" by (rule write_moves(3) [OF c])
  show ?thesis
  proof (cases w)
    case True
    with m ob(2) show ?thesis by simp
  next
    case False
    show ?thesis
    proof (rule moves_trans [OF m])
      fix c1 ch1 assume c1: "conn_at (set_conn a (c\<lparr>outputBuffer := ob\<rparr>) s) a c1 ch1"
      then have "channel c1 = channel c" by (auto simp: conn_at_def set_conn_def)
      then show "moves a c1 (set_conn a (c\<lparr>outputBuffer := ob\<rparr>) s) s'"
        using moves_events [OF c1] ob(2) False by (simp add: enableWriting_def)
    qed
  qed
qed

text \<open>The two stages of \<open>sendInLoop\<close>: a direct write at most, then the rest of the message.\<close>

lemma sendInLoop_stages:
  assumes c: "conns s a = Some c" "store s (channel c) = Some ch" and run: "sendInLoop K m a s = Inr s'"
  defines "w \<equiv> snd (sys_write K (fd ch) (c_strlen_prefix m) s)"
  obtains r s2 where "s2 = s \<or> s2 = w \<or> s2 = queueInLoop True (WriteComplete a) w"
    and "(if nat r < length m then
            res_bind (Buffer_append (drop (nat r) m) (outputBuffer c)) (\<lambda>ob.
              let s3 = set_conn a (c\<lparr>outputBuffer := ob\<rparr>) s2
              in if \<not> isWriting ch then enableWriting (channel c) s3 else Inr s3)
          else Inr s2) = Inr s'"
proof -
  let ?direct = "readableBytes (outputBuffer c) = 0 \<and> \<not> isWriting ch"
  obtain n s1 where w: "sys_write K (fd ch) (c_strlen_prefix m) s = (n, s1)" by (cases "sys_write K (fd ch) (c_strlen_prefix m) s")
  define r where "r = (if ?direct then n else 0)"
  define s2 where "s2 = (if ?direct then if n \<ge> 0 \<and> \<not> nat n < length m \<and> writeCompleteCallback c
      then queueInLoop True (WriteComplete a) s1 else s1 else s)"
  have "assertR (r \<ge> 0) (if nat r < length m then
            res_bind (Buffer_append (drop (nat r) m) (outputBuffer c)) (\<lambda>ob.
              let s3 = set_conn a (c\<lparr>outputBuffer := ob\<rparr>) s2
              in if \<not> isWriting ch then enableWriting (channel c) s3 else Inr s3)
          else Inr s2) = Inr s'"
    using run unfolding sendInLoop_def with_conn_def with_channel_def c option.case Let_def r_def s2_def
    by (cases ?direct) (simp_all only: w prod.case if_True if_False simp_thms)
  moreover have "s2 = s \<or> s2 = s1 \<or> s2 = queueInLoop True (WriteComplete a) s1" by (simp add: s2_def)
  ultimately show thesis using that [of s2 r] w by (simp add: w_def split: if_splits)
qed

lemma sendInLoop_moves:
  assumes c: "conn_at s a c ch" and m: "length m \<le> vec_max" and run: "sendInLoop K m a s = Inr s'"
  shows "moves a c s s'"
proof -
  let ?w = "snd (sys_write K (fd ch) (c_strlen_prefix m) s)"
  have cs: "conns s a = Some c" "store s (channel c) = Some ch" using c by (simp_all add: conn_at_def attached_def)
  obtain r s2 where s2: "s2 = s \<or> s2 = ?w \<or> s2 = queueInLoop True (WriteComplete a) ?w"
    and run2: "(if nat r < length m then
            res_bind (Buffer_append (drop (nat r) m) (outputBuffer c)) (\<lambda>ob.
              let s3 = set_conn a (c\<lparr>outputBuffer := ob\<rparr>) s2
              in if \<not> isWriting ch then enableWriting (channel c) s3 else Inr s3)
          else Inr s2) = Inr s'"
    using sendInLoop_stages [OF cs run] by blast
  have w: "moves a c s ?w" "conn_at ?w a c ch"
    using write_moves(1) [OF c, of K "c_strlen_prefix m"] conn_fd [OF c]
    by simp (intro conn_at_local [OF c]; use c in \<open>simp add: sys_write_def conn_at_def Let_def\<close>)
  have q: "conn_at (queueInLoop True (WriteComplete a) ?w) a c ch"
    by (intro conn_at_local [OF w(2)]) (use w(2) in \<open>auto simp: conn_at_def\<close>)
  have m2: "moves a c s s2" and c2: "conn_at s2 a c ch"
    using s2 w c q moves_refl [OF c] moves_trans [OF w(1) write_moves(2)] by auto
  show ?thesis
  proof (cases "nat r < length m")
    case True
    then have rest: "moves a c s2 s'" using run2 m by (intro rest_moves [OF c2]) auto
    show ?thesis by (rule moves_trans [OF m2]) (use c2 rest in \<open>simp add: conn_at_def\<close>)
  next
    case False
    with run2 m2 show ?thesis by simp
  qed
qed

lemma send_moves:
  assumes c: "conn_at s a c ch" and m: "length m \<le> vec_max" and run: "send K True m a s = Inr s'"
  shows "moves a c s s'"
  using sendInLoop_moves [OF c m] moves_refl [OF c] run
  by (auto simp: send_def conn_at_run [OF c] split: if_splits)

lemma shutdownInLoop_moves:
  assumes c: "conn_at s a c ch" and "shutdownInLoop a s = Inr s'"
  shows "moves a c s s'"
  using assms(2) write_moves(5) [OF c] moves_refl [OF c]
  by (auto simp: shutdownInLoop_def conn_at_run [OF c] split: if_splits)

lemma handleError_moves:
  assumes c: "conn_at s a c ch" and "handleError a s = Inr s'"
  shows "moves a c s s'"
  using assms(2) write_moves(6) [OF c] by (simp add: handleError_def conn_at_run [OF c])

text \<open>What is left to do once the output buffer is empty.\<close>

lemma drained_moves:
  assumes c: "conn_at s a c ch"
    and run: "res_bind (disableWriting (channel c) s) (\<lambda>s3.
        let s4 = (if wc then queueInLoop True (WriteComplete a) s3 else s3)
        in if dis then shutdownInLoop a s4 else Inr s4) = Inr s'"
  shows "moves a c s s'"
proof -
  obtain s3 where s3: "disableWriting (channel c) s = Inr s3"
    and r: "(if dis then shutdownInLoop a (if wc then queueInLoop True (WriteComplete a) s3 else s3)
      else Inr (if wc then queueInLoop True (WriteComplete a) s3 else s3)) = Inr s'"
    using run by (auto simp: Let_def)
  have m3: "moves a c s s3" using moves_events [OF c] s3 by (simp add: disableWriting_def)
  show ?thesis
  proof (rule moves_trans [OF m3])
    fix c1 ch1 assume c1: "conn_at s3 a c1 ch1"
    let ?s4 = "if wc then queueInLoop True (WriteComplete a) s3 else s3"
    have m4: "moves a c1 s3 ?s4" using write_moves(2) [OF c1] moves_refl [OF c1] by simp
    show "moves a c1 s3 s'"
    proof (rule moves_trans [OF m4])
      fix c2 ch2 assume c2: "conn_at ?s4 a c2 ch2"
      show "moves a c2 ?s4 s'"
        using r shutdownInLoop_moves [OF c2] moves_refl [OF c2] by (cases dis) simp_all
    qed
  qed
qed

lemma handleWrite_stages:
  assumes c: "conns s a = Some c" "store s (channel c) = Some ch" and run: "handleWrite K a s = Inr s'"
  defines "w \<equiv> snd (sys_write K (fd ch) (readable (outputBuffer c)) s)"
  obtains (idle) "s' = s" | (none) "s' = w"
    | (some) n ob where "retrieve n (outputBuffer c) = Inr ob" and
      "(let s2 = set_conn a (c\<lparr>outputBuffer := ob\<rparr>) w in
         if readableBytes ob = 0 then
           res_bind (disableWriting (channel c) s2) (\<lambda>s3.
             let s4 = (if writeCompleteCallback c then queueInLoop True (WriteComplete a) s3 else s3)
             in if state c = kDisconnecting then shutdownInLoop a s4 else Inr s4)
         else Inr s2) = Inr s'"
proof -
  obtain n s1 where s1: "sys_write K (fd ch) (readable (outputBuffer c)) s = (n, s1)"
    by (cases "sys_write K (fd ch) (readable (outputBuffer c)) s")
  have "(if isWriting ch then if n > 0 then res_bind (retrieve (nat n) (outputBuffer c)) (\<lambda>ob.
           let s2 = set_conn a (c\<lparr>outputBuffer := ob\<rparr>) s1 in
             if readableBytes ob = 0 then
               res_bind (disableWriting (channel c) s2) (\<lambda>s3.
                 let s4 = (if writeCompleteCallback c then queueInLoop True (WriteComplete a) s3 else s3)
                 in if state c = kDisconnecting then shutdownInLoop a s4 else Inr s4)
             else Inr s2) else Inr s1 else Inr s) = Inr s'"
    using run unfolding handleWrite_def with_conn_def with_channel_def c option.case s1 Let_def prod.case .
  then show thesis
    using idle none some s1 by (auto simp: w_def split: if_splits simp del: Let_def)
qed

lemma handleWrite_moves:
  assumes c: "conn_at s a c ch" and run: "handleWrite K a s = Inr s'"
  shows "moves a c s s'"
proof -
  let ?w = "snd (sys_write K (fd ch) (readable (outputBuffer c)) s)"
  have cs: "conns s a = Some c" "store s (channel c) = Some ch" using c by (simp_all add: conn_at_def attached_def)
  have w: "moves a c s ?w" "conn_at ?w a c ch"
    using write_moves(1) [OF c, of K "readable (outputBuffer c)"] conn_fd [OF c]
    by simp (intro conn_at_local [OF c]; use c in \<open>simp add: sys_write_def conn_at_def Let_def\<close>)
  show ?thesis
  proof (cases rule: handleWrite_stages [OF cs run])
    case 1
    with moves_refl [OF c] show ?thesis by simp
  next
    case 2
    with w show ?thesis by simp
  next
    case (3 n ob)
    let ?c2 = "c\<lparr>outputBuffer := ob\<rparr>" and ?s2 = "set_conn a (c\<lparr>outputBuffer := ob\<rparr>) ?w"
    have wfb: "buf_wf ob" using c by (intro retrieve_wf [OF 3(1)]) (simp add: conn_at_def)
    have c2: "conn_at ?s2 a ?c2 ch"
      by (rule conn_at_local [OF w(2)]) (use w(2) wfb in \<open>auto simp: set_conn_def conn_at_def\<close>)
    have m: "moves a c s ?s2"
      by (rule moves_trans [OF w(1)]) (use w(2) write_moves(3) [OF w(2) wfb] in \<open>simp add: conn_at_def\<close>)
    show ?thesis
    proof (cases "readableBytes ob = 0")
      case False
      with 3(2) m show ?thesis by (simp add: Let_def)
    next
      case True
      then have "moves a ?c2 ?s2 s'"
        using 3(2) by (intro drained_moves [OF c2, of "writeCompleteCallback c" "state c = kDisconnecting"])
          (simp add: Let_def)
      then show ?thesis by (intro moves_trans [OF m]) (use c2 in \<open>simp add: conn_at_def\<close>)
    qed
  qed
qed

lemma handleRead_stages:
  assumes "TcpConnection_handleRead K msgCb closeCb a s = Inr s'"
  obtains c ch n e b where "conns s a = Some c" "store s (channel c) = Some ch"
    "readFd (k_readv K (calls s) (fd ch) (writableBytes (inputBuffer c) + extrabuf_size)) (inputBuffer c) = Inr (n, e, b)"
    "msgCb a (set_conn a (c\<lparr>inputBuffer := b\<rparr>) (s\<lparr>calls := calls s + 1\<rparr>)) = Inr s'
     \<or> handleClose closeCb a (set_conn a (c\<lparr>inputBuffer := b\<rparr>) (s\<lparr>calls := calls s + 1\<rparr>)) = Inr s'
     \<or> handleError a (set_conn a (c\<lparr>inputBuffer := b\<rparr>) (s\<lparr>calls := calls s + 1\<rparr>)) = Inr s'"
proof -
  obtain c ch where c: "conns s a = Some c" "store s (channel c) = Some ch"
    using assms by (auto simp: TcpConnection_handleRead_def with_conn_def with_channel_def split: option.splits)
  show thesis
    using assms that [OF c]
    unfolding TcpConnection_handleRead_def with_conn_def with_channel_def c option.case Let_def res_bind_eq_Inr
      split_paired_Ex prod.case
    by (metis (no_types, lifting))
qed

lemma removeChannel_kept:
  assumes "EventLoop_removeChannel k s = Inr s'" and "store s k = Some c" and wf: "poll_wf s"
  shows "kept s s'" and "channels s' = (channels s)(fd c := None)" and "dom (store s') = dom (store s)"
proof -
  have r: "Poller_removeChannel k s = Inr s'"
    using assms by (auto simp: EventLoop_removeChannel_def split: if_splits)
  from r assms(2) show "channels s' = (channels s)(fd c := None)"
    by (auto simp: Poller_removeChannel_def Let_def split: option.splits if_splits)
  have pos: False if "channels s g = Some k2" "store s k2 = Some c2" "index c2 < 0" for g k2 c2
  proof -
    from that(1) obtain ck where "attached s k2 ck" by (rule channelsD [OF wf])
    with that(2,3) attachedD(2) [OF wf this] show ?thesis by (simp add: attached_def)
  qed
  from r assms(2) show "dom (store s') = dom (store s)"
    by (auto simp: Poller_removeChannel_def Let_def split: option.splits if_splits)
  from r assms(2) show "kept s s'"
    by (auto simp: Poller_removeChannel_def Let_def kept_def split: option.splits if_splits intro: pos)
qed

text \<open>\<open>readv(2)\<close> delivers at most what it was given room for.\<close>

definition reads_fit :: "kernel \<Rightarrow> bool" where
  "reads_fit K \<longleftrightarrow> (\<forall>t f n bytes. k_readv K t f n = Inr bytes \<longrightarrow> length bytes \<le> n)"

text \<open>Reading: the bytes go into the input buffer, then one of the three branches is taken.\<close>

lemma handleRead_moves:
  assumes K: "reads_fit K" and c: "conn_at s a c ch" and run: "TcpConnection_handleRead K msgCb closeCb a s = Inr s'"
  obtains s1 where "moves a c s s1"
    and "msgCb a s1 = Inr s' \<or> handleClose closeCb a s1 = Inr s' \<or> handleError a s1 = Inr s'"
proof (cases rule: handleRead_stages [OF run])
  case (1 c0 ch0 n e b)
  then have e: "c0 = c" "ch0 = ch" using c by (auto simp: conn_at_def attached_def)
  note b = 1(3,4) [unfolded e]
  let ?s0 = "s\<lparr>calls := calls s + 1\<rparr>"
  let ?s1 = "set_conn a (c\<lparr>inputBuffer := b\<rparr>) ?s0"
  have "buf_wf b" using K c(1) by (intro readFd_wf [OF b(1)]) (simp_all add: reads_fit_def conn_at_def)
  moreover have at0: "conn_at ?s0 a c ch" by (rule conn_at_local [OF c]) (use c in \<open>simp_all add: conn_at_def\<close>)
  ultimately have "moves a c ?s0 ?s1" by (intro write_moves(4) [OF at0])
  then have "moves a c s ?s1"
    using at0 by (intro moves_trans [OF write_moves(6) [OF c]]) (simp add: conn_at_def)
  with b(2) that show thesis by blast
qed

lemma setEvents_calls:
  assumes "Channel_setEvents f k s = Inr s'"
  shows "calls s' = calls (s :: 'm net_state_scheme)"
proof -
  have "calls ps' = calls ps" if "Poller_updateChannel k ps = Inr ps'" for ps ps' :: "'m net_state_scheme"
    using that by (auto simp: Poller_updateChannel_def Let_def split: option.splits if_splits)
  with assms show ?thesis
    by (fastforce simp: Channel_setEvents_def EventLoop_updateChannel_def split: option.splits if_splits)
qed

text \<open>Destroying a connection takes its channel, and no other, out of the poller.\<close>

lemma destroyed_channels:
  assumes c: "conn_at s a c ch" and cb: "quiet_when_down cb" and run: "connectDestroyed cb a s = Inr s'"
  shows "kept s s'" and "channels s' = (channels s)(socket c := None)" and "calls s' = calls s"
    and "net_state.more s' = net_state.more s" and "dom (store s') = dom (store s)"
proof -
  let ?c = "c\<lparr>state := kDisconnected\<rparr>"
  let ?s1 = "set_conn a ?c s"
  have c1: "conn_at ?s1 a ?c ch"
    by (rule conn_at_local [OF c]) (use c in \<open>simp_all add: set_conn_def conn_at_def\<close>)
  obtain s2 where s2: "disableAll (channel c) ?s1 = Inr s2" "res_bind (cb a s2) (EventLoop_removeChannel (channel c)) = Inr s'"
    using run c by (auto simp: connectDestroyed_def with_conn_def conn_at_def split: if_splits)
  have m: "moves a ?c ?s1 s2" using moves_events [OF c1] s2(1) by (simp add: disableAll_def)
  obtain c2 ch2 where c2: "conn_at s2 a c2 ch2" "frame a ?c c2 ?s1 s2" "state c2 = kDisconnected" "conns s2 a = Some c2"
    using movesE [OF m] by (metis (no_types, lifting) TcpConnection.select_convs(3) TcpConnection.surjective TcpConnection.update_convs(3))
  have "cb a s2 = Inr s2" using cb c2(3,4) by (simp add: quiet_when_down_def)
  then have rm: "EventLoop_removeChannel (channel c) s2 = Inr s'" using s2(2) by simp
  have ch: "channel c2 = channel c" "socket c2 = socket c" "channels s2 = channels s"
    using c2(2) by (simp_all add: frame_def set_conn_def)
  have st: "store s2 (channel c) = Some ch2" "fd ch2 = socket c" using c2(1) ch by (simp_all add: conn_at_def attached_def)
  have wf2: "poll_wf s2" using c2(1) by (simp add: conn_at_def)
  have "kept s ?s1" by (rule kept_same) (simp add: set_conn_def)
  with m removeChannel_kept(1) [OF rm st(1) wf2] show "kept s s'" unfolding moves_def using kept_trans by blast
  show "channels s' = (channels s)(socket c := None)" using removeChannel_kept(2) [OF rm st(1) wf2] st(2) ch(3) by simp
  show "dom (store s') = dom (store s)"
    using removeChannel_kept(3) [OF rm st(1) wf2] c2(2) by (simp add: frame_def set_conn_def)
  obtain m st p where "s' = s2\<lparr>channels := m, store := st, pollfds := p\<rparr>" using removeChannel_frame [OF rm] by blast
  then have "calls s' = calls s2" "net_state.more s' = net_state.more s2" by simp_all
  moreover have "net_state.more s2 = net_state.more s" using c2(2) by (simp add: frame_def set_conn_def)
  ultimately show "net_state.more s' = net_state.more s" by simp
  from \<open>calls s' = calls s2\<close> s2(1) show "calls s' = calls s" by (auto simp: disableAll_def set_conn_def dest!: setEvents_calls)
qed

end
