(* ===== verification/Server_Pass.thy ===== *)
theory Server_Pass
  imports Transfer_Server Conn_Steps
begin

section \<open>The callbacks of the server\<close>

text \<open>
  The invariant of the server while its loop dispatches events, and that every callback of
  \<open>src/test_multithreads.cc\<close>, \<open>src/TcpConnection.cpp\<close> and the event descriptor keeps it
  wherever it returns.  The set \<open>Y\<close> holds the loop's own channels, of the event descriptor and
  the timer descriptor.
\<close>

subsection \<open>The invariant of a pass\<close>

text \<open>
  The server holds the connections of the map and those that wait for their destruction.
  Every watched channel belongs to the acceptor, to the event descriptor or to a held
  connection, and its callbacks are bound to it.
\<close>

definition bound_to :: "nat set \<Rightarrow> 'm server_state_scheme \<Rightarrow> nat \<Rightarrow> net_callback Channel \<Rightarrow> bool" where
  "bound_to Y s k ck \<longleftrightarrow>
     (k = acceptChannel s \<and> readCallback ck = Some AcceptRead \<and> writeCallback ck = None
        \<and> errorCallback ck = None \<and> closeCallback ck = None)
   \<or> (k \<noteq> acceptChannel s \<and> k \<in> Y \<and> readCallback ck \<in> {Some WakeupRead, Some TimerRead} \<and> writeCallback ck = None
        \<and> errorCallback ck = None \<and> closeCallback ck = None)
   \<or> (k \<noteq> acceptChannel s \<and> (\<exists>a \<in> held s. channel_at s a = k \<and> readCallback ck = Some (ConnRead a)
        \<and> writeCallback ck = Some (ConnWrite a) \<and> errorCallback ck = Some (ConnError a) \<and> closeCallback ck = Some (ConnClose a)))"

definition pass_inv :: "nat set \<Rightarrow> 'm server_state_scheme \<Rightarrow> bool" where
  "pass_inv Y s \<longleftrightarrow> server_wf s \<and> (\<forall>k ck. attached s k ck \<longrightarrow> bound_to Y s k ck)
     \<and> (\<exists>ck. attached s (acceptChannel s) ck)
     \<and> (\<forall>k \<in> Y. \<exists>ck. attached s k ck \<and> readCallback ck \<in> {Some WakeupRead, Some TimerRead})
     \<and> (\<forall>a \<in> held s. \<exists>ck. attached s (channel_at s a) ck \<and> readCallback ck = Some (ConnRead a))
     \<and> (\<forall>f \<in> set (pendingFunctors s). \<exists>a. f = ConnectDestroyed a \<or> f = WriteComplete a)"

text \<open>What every handler but the acceptor's leaves alone.\<close>

definition stays :: "nat set \<Rightarrow> 'm server_state_scheme \<Rightarrow> 'm server_state_scheme \<Rightarrow> bool" where
  "stays Y s s' \<longleftrightarrow> pass_inv Y s' \<and> kept s s' \<and> channels s' = channels s \<and> dom (store s') = dom (store s)
     \<and> dom (conns s') = dom (conns s) \<and> held s' = held s \<and> acceptChannel s' = acceptChannel s
     \<and> calls s \<le> calls s'"

lemma stays_trans: "stays Y s s1 \<Longrightarrow> stays Y s1 s2 \<Longrightarrow> stays Y s s2"
  unfolding stays_def using kept_trans by auto

lemma pass_invD:
  assumes "pass_inv Y s"
  shows "server_wf s" "server_inv (doomed_of (pendingFunctors s)) s" "poll_wf s"
    "\<And>k ck. attached s k ck \<Longrightarrow> bound_to Y s k ck" "\<exists>ck. attached s (acceptChannel s) ck"
    "\<forall>f \<in> set (pendingFunctors s). \<exists>a. f = ConnectDestroyed a \<or> f = WriteComplete a"
    "\<And>a. a \<in> held s \<Longrightarrow> \<exists>ck. attached s (channel_at s a) ck \<and> readCallback ck = Some (ConnRead a)"
    "\<And>k. k \<in> Y \<Longrightarrow> \<exists>ck. attached s k ck \<and> readCallback ck \<in> {Some WakeupRead, Some TimerRead}"
  using assms server_invD(1) unfolding pass_inv_def server_wf_def by blast+

lemma heldE:
  assumes "pass_inv Y s" and "a \<in> held s"
  obtains c ch where "conn_at s a c ch" "conns s a = Some c" "state c = kConnected \<or> state c = kDisconnecting"
    "channel_at s a = channel c"
  using memberE [OF server_invD(4) [OF pass_invD(2) [OF assms(1)]]] assms(2) unfolding held_def by metis

lemma attached_kept:
  assumes "kept s s'" and "channels s' = channels s" and "dom (store s') = dom (store s)" and "attached s' k ck'"
  shows "\<exists>ck. attached s k ck \<and> same_binding ck ck'"
proof -
  have st: "store s' k = Some ck'" "channels s' (fd ck') = Some k" using assms(4) by (simp_all add: attached_def)
  then obtain ck where ck: "store s k = Some ck" using assms(3) by (metis domD domI)
  then obtain c2 where "store s' k = Some c2" "same_binding ck c2" using assms(1) unfolding kept_def by blast
  with st ck assms(2) show ?thesis by (auto simp: attached_def same_binding_def)
qed

lemma kept_attached:
  assumes "kept s s'" and "channels s' = channels s" and "attached s k ck"
  shows "\<exists>ck'. attached s' k ck' \<and> same_binding ck ck'"
  using assms unfolding kept_def attached_def by (metis same_binding_def)

lemma bound_cong:
  assumes "bound_to Y s k ck" and "same_binding ck ck'" and "acceptChannel s' = acceptChannel s"
    and "held s' = held s" and "\<And>a. a \<in> held s \<Longrightarrow> channel_at s' a = channel_at s a"
  shows "bound_to Y s' k ck'"
  using assms unfolding bound_to_def same_binding_def by auto

lemma staysI:
  assumes inv: "pass_inv Y s" and wf: "server_wf s'" and k: "kept s s'" "channels s' = channels s"
    and d: "dom (store s') = dom (store s)" "dom (conns s') = dom (conns s)"
    and o: "held s' = held s" "acceptChannel s' = acceptChannel s" "calls s \<le> calls s'"
    and ch: "\<And>a. a \<in> held s \<Longrightarrow> channel_at s' a = channel_at s a"
    and p: "\<forall>f \<in> set (pendingFunctors s'). \<exists>a. f = ConnectDestroyed a \<or> f = WriteComplete a"
  shows "stays Y s s'"
proof -
  have "bound_to Y s' j cj" if "attached s' j cj" for j cj
    using attached_kept [OF k d(1) that] bound_cong [OF pass_invD(4) [OF inv] _ o(2,1) ch] by blast
  moreover have "\<exists>ck. attached s' (acceptChannel s') ck"
    using pass_invD(5) [OF inv] kept_attached [OF k] o(2) by metis
  moreover have "\<exists>ck. attached s' (channel_at s' a) ck \<and> readCallback ck = Some (ConnRead a)" if "a \<in> held s'" for a
  proof -
    have a: "a \<in> held s" using that o(1) by simp
    then obtain ck where "attached s (channel_at s a) ck" "readCallback ck = Some (ConnRead a)" using pass_invD(7) [OF inv] by blast
    with kept_attached [OF k this(1)] ch [OF a] show ?thesis by (auto simp: same_binding_def)
  qed
  moreover have "\<exists>ck. attached s' j ck \<and> readCallback ck \<in> {Some WakeupRead, Some TimerRead}" if "j \<in> Y" for j
    using pass_invD(8) [OF inv that] kept_attached [OF k] unfolding same_binding_def by metis
  ultimately show ?thesis
    using assms unfolding stays_def pass_inv_def by blast
qed

lemma moves_stay:
  assumes inv: "pass_inv Y s" and a: "a \<in> held s" and c: "conns s a = Some c" and mv: "moves a c s s'"
  shows "stays Y s s'"
proof -
  obtain c0 where "conns s a = Some c0" "state c0 = kConnected \<or> state c0 = kDisconnecting"
    using heldE [OF inv a] by metis
  moreover obtain c' ch' where m: "conn_at s' a c' ch'" "frame a c c' s s'" "state c' = state c"
    using movesE [OF mv] .
  ultimately have "state c' = kConnected \<or> state c' = kDisconnecting" using c by simp
  note fr = server_wf_frame [OF pass_invD(1) [OF inv] a c m(2,1) this]
  have cs: "conns s' = (conns s)(a \<mapsto> c')" "channel c' = channel c" using m(2) by (simp_all add: frame_def)
  show ?thesis
  proof (rule staysI [OF inv fr(1) _ _ _ _ fr(2)])
    show "kept s s'" "calls s \<le> calls s'" using mv by (simp_all add: moves_def)
    show "channels s' = channels s" "dom (store s') = dom (store s)" using m(2) by (simp_all add: frame_def)
    show "dom (conns s') = dom (conns s)" using cs c by auto
    show "acceptChannel s' = acceptChannel s" using m(2) by (intro more_fields(6)) (simp add: frame_def)
    show "channel_at s' b = channel_at s b" for b using cs c by (simp add: channel_at_def)
    show "\<forall>f \<in> set (pendingFunctors s'). \<exists>a. f = ConnectDestroyed a \<or> f = WriteComplete a"
      using m(2) pass_invD(6) [OF inv] by (auto simp: frame_def)
  qed
qed

lemma remove_stays:
  assumes inv: "pass_inv Y s" and a: "a \<in> held s" and run: "removeConnectionInLoop a s = Inr s'"
  shows "stays Y s s'" and "a \<in> set (mapped s)" and "server_state.more s' = server_state.more s"
proof -
  note i = pass_invD(2) [OF inv]
  show am: "a \<in> set (mapped s)"
    using remove_doomed [OF i, of a] a run by (auto simp: held_def)
  obtain s2 where s2: "removeConnectionInLoop a s = Inr s2" "server_inv (doomed_of (pendingFunctors s) @ [a]) s2"
      "pendingFunctors s2 = pendingFunctors s @ [ConnectDestroyed a]"
      "connections s2 = filter (\<lambda>p. snd p \<noteq> a) (connections s)" "conns s2 = conns s" "calls s2 = calls s"
      "server_state.more s2 = server_state.more s"
    using remove_mapped [OF i am] by blast
  then have e: "s2 = s'" using run by simp
  have st: "store s' = store s" "channels s' = channels s" "acceptChannel s' = acceptChannel s"
    using run by (auto simp: removeConnectionInLoop_def with_conn_def queue_in_def queueInLoop_def push_functor_def
        wakeup_def Let_def split: option.splits if_splits prod.splits)
  show "stays Y s s'"
  proof (rule staysI [OF inv])
    show "server_wf s'" using s2(2,3) e by (simp add: server_wf_def)
    have "set (mapped s') = set (mapped s) - {a}" using s2(4) e by (auto simp: mapped_def)
    then show "held s' = held s" using s2(3) e am by (auto simp: held_def)
    show "\<forall>f \<in> set (pendingFunctors s'). \<exists>a. f = ConnectDestroyed a \<or> f = WriteComplete a"
      using s2(3) e pass_invD(6) [OF inv] by auto
    show "kept s s'" using st(1) by (rule kept_same)
  qed (use s2 e st in \<open>simp_all add: channel_at_def\<close>)
  show "server_state.more s' = server_state.more s" using s2(7) e by simp
qed

text \<open>Changes of fields that the invariant does not read.\<close>

lemma server_inv_kept:
  assumes inv: "server_inv D s" and wf: "poll_wf s'" and k: "kept s s'"
    and f: "channels s' = channels s" "loopId s' = loopId s" "conns s' = conns s" "connections s' = connections s"
      "nextConnId s' = nextConnId s" "server_name s' = server_name s" "pool s' = pool s"
  shows "server_inv D s'"
proof (rule server_inv_transfer [OF inv wf])
  show "distinct D" using server_invD(3) [OF inv] by simp
  fix b assume b: "b \<in> set (mapped s @ D)"
  obtain c ch where c: "conn_at s b c ch" "state c = kConnected \<or> state c = kDisconnecting"
    using memberE [OF server_invD(4) [OF inv b]] by blast
  obtain ch' where "attached s' (channel c) ch'" "same_binding ch ch'"
    using kept_attached [OF k f(1)] c(1) unfolding conn_at_def by blast
  then have "conn_at s' b c ch'" using c(1) wf f(2,3) by (simp add: conn_at_def same_binding_def)
  with c(2) show "member s' b" unfolding member_def by blast
  show "name_at s' b = name_at s b \<and> channel_at s' b = channel_at s b"
    by (simp add: name_at_def channel_at_def f)
qed (use f in simp_all)

lemma quiet_stays:
  assumes inv: "pass_inv Y s" and wf: "poll_wf s'" and k: "kept s s'" "dom (store s') = dom (store s)"
    and f: "channels s' = channels s" "loopId s' = loopId s" "conns s' = conns s" "pendingFunctors s' = pendingFunctors s"
      "connections s' = connections s" "nextConnId s' = nextConnId s" "server_name s' = server_name s" "pool s' = pool s"
      "acceptChannel s' = acceptChannel s" "calls s \<le> calls s'"
  shows "stays Y s s'"
  using server_inv_kept [OF pass_invD(2) [OF inv] wf k(1)] f k pass_invD(6) [OF inv]
  by (intro staysI [OF inv]) (simp_all add: server_wf_def held_def mapped_def channel_at_def)

subsection \<open>The callbacks keep the invariant\<close>

text \<open>The packet the server greets with is of a size that can be appended.\<close>

definition app_inv :: "nat set \<Rightarrow> 'm app_state_scheme \<Rightarrow> bool" where
  "app_inv Y s \<longleftrightarrow> pass_inv Y s \<and> length (getPacketAsString (serPacket s)) \<le> vec_max"

definition app_stays :: "nat set \<Rightarrow> 'm app_state_scheme \<Rightarrow> 'm app_state_scheme \<Rightarrow> bool" where
  "app_stays Y s s' \<longleftrightarrow> stays Y s s' \<and> app_inv Y s'"

lemma app_stays_trans: "app_stays Y s s1 \<Longrightarrow> app_stays Y s1 s2 \<Longrightarrow> app_stays Y s s2"
  unfolding app_stays_def using stays_trans by blast

lemma app_staysD:
  assumes "app_stays Y s s'"
  shows "app_inv Y s'" "pass_inv Y s'" "held s' = held s" "stays Y s s'"
  using assms by (simp_all add: app_stays_def stays_def)

lemma app_staysI:
  assumes "app_inv Y s" and "stays Y s s'" and "serPacket s' = serPacket s"
  shows "app_stays Y s s'"
  using assms by (simp add: app_stays_def app_inv_def stays_def)

lemma app_connE:
  assumes "app_inv Y s" and "a \<in> held s"
  obtains c ch where "conn_at s a c ch" "conns s a = Some c"
  using heldE [of _ s a] assms unfolding app_inv_def by metis

lemma app_moves:
  assumes inv: "app_inv Y s" and a: "a \<in> held s" and c: "conns s a = Some c" and mv: "moves a c s s'"
  shows "app_stays Y s s'"
proof -
  have "net_state.more s' = net_state.more s" using mv by (auto simp: moves_def frame_def)
  then have "serPacket s' = serPacket s" using more_fields(10) [of s' s] by (cases s; cases s'; simp)
  moreover have "stays Y s s'" using inv a c mv by (intro moves_stay) (simp_all add: app_inv_def)
  ultimately show ?thesis by (intro app_staysI [OF inv])
qed

lemma app_remove:
  assumes inv: "app_inv Y s" and a: "a \<in> held s" and run: "removeConnection True a s = Inr s'"
  shows "app_stays Y s s'"
proof -
  have p: "pass_inv Y s" using inv by (simp add: app_inv_def)
  have r: "removeConnectionInLoop a s = Inr s'" using run by (simp add: removeConnection_in_loop)
  have "serPacket s' = serPacket s" using remove_stays(3) [OF p a r] by (cases s; cases s'; simp)
  with remove_stays(1) [OF p a r] show ?thesis by (intro app_staysI [OF inv])
qed

lemma app_table: "app_inv Y s \<Longrightarrow> app_stays Y s (s\<lparr>registerTable := t\<rparr>)"
proof (rule app_staysI)
  assume inv: "app_inv Y s"
  then have p: "pass_inv Y s" by (simp add: app_inv_def)
  show "stays Y s (s\<lparr>registerTable := t\<rparr>)"
    by (rule quiet_stays [OF p]) (use pass_invD(3) [OF p] poll_cong(1) [of "s\<lparr>registerTable := t\<rparr>" s] in
        \<open>simp_all add: kept_same\<close>)
qed simp_all

lemma app_take:
  assumes inv: "app_inv Y s" and a: "a \<in> held s" and c: "conns s a = Some c"
    and "retrieveAsString (inputBuffer c) = (m, buf)"
  shows "app_stays Y s (set_conn a (c\<lparr>inputBuffer := buf\<rparr>) s)" and "length m \<le> vec_max"
proof -
  obtain ch where ch: "conn_at s a c ch" using app_connE [OF inv a] c by (metis option.inject)
  then have wf: "buf_wf (inputBuffer c)" by (simp add: conn_at_def)
  note r = retrieveAsString_spec [OF wf] assms(4)
  have "buf_wf buf" using r by simp
  from write_moves(4) [OF ch this] show "app_stays Y s (set_conn a (c\<lparr>inputBuffer := buf\<rparr>) s)"
    by (intro app_moves [OF inv a c])
  have "m = readable (inputBuffer c)" using r by simp
  then show "length m \<le> vec_max" using wf by (auto simp: readable_def buf_wf_def)
qed

lemma app_send:
  assumes inv: "app_inv Y s" and a: "a \<in> held s" and m: "length m \<le> vec_max" and run: "send K True m a s = Inr s'"
  shows "app_stays Y s s'"
proof -
  obtain c ch where c: "conn_at s a c ch" "conns s a = Some c" using app_connE [OF inv a] .
  show ?thesis by (rule app_moves [OF inv a c(2) send_moves [OF c(1) m run]])
qed

lemma app_close:
  assumes inv: "app_inv Y s" and a: "a \<in> held s" and run: "handleClose (removeConnection True) a s = Inr s'"
  shows "app_stays Y s s'"
proof -
  obtain c ch where c: "conn_at s a c ch" "conns s a = Some c" using app_connE [OF inv a] .
  obtain s1 where s1: "disableAll (channel c) s = Inr s1" "removeConnection True a s1 = Inr s'"
    using run c(2) by (auto simp: handleClose_def with_conn_def split: if_splits)
  have "moves a c s s1" using moves_events [OF c(1)] s1(1) by (simp add: disableAll_def)
  then have st: "app_stays Y s s1" by (rule app_moves [OF inv a c(2)])
  have "app_stays Y s1 s'" using app_remove [OF app_staysD(1) [OF st] _ s1(2)] app_staysD(3) [OF st] a by simp
  with st show ?thesis by (rule app_stays_trans)
qed

lemma app_stays_refl: "app_inv Y s \<Longrightarrow> app_stays Y s s"
  unfolding app_stays_def stays_def app_inv_def by (simp add: kept_same)

lemma encry_empty: "encry p = Inr r \<Longrightarrow> r = []"
  by (simp add: encry_result split: if_splits)

lemma first_reply_stays:
  assumes inv: "app_inv Y s" and a: "a \<in> held s" and run: "first_reply K a s = Inr s'"
  shows "app_stays Y s s'"
proof -
  obtain c ch where c: "conn_at s a c ch" "conns s a = Some c" using app_connE [OF inv a] .
  obtain m buf where mb: "retrieveAsString (inputBuffer c) = (m, buf)" by (cases "retrieveAsString (inputBuffer c)")
  let ?s1 = "set_conn a (c\<lparr>inputBuffer := buf\<rparr>) s"
  obtain p r where r: "encry p = Inr r" "send K True r a ?s1 = Inr s'"
    using run c(2) mb by (auto simp: first_reply_def with_conn_def Let_def)
  have st: "app_stays Y s ?s1" by (rule app_take [OF inv a c(2) mb])
  have "app_stays Y ?s1 s'"
    using app_staysD(1,3) [OF st] a r(2) encry_empty [OF r(1)] by (intro app_send [of Y ?s1 a r K]) simp_all
  with st show ?thesis by (rule app_stays_trans)
qed

lemma second_answer_stays:
  assumes inv: "app_inv Y s" and a: "a \<in> held s" and run: "second_answer K a k s = Inr s'"
  shows "app_stays Y s s'"
proof -
  obtain c ch where c: "conn_at s a c ch" "conns s a = Some c" using app_connE [OF inv a] .
  obtain m buf where mb: "retrieveAsString (inputBuffer c) = (m, buf)" by (cases "retrieveAsString (inputBuffer c)")
  let ?s1 = "set_conn a (c\<lparr>inputBuffer := buf\<rparr>) s"
  consider r where "encry fresh_packet = Inr r" "send K True r a ?s1 = Inr s'"
    | s2 where "removeConnection True a ?s1 = Inr s2" "s' = s2\<lparr>registerTable := myUnregister k (registerTable s2)\<rparr>"
    using run c(2) mb by (auto simp: second_answer_def with_conn_def Let_def split: if_splits)
  moreover have st: "app_stays Y s ?s1" by (rule app_take [OF inv a c(2) mb])
  note st1 = app_staysD(1,3) [OF st]
  ultimately have "app_stays Y ?s1 s'"
  proof cases
    case 1
    with st1 a encry_empty [OF 1(1)] show ?thesis by (intro app_send [of Y ?s1 a r K]) simp_all
  next
    case 2
    have r: "app_stays Y ?s1 s2" using 2(1) st1 a by (intro app_remove [of Y ?s1 a]) simp_all
    show ?thesis unfolding 2(2) by (rule app_stays_trans [OF r app_table [OF app_staysD(1) [OF r]]])
  qed
  with st show ?thesis by (rule app_stays_trans)
qed

lemma dispatch_step_stays:
  assumes inv: "app_inv Y s" and b: "snd it \<in> held s" and m: "length m \<le> vec_max"
    and run: "dispatch_step K a m it s = Inr s'"
  shows "app_stays Y s s'"
proof -
  obtain c ch where c: "conn_at s (snd it) c ch" "conns s (snd it) = Some c" using app_connE [OF inv b] .
  show ?thesis
    using run c(2) app_send [OF inv b m] app_remove [OF inv b] app_stays_refl [OF inv]
    by (auto simp: dispatch_step_def with_conn_def Let_def split: if_splits)
qed

lemma dispatch_stays:
  assumes "app_inv Y s" and "snd ` set its \<subseteq> held s" and m: "length m \<le> vec_max"
    and "foldR (dispatch_step K a m) its s = Inr s'"
  shows "app_stays Y s s'"
  using assms(1,2,4)
proof (induction its arbitrary: s)
  case Nil
  then show ?case using app_stays_refl by simp
next
  case (Cons it its)
  obtain s1 where s1: "dispatch_step K a m it s = Inr s1" "foldR (dispatch_step K a m) its s1 = Inr s'"
    using Cons.prems(3) by auto
  have st: "app_stays Y s s1" using Cons.prems(1,2) s1(1) by (intro dispatch_step_stays [OF _ _ m]) simp_all
  have "app_stays Y s1 s'" using Cons.IH [OF _ _ s1(2)] app_staysD(1,3) [OF st] Cons.prems(2) by simp
  with st show ?case by (rule app_stays_trans)
qed

lemma relay_stays:
  assumes inv: "app_inv Y s" and a: "a \<in> held s" and run: "onMessage_relay K a s = Inr s'"
  shows "app_stays Y s s'"
proof -
  obtain c ch where c: "conn_at s a c ch" "conns s a = Some c" using app_connE [OF inv a] .
  obtain m buf where mb: "retrieveAsString (inputBuffer c) = (m, buf)" by (cases "retrieveAsString (inputBuffer c)")
  let ?s1 = "set_conn a (c\<lparr>inputBuffer := buf\<rparr>) s"
  have r: "foldR (dispatch_step K a m) (connections s) ?s1 = Inr s'"
    using run c(2) mb by (simp add: onMessage_relay_def with_conn_def Let_def)
  note t = app_take [OF inv a c(2) mb]
  have "snd ` set (connections s) \<subseteq> held ?s1"
    unfolding app_staysD(3) [OF t(1)] by (auto simp: held_def mapped_def)
  then have "app_stays Y ?s1 s'" using dispatch_stays [OF app_staysD(1) [OF t(1)] _ t(2) r] by simp
  with t(1) show ?thesis by (rule app_stays_trans)
qed

lemma onMessage_stays:
  assumes inv: "app_inv Y s" and a: "a \<in> held s" and run: "onMessage K a s = Inr s'"
  shows "app_stays Y s s'"
proof -
  obtain c ch where c: "conn_at s a c ch" "conns s a = Some c" using app_connE [OF inv a] .
  let ?k = "getAsString (peerAddr c)"
  obtain t where t: "(if getValue ?k t = 1 then onMessage_first K a ?k (s\<lparr>registerTable := t\<rparr>)
      else if getValue ?k t = 2 then onMessage_second K a ?k (s\<lparr>registerTable := t\<rparr>)
      else onMessage_relay K a (s\<lparr>registerTable := t\<rparr>)) = Inr s'"
    using run c(2) by (auto simp: onMessage_def with_conn_def Let_def)
  have any: "app_inv Y (s\<lparr>registerTable := u\<rparr>)" "a \<in> held (s\<lparr>registerTable := u\<rparr>)" "app_stays Y s (s\<lparr>registerTable := u\<rparr>)" for u
    using app_table [OF inv, of u] app_staysD(1,3) a by auto
  from t consider u where "first_reply K a (s\<lparr>registerTable := u\<rparr>) = Inr s'"
    | u where "second_answer K a ?k (s\<lparr>registerTable := u\<rparr>) = Inr s'" | "onMessage_relay K a (s\<lparr>registerTable := t\<rparr>) = Inr s'"
    by (auto simp: onMessage_first_def onMessage_second_def split: if_splits)
  then show ?thesis
  proof cases
    case 1
    show ?thesis by (rule app_stays_trans [OF any(3) first_reply_stays [OF any(1,2) 1]])
  next
    case 2
    show ?thesis by (rule app_stays_trans [OF any(3) second_answer_stays [OF any(1,2) 2]])
  next
    case 3
    show ?thesis by (rule app_stays_trans [OF any(3) relay_stays [OF any(1,2) 3]])
  qed
qed

lemma read_stays:
  assumes K: "reads_fit K" and inv: "app_inv Y s" and a: "a \<in> held s"
    and run: "TcpConnection_handleRead K (onMessage K) (removeConnection True) a s = Inr s'"
  shows "app_stays Y s s'"
proof -
  obtain c ch where c: "conn_at s a c ch" "conns s a = Some c" using app_connE [OF inv a] .
  obtain s1 where mv: "moves a c s s1" and b: "onMessage K a s1 = Inr s' \<or> handleClose (removeConnection True) a s1 = Inr s'
      \<or> handleError a s1 = Inr s'"
    using handleRead_moves [OF K c(1) run] .
  have st: "app_stays Y s s1" by (rule app_moves [OF inv a c(2) mv])
  note i1 = app_staysD(1) [OF st]
  have a1: "a \<in> held s1" using a app_staysD(3) [OF st] by simp
  obtain c1 ch1 where c1: "conn_at s1 a c1 ch1" "conns s1 a = Some c1" using app_connE [OF i1 a1] .
  have "app_stays Y s1 s'"
    using b onMessage_stays [OF i1 a1] app_close [OF i1 a1] app_moves [OF i1 a1 c1(2) handleError_moves [OF c1(1)]]
    by blast
  with st show ?thesis by (rule app_stays_trans)
qed

text \<open>The callbacks of an owned connection and of the event descriptor.\<close>

definition serves :: "'m server_state_scheme \<Rightarrow> net_callback \<Rightarrow> bool" where
  "serves s cb \<longleftrightarrow> cb = WakeupRead \<or> cb = TimerRead \<or> (\<exists>a \<in> held s. cb \<in> {ConnRead a, ConnWrite a, ConnClose a, ConnError a})"

lemma callback_stays:
  assumes K: "reads_fit (w_kernel W)" and inv: "app_inv Y s" and cb: "serves s cb" and run: "run_callback W cb s = Inr s'"
  shows "app_stays Y s s'"
proof (cases "cb = WakeupRead \<or> cb = TimerRead")
  case True
  have p: "pass_inv Y s" using inv by (simp add: app_inv_def)
  have wf: "poll_wf t = poll_wf s" if "store t = store s" "pollfds t = pollfds s" "channels t = channels s" for t :: "'a app_state_scheme"
    using poll_cong(1) [OF that] .
  have s': "s' = EventLoop_handleRead s \<or> s' = s\<lparr>calls := calls s + 1\<rparr>" using True run by auto
  then have "stays Y s s'"
    by (elim disjE) (rule quiet_stays [OF p]; simp add: wf pass_invD(3) [OF p] kept_same EventLoop_handleRead_def)+
  then show ?thesis using s' by (intro app_staysI [OF inv]) (auto simp: EventLoop_handleRead_def)
next
  case False
  then obtain a where a: "a \<in> held s" "cb \<in> {ConnRead a, ConnWrite a, ConnClose a, ConnError a}"
    using cb by (auto simp: serves_def)
  obtain c ch where c: "conn_at s a c ch" "conns s a = Some c" using app_connE [OF inv a(1)] .
  from a(2) run show ?thesis
    using read_stays [OF K inv a(1)] app_close [OF inv a(1)]
      app_moves [OF inv a(1) c(2) handleWrite_moves [OF c(1)]] app_moves [OF inv a(1) c(2) handleError_moves [OF c(1)]]
    by auto
qed

subsection \<open>Dispatching an event\<close>

definition watched :: "('cb, 'm) poll_state_scheme \<Rightarrow> nat \<Rightarrow> bool" where
  "watched s k \<longleftrightarrow> (\<exists>ck. attached s k ck)"

lemma watched_stays: "stays Y s s' \<Longrightarrow> watched s k \<Longrightarrow> watched s' k"
  unfolding watched_def stays_def using kept_attached by blast

lemma watched_run:
  assumes "app_inv Y s" and "watched s k"
  obtains c where "store s k = Some c" "bound_to Y s k c" "with_channel k f s = f c s"
  using assms unfolding watched_def app_inv_def
  by (metis attached_def option.simps(5) pass_invD(4) with_channel_def)

lemma opt_stays:
  assumes K: "reads_fit (w_kernel W)" and inv: "app_inv Y s" and b: "bound_to Y s k c" and k: "k \<noteq> acceptChannel s"
    and sel: "cb \<in> {readCallback c, writeCallback c, errorCallback c, closeCallback c}"
    and run: "run_opt (run_callback W) cb s = Inr s'"
  shows "app_stays Y s s'"
proof (cases cb)
  case None
  with run app_stays_refl [OF inv] show ?thesis by (simp add: run_opt_def)
next
  case (Some f)
  have "serves s f" using b k sel Some by (auto simp: bound_to_def serves_def)
  with run Some callback_stays [OF K inv] show ?thesis by (simp add: run_opt_def)
qed

lemma flag_stays:
  assumes inv: "app_inv Y s" and c: "store s k = Some c"
  shows "app_stays Y s (s\<lparr>store := (store s)(k \<mapsto> c\<lparr>eventHandling := b\<rparr>)\<rparr>)"
proof -
  have p: "pass_inv Y s" using inv by (simp add: app_inv_def)
  let ?s = "s\<lparr>store := (store s)(k \<mapsto> c\<lparr>eventHandling := b\<rparr>)\<rparr>"
  have "kept s ?s" by (rule kept_put [OF c]) simp_all
  moreover have "poll_wf ?s" by (rule poll_wf_store [OF pass_invD(3) [OF p] c]) simp_all
  ultimately have "stays Y s ?s" using c by (intro quiet_stays [OF p]) auto
  then show ?thesis by (rule app_staysI [OF inv]) simp
qed

text \<open>A continuation of the handler that, wherever it returns, leaves everything in order.\<close>

definition settles :: "nat set \<Rightarrow> nat \<Rightarrow> ('m app_state_scheme \<Rightarrow> 'm app_state_scheme res) \<Rightarrow> bool" where
  "settles Y k g \<longleftrightarrow> (\<forall>s s'. app_inv Y s \<longrightarrow> watched s k \<longrightarrow> k \<noteq> acceptChannel s \<longrightarrow> g s = Inr s' \<longrightarrow> app_stays Y s s')"

lemma settles_after:
  assumes "settles Y k g" and "app_stays Y s s1" and "watched s k" and "k \<noteq> acceptChannel s" and "g s1 = Inr s'"
  shows "app_stays Y s s'"
proof -
  have "app_inv Y s1" "watched s1 k" "k \<noteq> acceptChannel s1"
    using assms(2-4) watched_stays [OF app_staysD(4) [OF assms(2)]] by (simp_all add: app_stays_def stays_def)
  then have "app_stays Y s1 s'" using assms(1,5) by (simp add: settles_def)
  with assms(2) show ?thesis by (rule app_stays_trans)
qed

lemma stage_settles:
  assumes K: "reads_fit (w_kernel W)"
    and sel: "\<And>c. sel c \<in> {readCallback c, writeCallback c, errorCallback c, closeCallback c}" and g: "settles Y k g"
  shows "settles Y k (with_channel k (\<lambda>c ps. res_bind (if P c then run_opt (run_callback W) (sel c) ps else Inr ps) g))"
  unfolding settles_def
proof (intro allI impI)
  fix s s' :: "'a app_state_scheme"
  assume inv: "app_inv Y s" and w: "watched s k" and k: "k \<noteq> acceptChannel s"
    and run: "with_channel k (\<lambda>c ps. res_bind (if P c then run_opt (run_callback W) (sel c) ps else Inr ps) g) s = Inr s'"
  obtain c where c: "store s k = Some c" "bound_to Y s k c" using watched_run [OF inv w] by metis
  obtain s1 where s1: "(if P c then run_opt (run_callback W) (sel c) s else Inr s) = Inr s1" "g s1 = Inr s'"
    using run c(1) by (auto simp: with_channel_def)
  have "app_stays Y s s1"
    using s1(1) opt_stays [OF K inv c(2) k sel] app_stays_refl [OF inv] by (cases "P c") simp_all
  from settles_after [OF g this w k s1(2)] show "app_stays Y s s'" .
qed

lemma flag_settles:
  "settles Y k (with_channel k (\<lambda>c ps. Inr (ps\<lparr>store := (store ps)(k \<mapsto> c\<lparr>eventHandling := b\<rparr>)\<rparr>)))"
  unfolding settles_def with_channel_def using flag_stays by (auto split: option.splits)

lemma event_stays:
  assumes K: "reads_fit (w_kernel W)" and inv: "app_inv Y s" and w: "watched s k" and k: "k \<noteq> acceptChannel s"
    and run: "handleEvent (run_callback W) k s = Inr s'"
  shows "app_stays Y s s'"
proof -
  obtain c where c: "store s k = Some c" "bound_to Y s k c" using watched_run [OF inv w] by metis
  let ?s1 = "s\<lparr>store := (store s)(k \<mapsto> c\<lparr>eventHandling := True\<rparr>)\<rparr>"
  let ?g = "with_channel k (\<lambda>c ps. res_bind
         (if revents c AND (POLLERR OR POLLNVAL) \<noteq> 0 then run_opt (run_callback W) (errorCallback c) ps else Inr ps)
       (with_channel k (\<lambda>c ps. res_bind
         (if revents c AND (POLLIN OR POLLPRI OR POLLRDHUP) \<noteq> 0
          then run_opt (run_callback W) (readCallback c) ps else Inr ps)
       (with_channel k (\<lambda>c ps. res_bind
         (if revents c AND POLLOUT \<noteq> 0 then run_opt (run_callback W) (writeCallback c) ps else Inr ps)
       (with_channel k (\<lambda>c ps.
          Inr (ps\<lparr>store := (store ps)(k \<mapsto> c\<lparr>eventHandling := False\<rparr>)\<rparr>))))))))"
  have g: "settles Y k ?g" by (intro stage_settles [OF K] flag_settles) simp_all
  obtain s2 where s2: "(if revents c AND POLLHUP \<noteq> 0 \<and> revents c AND POLLIN = 0
      then run_opt (run_callback W) (closeCallback c) ?s1 else Inr ?s1) = Inr s2" and r2: "?g s2 = Inr s'"
    using run c(1) unfolding handleEvent_def with_channel_def [of k _ s] by (simp add: Let_def) blast
  have t1: "app_stays Y s ?s1" by (rule flag_stays [OF inv c(1)])
  have "bound_to Y ?s1 k c"
    using c(2) by (rule bound_cong) (use app_staysD(3) [OF t1] in \<open>simp_all add: channel_at_def\<close>)
  then have "app_stays Y ?s1 s2"
    using s2 opt_stays [OF K app_staysD(1) [OF t1]] k app_stays_refl [OF app_staysD(1) [OF t1]]
    by (auto split: if_splits)
  with t1 have "app_stays Y s s2" by (rule app_stays_trans)
  from settles_after [OF g this w k r2] show ?thesis .
qed

end
