(* ===== verification/Call_Count.thy ===== *)
theory Call_Count
  imports Transfer_Server Conn_Steps
begin

section \<open>Counting the calls into the kernel\<close>

text \<open>
  The number of calls into the kernel, by which the answers of the outside are indexed, never
  decreases: not in any handler, not in any functor, whatever the state.
\<close>

lemma sendInLoop_calls:
  assumes "sendInLoop K m a s = Inr s'"
  shows "calls s \<le> calls s'"
proof -
  obtain c ch where c: "conns s a = Some c" "store s (channel c) = Some ch"
    using assms by (auto simp: sendInLoop_def with_conn_def with_channel_def split: option.splits)
  let ?w = "snd (sys_write K (fd ch) (c_strlen_prefix m) s)"
  obtain r s2 where "s2 = s \<or> s2 = ?w \<or> s2 = queueInLoop True (WriteComplete a) ?w"
    and "(if nat r < length m then
            res_bind (Buffer_append (drop (nat r) m) (outputBuffer c)) (\<lambda>ob.
              let s3 = set_conn a (c\<lparr>outputBuffer := ob\<rparr>) s2
              in if \<not> isWriting ch then enableWriting (channel c) s3 else Inr s3)
          else Inr s2) = Inr s'"
    using sendInLoop_stages [OF c assms] by blast
  then show ?thesis by (auto simp: sys_write_def enableWriting_def set_conn_def Let_def dest!: setEvents_calls split: if_splits)
qed

lemma send_calls: "send K True m a s = Inr s' \<Longrightarrow> calls s \<le> calls s'"
  using sendInLoop_calls by (auto simp: send_def with_conn_def split: option.splits if_splits)

lemma removal_calls:
  shows "removeConnection True a s = Inr s' \<Longrightarrow> calls s' = calls s"
    and "handleClose (removeConnection True) a s = Inr s' \<Longrightarrow> calls s' = calls s"
proof -
  have r: "calls t' = calls t" if "removeConnectionInLoop a t = Inr t'" for t t' :: "'a server_state_scheme"
    using that by (auto simp: removeConnectionInLoop_def with_conn_def queue_in_def Let_def split: prod.splits option.splits if_splits)
  then show "removeConnection True a s = Inr s' \<Longrightarrow> calls s' = calls s" by (simp add: removeConnection_in_loop)
  show "handleClose (removeConnection True) a s = Inr s' \<Longrightarrow> calls s' = calls s"
    by (auto simp: handleClose_def with_conn_def removeConnection_in_loop disableAll_def
        dest!: r setEvents_calls split: option.splits if_splits)
qed

lemma drained_calls:
  assumes "res_bind (disableWriting k s) (\<lambda>s3.
        let s4 = (if wc then queueInLoop True (WriteComplete a) s3 else s3)
        in if dis then shutdownInLoop a s4 else Inr s4) = Inr s'"
  shows "calls s' = calls (s :: 'm net_state_scheme)"
proof -
  have sh: "calls t' = calls t" if "shutdownInLoop a t = Inr t'" for t t' :: "'m net_state_scheme"
    using that by (auto simp: shutdownInLoop_def with_conn_def with_channel_def split: option.splits)
  show ?thesis
    using assms by (cases dis; cases wc) (auto simp: disableWriting_def Let_def dest!: setEvents_calls sh)
qed

lemma handleWrite_calls:
  assumes "handleWrite K a s = Inr s'"
  shows "calls s \<le> calls s'"
proof -
  obtain c ch where c: "conns s a = Some c" "store s (channel c) = Some ch"
    using assms by (auto simp: handleWrite_def with_conn_def with_channel_def split: option.splits)
  consider "s' = s" | "s' = snd (sys_write K (fd ch) (readable (outputBuffer c)) s)"
    | ob where "(let s2 = set_conn a (c\<lparr>outputBuffer := ob\<rparr>) (snd (sys_write K (fd ch) (readable (outputBuffer c)) s)) in
             if readableBytes ob = 0 then
               res_bind (disableWriting (channel c) s2) (\<lambda>s3.
                 let s4 = (if writeCompleteCallback c then queueInLoop True (WriteComplete a) s3 else s3)
                 in if state c = kDisconnecting then shutdownInLoop a s4 else Inr s4)
             else Inr s2) = Inr s'"
    using handleWrite_stages [OF c assms] by blast
  then show ?thesis
  proof cases
    case (3 ob)
    let ?s2 = "set_conn a (c\<lparr>outputBuffer := ob\<rparr>) (snd (sys_write K (fd ch) (readable (outputBuffer c)) s))"
    have "calls s' = calls ?s2"
    proof (cases "readableBytes ob = 0")
      case True
      with 3 show ?thesis
        by (intro drained_calls [where wc = "writeCompleteCallback c" and dis = "state c = kDisconnecting"])
          (simp add: Let_def)
    next
      case False
      with 3 show ?thesis by (simp add: Let_def)
    qed
    then show ?thesis by (simp add: set_conn_def sys_write_def Let_def)
  qed (simp_all add: sys_write_def Let_def)
qed

lemma handleError_calls: "handleError a s = Inr s' \<Longrightarrow> calls s \<le> calls s'"
  by (auto simp: handleError_def with_conn_def with_channel_def split: option.splits)

lemma handshake_calls:
  shows "first_reply K a s = Inr s' \<Longrightarrow> calls s \<le> calls s'"
    and "second_answer K a k s = Inr s' \<Longrightarrow> calls s \<le> calls s'"
  by (auto simp: first_reply_def second_answer_def with_conn_def set_conn_def Let_def
      dest!: send_calls removal_calls split: option.splits prod.splits if_splits)

lemma relay_calls:
  assumes "onMessage_relay K a s = Inr s'"
  shows "calls s \<le> calls s'"
proof -
  have step: "calls t \<le> calls t'" if "dispatch_step K a m it t = Inr t'" for m it and t t' :: "'a app_state_scheme"
    using that by (auto simp: dispatch_step_def with_conn_def Let_def dest!: send_calls removal_calls
        split: option.splits if_splits)
  have all: "calls t \<le> calls t'" if "foldR (dispatch_step K a m) its t = Inr t'" for m its and t t' :: "'a app_state_scheme"
    using that
  proof (induction its arbitrary: t)
    case (Cons it its)
    then obtain t1 where "dispatch_step K a m it t = Inr t1" "foldR (dispatch_step K a m) its t1 = Inr t'" by auto
    with Cons.IH [of t1] step show ?case by fastforce
  qed simp
  show ?thesis
    using assms by (auto simp: onMessage_relay_def with_conn_def set_conn_def Let_def dest!: all
        split: option.splits prod.splits)
qed

lemma onMessage_calls:
  assumes "onMessage K a s = Inr s'"
  shows "calls s \<le> calls s'"
  using assms by (auto simp: onMessage_def onMessage_first_def onMessage_second_def with_conn_def Let_def
      dest!: handshake_calls relay_calls split: option.splits if_splits)

lemma onConnection_calls: "onConnection K a s = Inr s' \<Longrightarrow> calls s \<le> calls s'"
  using send_calls by (auto simp: onConnection_def with_conn_def split: option.splits if_splits)

lemma established_calls: "connectEstablished (onConnection K) a s = Inr s' \<Longrightarrow> calls s \<le> calls s'"
  by (fastforce simp: connectEstablished_def with_conn_def enableReading_def set_conn_def
      dest!: setEvents_calls onConnection_calls split: option.splits if_splits)

lemma newConnection_calls:
  assumes "newConnection (onConnection K) new nm f p s = Inr s'"
  shows "calls s \<le> calls s'"
proof -
  obtain a ch where new: "new = (a, ch)" by (cases new)
  obtain i ioLoop pool1 where l: "int_inc (nextConnId s) = Inr i" "getNextLoop (pool s) = Inr (ioLoop, pool1)"
    using assms by (auto simp: newConnection_def Let_def)
  show ?thesis
    using assms l by (cases "ioLoop = loopId s")
      (auto simp: new newConnection_def with_conn_def run_in_def runInLoop_def TcpConnection_ctor_def set_conn_def Let_def
        dest!: established_calls)
qed

lemma accept_calls:
  assumes "run_callback W AcceptRead s = Inr s'"
  shows "calls s < calls s'"
  using assms by (auto simp: Acceptor_handleRead_def Let_def dest!: newConnection_calls split: prod.splits if_splits)

lemma callback_calls:
  assumes "run_callback W cb s = Inr s'"
  shows "calls s \<le> calls s'"
proof -
  have rd: "calls t \<le> calls t'"
    if "TcpConnection_handleRead K (onMessage K) (removeConnection True) a t = Inr t'" for K a and t t' :: "'a app_state_scheme"
    by (rule handleRead_stages [OF that]) (auto simp: set_conn_def dest!: onMessage_calls removal_calls(2) handleError_calls)
  show ?thesis
    using assms by (cases cb)
      (auto simp: EventLoop_handleRead_def dest!: rd handleWrite_calls removal_calls(2) handleError_calls accept_calls
        simp del: run_callback.simps(6))
qed

lemma stage_calls:
  assumes "with_channel k (\<lambda>c ps. res_bind (if P c then run_opt (run_callback W) (sel c) ps else Inr ps) g) s = Inr s'"
    and "\<And>t. g t = Inr s' \<Longrightarrow> calls t \<le> calls s'"
  shows "calls s \<le> calls s'"
proof -
  obtain c t where t: "(if P c then run_opt (run_callback W) (sel c) s else Inr s) = Inr t" "g t = Inr s'"
    using assms(1) by (auto simp: with_channel_def split: option.splits)
  have "calls s \<le> calls t"
    using t(1) callback_calls by (auto simp: run_opt_def split: if_splits option.splits)
  with assms(2) [OF t(2)] show ?thesis by simp
qed

text \<open>The rest of \<open>handleEvent\<close> after its read stage, and the acceptor's read stage.\<close>

lemma tail_calls:
  assumes "with_channel k (\<lambda>c ps. res_bind
         (if P c then run_opt (run_callback W) (sel c) ps else Inr ps)
       (with_channel k (\<lambda>c ps. Inr (ps\<lparr>store := (store ps)(k \<mapsto> c\<lparr>eventHandling := False\<rparr>)\<rparr>)))) s = Inr s'"
  shows "calls s \<le> calls s'"
  by (rule stage_calls [OF assms]) (auto simp: with_channel_def split: option.splits)

lemma event_calls:
  assumes "handleEvent (run_callback W) k s = Inr s'"
  shows "calls s \<le> calls s'"
proof -
  let ?g = "with_channel k (\<lambda>c ps. res_bind
         (if revents c AND (POLLERR OR POLLNVAL) \<noteq> 0 then run_opt (run_callback W) (errorCallback c) ps else Inr ps)
       (with_channel k (\<lambda>c ps. res_bind
         (if revents c AND (POLLIN OR POLLPRI OR POLLRDHUP) \<noteq> 0
          then run_opt (run_callback W) (readCallback c) ps else Inr ps)
       (with_channel k (\<lambda>c ps. res_bind
         (if revents c AND POLLOUT \<noteq> 0 then run_opt (run_callback W) (writeCallback c) ps else Inr ps)
       (with_channel k (\<lambda>c ps.
          Inr (ps\<lparr>store := (store ps)(k \<mapsto> c\<lparr>eventHandling := False\<rparr>)\<rparr>))))))))"
  have g: "calls t \<le> calls s'" if "?g t = Inr s'" for t
    using that by (rule stage_calls) (rule stage_calls, assumption, rule tail_calls)
  obtain c s1 where "(if revents c AND POLLHUP \<noteq> 0 \<and> revents c AND POLLIN = 0
      then run_opt (run_callback W) (closeCallback c) (s\<lparr>store := (store s)(k \<mapsto> c\<lparr>eventHandling := True\<rparr>)\<rparr>)
      else Inr (s\<lparr>store := (store s)(k \<mapsto> c\<lparr>eventHandling := True\<rparr>)\<rparr>)) = Inr s1" "?g s1 = Inr s'"
    using assms unfolding handleEvent_def with_channel_def [of k _ s] Let_def
    by (cases "store s k") (simp_all, blast)
  then have "calls s \<le> calls s1" using callback_calls
    by (fastforce simp: run_opt_def split: if_splits option.splits)
  with g [OF \<open>?g s1 = Inr s'\<close>] show ?thesis by simp
qed

lemma dispatch_calls: "foldR (handleEvent (run_callback W)) act s = Inr s' \<Longrightarrow> calls s \<le> calls s'"
proof (induction act arbitrary: s)
  case (Cons k act)
  then obtain s1 where "handleEvent (run_callback W) k s = Inr s1" "foldR (handleEvent (run_callback W)) act s1 = Inr s'"
    by auto
  with event_calls Cons.IH show ?case by fastforce
qed simp

lemma functor_calls:
  assumes "run_functor K (onConnection K) f s = Inr s'"
  shows "calls s \<le> calls s'"
proof -
  have rm: "calls t' = calls t" if "EventLoop_removeChannel k t = Inr t'" for k and t t' :: "'a app_state_scheme"
    using removeChannel_frame [OF that] by auto
  have destroyed: "calls t \<le> calls t'" if "connectDestroyed (onConnection K) a t = Inr t'" for a and t t' :: "'a app_state_scheme"
    using that by (fastforce simp: connectDestroyed_def with_conn_def disableAll_def set_conn_def
        dest!: setEvents_calls onConnection_calls rm split: option.splits if_splits)
  show ?thesis
    using assms by (cases f)
      (auto simp: Acceptor_listen_def enableReading_def shutdownInLoop_def with_conn_def with_channel_def
        dest!: established_calls destroyed sendInLoop_calls removal_calls(1) [unfolded removeConnection_in_loop] setEvents_calls
        split: option.splits)
qed

lemma drain_calls:
  assumes "doPendingFunctors (run_functor K (onConnection K)) s = Inr s'"
  shows "calls s \<le> calls s'"
proof -
  have "calls t \<le> calls t'" if "foldR (run_functor K (onConnection K)) fs t = Inr t'" for fs and t t' :: "'a app_state_scheme"
    using that
  proof (induction fs arbitrary: t)
    case (Cons f fs)
    then obtain t1 where "run_functor K (onConnection K) f t = Inr t1" "foldR (run_functor K (onConnection K)) fs t1 = Inr t'" by auto
    with functor_calls Cons.IH show ?case by fastforce
  qed simp
  with assms show ?thesis by (fastforce simp: doPendingFunctors_def Let_def)
qed

end
