(* ===== verification/Server_Loop.thy ===== *)
theory Server_Loop
  imports Server_Pass Call_Count
begin

section \<open>One pass of the server's loop\<close>

text \<open>
  The composition of poller, event loop, connections, server and application
  (\<open>EventLoop::loop\<close> with the callbacks of \<open>main\<close>): from the answer of \<open>poll(2)\<close> over the
  handlers, accepting a connection among them, to the end of the queued functors.
\<close>

subsection \<open>Accepting within a pass\<close>

text \<open>
  What the kernel and the allocator promise of the descriptor and the objects that the call
  number \<open>n\<close> would hand out: they are not in use.
\<close>

definition fresh_answer :: "world \<Rightarrow> nat \<Rightarrow> 'm net_state_scheme \<Rightarrow> bool" where
  "fresh_answer W n s \<longleftrightarrow> (let (connfd, peer, logged) = Socket_accept (w_accept W n) (InetAddress_port 0)
     in 0 \<le> connfd \<longrightarrow> fresh_for (w_new W n) connfd s)"

definition grows :: "nat set \<Rightarrow> 'm app_state_scheme \<Rightarrow> 'm app_state_scheme \<Rightarrow> bool" where
  "grows Y s s' \<longleftrightarrow> app_inv Y s' \<and> kept s s' \<and> (\<forall>f k. channels s f = Some k \<longrightarrow> channels s' f = Some k)
     \<and> acceptChannel s' = acceptChannel s \<and> calls s \<le> calls s'"

lemma app_stays_grows: "app_stays Y s s' \<Longrightarrow> grows Y s s'"
  by (simp add: app_stays_def stays_def grows_def)

lemma grows_trans: "grows Y s s1 \<Longrightarrow> grows Y s1 s2 \<Longrightarrow> grows Y s s2"
  unfolding grows_def using kept_trans by fastforce

lemma grows_watched: "grows Y s s' \<Longrightarrow> watched s k \<Longrightarrow> watched s' k"
  unfolding grows_def kept_def watched_def attached_def same_binding_def by metis

lemma accepted_fields:
  shows "store (accepted s a ch sockname sockfd peer) = (store s)(ch \<mapsto> new_channel s a sockfd)"
    and "channels (accepted s a ch sockname sockfd peer) = (channels s)(sockfd \<mapsto> ch)"
    and "conns (accepted s a ch sockname sockfd peer) = (conns s)(a \<mapsto> new_conn s ch sockname sockfd peer)"
    and "pendingFunctors (accepted s a ch sockname sockfd peer) = pendingFunctors s"
    and "acceptChannel (accepted s a ch sockname sockfd peer) = acceptChannel s"
    and "server_state.more (accepted s a ch sockname sockfd peer) = server_state.more s"
    and "calls (accepted s a ch sockname sockfd peer) = calls s"
  by (simp_all add: accepted_def)

lemma accepted_held:
  assumes inv: "pass_inv Y s" and id: "nextConnId s < 2147483647" and fresh: "fresh_for (a, ch) sockfd s"
  shows "held (accepted s a ch sockname sockfd peer) = insert a (held s)"
    and "server_wf (accepted s a ch sockname sockfd peer)"
    and "acceptChannel (accepted s a ch sockname sockfd peer) \<noteq> ch"
    and "b \<in> held s \<Longrightarrow> channel_at (accepted s a ch sockname sockfd peer) b = channel_at s b"
proof -
  let ?s' = "accepted s a ch sockname sockfd peer"
  note i = pass_invD(2) [OF inv]
  have pend: "pendingFunctors ?s' = pendingFunctors s" by (rule accepted_fields(4))
  show "held ?s' = insert a (held s)" using accepted_mapped(2) [OF i id fresh] pend by (simp add: held_def)
  show "server_wf ?s'" using accepted_inv [OF i id fresh] pend by (simp add: server_wf_def)
  obtain ca where "attached s (acceptChannel s) ca" using pass_invD(5) [OF inv] by blast
  then show "acceptChannel ?s' \<noteq> ch" using fresh by (auto simp: attached_def fresh_for_def accepted_fields(5))
  show "channel_at ?s' b = channel_at s b" if "b \<in> held s"
    using that accepted_mapped(1) [OF i id fresh] by (auto simp: held_def channel_at_def accepted_fields(3))
qed

text \<open>A channel that was watched is watched afterwards; the only new one belongs to the new connection.\<close>

lemma accepted_attached:
  assumes fresh: "fresh_for (a, ch) sockfd s"
  shows "attached s k ck \<Longrightarrow> attached (accepted s a ch sockname sockfd peer) k ck"
    and "attached (accepted s a ch sockname sockfd peer) ch (new_channel s a sockfd)"
    and "attached (accepted s a ch sockname sockfd peer) k ck \<Longrightarrow>
      attached s k ck \<or> k = ch \<and> ck = new_channel s a sockfd"
proof -
  have fdn: "fd (new_channel s a sockfd) = sockfd" by (simp add: new_channel_def)
  show "attached s k ck \<Longrightarrow> attached (accepted s a ch sockname sockfd peer) k ck"
    and "attached (accepted s a ch sockname sockfd peer) ch (new_channel s a sockfd)"
    using fresh fdn by (auto simp: attached_def accepted_fields(1,2) fresh_for_def)
  assume at: "attached (accepted s a ch sockname sockfd peer) k ck"
  show "attached s k ck \<or> k = ch \<and> ck = new_channel s a sockfd"
  proof (cases "k = ch")
    case False
    with at fresh have "fd ck \<noteq> sockfd" by (auto simp: attached_def accepted_fields(2) fresh_for_def)
    with at False show ?thesis by (simp add: attached_def accepted_fields(1,2))
  qed (use at in \<open>simp add: attached_def accepted_fields(1)\<close>)
qed

lemma accepted_pass:
  assumes inv: "pass_inv Y s" and id: "nextConnId s < 2147483647" and fresh: "fresh_for (a, ch) sockfd s"
  shows "pass_inv Y (accepted s a ch sockname sockfd peer)" (is "pass_inv Y ?s'")
proof -
  note held = accepted_held [OF inv id fresh, where sockname = sockname and peer = peer] and at = accepted_attached [OF fresh, where sockname = sockname and peer = peer]
    and old = accepted_fields [where s = s and a = a and ch = ch and sockname = sockname and sockfd = sockfd and peer = peer]
  have cha: "channel_at ?s' a = ch" by (simp add: channel_at_def old(3))
  have "bound_to Y ?s' k ck" if "attached ?s' k ck" for k ck
    using at(3) [OF that]
  proof
    assume "attached s k ck"
    from pass_invD(4) [OF inv this] show ?thesis using held old(5) unfolding bound_to_def by auto
  next
    assume "k = ch \<and> ck = new_channel s a sockfd"
    then show ?thesis using held(1,3) old(5) cha by (auto simp: bound_to_def new_channel_def)
  qed
  moreover obtain ca where "attached s (acceptChannel s) ca" using pass_invD(5) [OF inv] by blast
  then have "attached ?s' (acceptChannel ?s') ca" using at(1) old(5) by simp
  moreover have "\<exists>ck. attached ?s' (channel_at ?s' b) ck \<and> readCallback ck = Some (ConnRead b)" if b: "b \<in> held ?s'" for b
  proof (cases "b = a")
    case True
    with at(2) cha show ?thesis by (intro exI [of _ "new_channel s a sockfd"]) (simp add: new_channel_def)
  next
    case False
    then have "b \<in> held s" using b held(1) by simp
    with pass_invD(7) [OF inv this] held(4) at(1) show ?thesis by metis
  qed
  moreover have "\<exists>ck. attached ?s' j ck \<and> readCallback ck \<in> {Some WakeupRead, Some TimerRead}" if "j \<in> Y" for j
    using pass_invD(8) [OF inv that] at(1) by blast
  ultimately show ?thesis using held(2) old(4) pass_invD(6) [OF inv] unfolding pass_inv_def by auto
qed

lemma accepted_grows:
  fixes s :: "'m app_state_scheme" and sockname :: "sockaddr_in option" and peer :: sockaddr_in
  assumes inv: "app_inv Y s" and id: "nextConnId s < 2147483647" and fresh: "fresh_for (a, ch) sockfd s"
  shows "grows Y s (accepted s a ch sockname sockfd peer)" (is "grows Y s ?s'")
    and "a \<in> held (accepted s a ch sockname sockfd peer)"
proof -
  have p: "pass_inv Y s" using inv by (simp add: app_inv_def)
  note old = accepted_fields [where s = s and a = a and ch = ch and sockname = sockname and sockfd = sockfd and peer = peer]
  have "app_inv Y ?s'"
    using inv old(6) accepted_pass [OF p id fresh, of sockname peer] by (cases s; cases ?s'; simp add: app_inv_def)
  moreover have "kept s ?s'" using old(1) fresh by (auto simp: kept_def fresh_for_def)
  ultimately show "grows Y s ?s'" using old fresh by (auto simp: grows_def fresh_for_def)
  show "a \<in> held ?s'" using accepted_held(1) [OF p id fresh] by simp
qed

lemma accept_grows:
  assumes inv: "app_inv Y s" and fresh: "fresh_answer W (calls s) s" and run: "run_callback W AcceptRead s = Inr s'"
  shows "grows Y s s'"
proof -
  have p: "pass_inv Y s" using inv by (simp add: app_inv_def)
  let ?s1 = "s\<lparr>calls := calls s + 1\<rparr>"
  obtain connfd peer logged where an: "Socket_accept (w_accept W (calls s)) (InetAddress_port 0) = (connfd, peer, logged)"
    by (metis prod_cases3)
  have "stays Y s ?s1"
    by (rule quiet_stays [OF p]) (use pass_invD(3) [OF p] poll_cong(1) [of ?s1 s] in \<open>simp_all add: kept_same\<close>)
  then have t1: "app_stays Y s ?s1" by (rule app_staysI [OF inv]) simp
  note i1 = app_staysD(1) [OF t1]
  show ?thesis
  proof (cases "0 \<le> connfd")
    case False
    with run an app_stays_grows [OF t1] show ?thesis by (simp add: Acceptor_handleRead_def)
  next
    case True
    obtain a ch where new: "w_new W (calls s) = (a, ch)" by (cases "w_new W (calls s)")
    let ?cb = "onConnection (w_kernel W)" and ?nm = "w_sockname W (calls s)"
    let ?s2 = "accepted ?s1 a ch ?nm connfd peer"
    have r: "newConnection ?cb (a, ch) ?nm connfd peer ?s1 = Inr s'"
      using run an True new by (simp add: Acceptor_handleRead_def)
    have fr: "fresh_for (a, ch) connfd ?s1" using fresh an True new by (simp add: fresh_answer_def fresh_for_def)
    have id: "nextConnId ?s1 < 2147483647"
      using r by (auto simp: newConnection_def int_inc_def split: if_splits)
    have sinv: "server_inv (doomed_of (pendingFunctors ?s1)) ?s1"
      using i1 pass_invD(2) unfolding app_inv_def by blast
    note g = accepted_grows [OF i1 id fr, of ?nm peer]
    have i2: "app_inv Y ?s2" using g(1) by (simp add: grows_def)
    have r2: "?cb a ?s2 = Inr s'" using r newConnection_run(1) [OF sinv id fr, of ?cb ?nm peer] by simp
    obtain c c2 where c: "conn_at ?s2 a c c2" "conns ?s2 a = Some c" using app_connE [OF i2 g(2)] .
    have "app_stays Y ?s2 s'"
    proof (cases "connected c")
      case True
      then have "send (w_kernel W) True (getPacketAsString (serPacket ?s2)) a ?s2 = Inr s'"
        using r2 c(2) by (simp add: onConnection_def with_conn_def)
      moreover have "length (getPacketAsString (serPacket ?s2)) \<le> vec_max" using i2 unfolding app_inv_def by blast
      ultimately show ?thesis using app_send [OF i2 g(2)] by blast
    next
      case False
      then show ?thesis using r2 c(2) app_stays_refl [OF i2] by (simp add: onConnection_def with_conn_def)
    qed
    then show ?thesis using app_stays_grows [OF t1] g(1) app_stays_grows grows_trans by blast
  qed
qed

text \<open>The acceptor's channel has a read callback only.\<close>

lemma acceptor_callbacks:
  assumes "app_inv Y s" and "store s (acceptChannel s) = Some c" and "watched s (acceptChannel s)"
  shows "readCallback c = Some AcceptRead" "writeCallback c = None" "errorCallback c = None" "closeCallback c = None"
proof -
  obtain c' where "store s (acceptChannel s) = Some c'" "bound_to Y s (acceptChannel s) c'"
    using watched_run [OF assms(1,3)] by metis
  then have "bound_to Y s (acceptChannel s) c" using assms(2) by simp
  then show "readCallback c = Some AcceptRead" "writeCallback c = None" "errorCallback c = None" "closeCallback c = None"
    by (simp_all add: bound_to_def)
qed

lemma fresh_answer_stays:
  assumes "fresh_answer W n s" and "stays Y s s'"
  shows "fresh_answer W n s'"
proof -
  have "store s' k = None \<longleftrightarrow> store s k = None" "conns s' k = None \<longleftrightarrow> conns s k = None" for k
    using assms(2) unfolding stays_def by (metis domIff)+
  then have "fresh_for x f s' = fresh_for x f s" for x f using assms(2) by (simp add: fresh_for_def stays_def)
  with assms(1) show ?thesis by (simp add: fresh_answer_def split: prod.splits)
qed

lemma accept_event:
  assumes inv: "app_inv Y s" and w: "watched s (acceptChannel s)"
    and fresh: "calls s < calls s' \<Longrightarrow> fresh_answer W (calls s) s"
    and run: "handleEvent (run_callback W) (acceptChannel s) s = Inr s'"
  shows "grows Y s s'"
proof -
  let ?k = "acceptChannel s"
  obtain c where c: "store s ?k = Some c" using watched_run [OF inv w] by metis
  let ?s1 = "s\<lparr>store := (store s)(?k \<mapsto> c\<lparr>eventHandling := True\<rparr>)\<rparr>"
  have t1: "app_stays Y s ?s1" by (rule flag_stays [OF inv c])
  note i1 = app_staysD(1) [OF t1] and cb = acceptor_callbacks [OF inv c w]
  obtain s2 where s2: "(if revents c AND (POLLIN OR POLLPRI OR POLLRDHUP) \<noteq> 0 then run_callback W AcceptRead ?s1 else Inr ?s1) = Inr s2"
    and r2: "with_channel ?k (\<lambda>c ps. res_bind
         (if revents c AND POLLOUT \<noteq> 0 then run_opt (run_callback W) (writeCallback c) ps else Inr ps)
       (with_channel ?k (\<lambda>c ps. Inr (ps\<lparr>store := (store ps)(?k \<mapsto> c\<lparr>eventHandling := False\<rparr>)\<rparr>)))) s2 = Inr s'"
    using run c cb unfolding handleEvent_def with_channel_def [of ?k _ s]
    by (simp add: Let_def run_opt_def with_channel_def [of ?k _ ?s1] del: run_callback.simps cong: if_cong) blast
  have g: "grows Y s s2"
  proof (cases "revents c AND (POLLIN OR POLLPRI OR POLLRDHUP) \<noteq> 0")
    case False
    with s2 app_stays_grows [OF t1] show ?thesis by simp
  next
    case True
    then have r: "run_callback W AcceptRead ?s1 = Inr s2" using s2 by simp
    have "calls s < calls s'" using accept_calls [OF r] tail_calls [OF r2] by simp
    from fresh_answer_stays [OF fresh [OF this] app_staysD(4) [OF t1]]
    have "grows Y ?s1 s2" by (intro accept_grows [OF i1 _ r]) simp
    with app_stays_grows [OF t1] show ?thesis by (rule grows_trans)
  qed
  have i2: "app_inv Y s2" and k2: "acceptChannel s2 = ?k" and w2: "watched s2 ?k"
    using g grows_watched [OF g w] by (simp_all add: grows_def)
  obtain c2 where c2: "store s2 ?k = Some c2" using watched_run [OF i2 w2] by metis
  have "s' = s2\<lparr>store := (store s2)(?k \<mapsto> c2\<lparr>eventHandling := False\<rparr>)\<rparr>"
    using r2 c2 acceptor_callbacks [OF i2] k2 w2 by (simp add: with_channel_def run_opt_def split: if_splits)
  with flag_stays [OF i2 c2] have "grows Y s2 s'" by (simp add: app_stays_grows)
  with g show ?thesis by (rule grows_trans)
qed

subsection \<open>Dispatching the active channels\<close>

lemma dispatch_grows:
  assumes K: "reads_fit (w_kernel W)"
  shows "app_inv Y s \<Longrightarrow> \<forall>k \<in> set act. watched s k \<Longrightarrow> distinct act \<Longrightarrow>
    (acceptChannel s \<in> set act \<Longrightarrow> \<forall>n. calls s \<le> n \<and> n < calls s' \<longrightarrow> fresh_answer W n s) \<Longrightarrow>
    foldR (handleEvent (run_callback W)) act s = Inr s' \<Longrightarrow> grows Y s s'"
proof (induction act arbitrary: s)
  case Nil
  then show ?case using app_stays_grows [OF app_stays_refl] by simp
next
  case (Cons k act)
  obtain s1 where s1: "handleEvent (run_callback W) k s = Inr s1" "foldR (handleEvent (run_callback W)) act s1 = Inr s'"
    using Cons.prems(5) by auto
  have w: "watched s k" using Cons.prems(2) by simp
  have g: "grows Y s s1 \<and> (acceptChannel s1 \<in> set act \<longrightarrow> (\<forall>n. calls s1 \<le> n \<and> n < calls s' \<longrightarrow> fresh_answer W n s1))"
  proof (cases "k = acceptChannel s")
    case True
    have "grows Y s s1"
    proof (rule accept_event [OF Cons.prems(1)])
      show "calls s < calls s1 \<Longrightarrow> fresh_answer W (calls s) s"
        using Cons.prems(4) True dispatch_calls [OF s1(2)] by simp
    qed (use w s1(1) True in simp_all)
    then show ?thesis using True Cons.prems(3) by (auto simp: grows_def)
  next
    case False
    have st: "app_stays Y s s1" by (rule event_stays [OF K Cons.prems(1) w False s1(1)])
    then have "acceptChannel s1 = acceptChannel s" "calls s \<le> calls s1" by (simp_all add: app_stays_def stays_def)
    with Cons.prems(4) fresh_answer_stays [OF _ app_staysD(4) [OF st]] app_stays_grows [OF st] show ?thesis
      by (metis (no_types, lifting) le_trans list.set_intros(2))
  qed
  have "grows Y s1 s'"
    using g Cons.prems(2,3) grows_watched [of Y s s1] by (intro Cons.IH [OF _ _ _ _ s1(2)]) (auto simp: grows_def)
  with g show ?case using grows_trans by blast
qed

lemma poll_stays:
  assumes inv: "app_inv Y s" and ok: "n < 0 \<or> poll_answer_ok (pollfds s) n revs" and run: "Poller_poll (n, revs) s [] = Inr (s1, act)"
  shows "app_stays Y s s1" and "distinct act" and "\<forall>k \<in> set act. watched s k"
proof -
  have "app_stays Y s s1 \<and> distinct act \<and> (\<forall>k \<in> set act. watched s k)"
  proof (cases "n < 0")
    case True
    then have "s1 = s" "act = []" using run by (simp_all add: Poller_poll_def)
    with app_stays_refl [OF inv] show ?thesis by simp
  next
    case False
    then have ok: "poll_answer_ok (pollfds s) n revs" using ok by simp
    have p: "pass_inv Y s" using inv by (simp add: app_inv_def)
    have r: "poll_wf s1" "filled 0 (polled revs s) s1 act" "\<forall>k. k \<in> set act \<longleftrightarrow> (\<exists>c. attached s k c \<and> revs ! nat (index c) \<noteq> 0)"
      using poll_run [OF pass_invD(3) [OF p] ok] run by auto
    have "store (polled revs s) = store s" by (simp add: polled_def)
    then have s1: "s1 = (polled revs s)\<lparr>store := \<lambda>k. map_option (\<lambda>c. if k \<in> set act then with_revents (polled revs s) c else c) (store s k)\<rparr>"
      using r(2) unfolding filled_def by simp
    have "kept s s1" unfolding kept_def s1 by (auto simp: with_revents_def)
    moreover have "dom (store s1) = dom (store s)" unfolding s1 by (auto simp: dom_def)
    ultimately have "stays Y s s1" by (rule quiet_stays [OF p r(1)]) (simp_all add: s1 polled_def)
    then have "app_stays Y s s1" by (rule app_staysI [OF inv]) (simp add: s1 polled_def)
    moreover have "distinct act" using r(2) by (simp add: filled_def)
    moreover have "\<forall>k \<in> set act. watched s k" using r(3) by (auto simp: watched_def)
    ultimately show ?thesis by blast
  qed
  then show "app_stays Y s s1" "distinct act" "\<forall>k \<in> set act. watched s k" by simp_all
qed

subsection \<open>Running the functors\<close>

text \<open>Every other channel stays attached as it was.\<close>

lemma detached:
  assumes wf: "poll_wf s" and k: "kept s s'" "channels s' = (channels s)(fd c0 := None)" and c0: "attached s k0 c0"
  shows "attached s' j cj \<Longrightarrow> \<exists>c1. attached s j c1 \<and> same_binding c1 cj \<and> j \<noteq> k0"
    and "attached s j cj \<Longrightarrow> j \<noteq> k0 \<Longrightarrow> \<exists>c1. attached s' j c1 \<and> same_binding cj c1"
proof -
  assume at: "attached s' j cj"
  have j: "channels s (fd cj) = Some j" "fd cj \<noteq> fd c0" "store s' j = Some cj"
    using at k(2) by (auto simp: attached_def split: if_splits)
  obtain c1 where c1: "attached s j c1" "fd c1 = fd cj" by (rule channelsD [OF wf j(1)])
  have "same_binding c1 cj" using k(1) c1(1) j(3) unfolding kept_def attached_def by (metis option.inject)
  moreover have "j \<noteq> k0" using c1 j(2) c0 by (auto simp: attached_def)
  ultimately show "\<exists>c1. attached s j c1 \<and> same_binding c1 cj \<and> j \<noteq> k0" using c1(1) by blast
next
  assume at: "attached s j cj" and "j \<noteq> k0"
  then obtain c1 where c1: "store s' j = Some c1" "same_binding cj c1" using k(1) unfolding kept_def attached_def by blast
  have "fd c1 \<noteq> fd c0" using at c0 c1(2) \<open>j \<noteq> k0\<close> by (auto simp: attached_def same_binding_def)
  then have "attached s' j c1" using at c1 k(2) by (simp add: attached_def same_binding_def)
  with c1(2) show "\<exists>c1. attached s' j c1 \<and> same_binding cj c1" by blast
qed

text \<open>
  While the functors run, the queue of the loop is empty; the invariant is that of a state in
  which those that are left still waited.
\<close>

lemma pass_inv_destroyed:
  assumes p: "pass_inv Y s" and a: "a \<in> held s" and held: "held s' = held s - {a}" and wf: "server_wf s'"
    and old: "\<And>j cj. attached s' j cj \<Longrightarrow> \<exists>c1. attached s j c1 \<and> same_binding c1 cj \<and> j \<noteq> channel_at s a"
    and keep: "\<And>j cj. attached s j cj \<Longrightarrow> j \<noteq> channel_at s a \<Longrightarrow> \<exists>c1. attached s' j c1 \<and> same_binding cj c1"
    and f: "acceptChannel s' = acceptChannel s" "\<And>b. channel_at s' b = channel_at s b"
    and pend: "\<forall>f \<in> set (pendingFunctors s'). \<exists>a. f = ConnectDestroyed a \<or> f = WriteComplete a"
  shows "pass_inv Y s'"
proof -
  obtain ck where ck: "attached s (channel_at s a) ck" "readCallback ck = Some (ConnRead a)"
    using pass_invD(7) [OF p a] by blast
  have "bound_to Y s' j cj" if at: "attached s' j cj" for j cj
  proof -
    obtain c1 where c1: "attached s j c1" "same_binding c1 cj" "j \<noteq> channel_at s a" using old [OF at] by blast
    from pass_invD(4) [OF p c1(1)] c1(2,3) held f show ?thesis
      unfolding bound_to_def same_binding_def by auto
  qed
  moreover have "acceptChannel s \<noteq> channel_at s a" using pass_invD(4) [OF p ck(1)] ck(2) by (auto simp: bound_to_def)
  then have "\<exists>cj. attached s' (acceptChannel s') cj" using pass_invD(5) [OF p] keep f(1) by metis
  moreover have "\<exists>cj. attached s' (channel_at s' b) cj \<and> readCallback cj = Some (ConnRead b)" if b: "b \<in> held s'" for b
  proof -
    have b: "b \<in> held s" "b \<noteq> a" using b held by auto
    obtain cb where cb: "attached s (channel_at s b) cb" "readCallback cb = Some (ConnRead b)"
      using pass_invD(7) [OF p b(1)] by blast
    have "channel_at s b \<noteq> channel_at s a" using cb ck b(2) by (auto simp: attached_def)
    with keep [OF cb(1)] cb(2) f(2) show ?thesis by (auto simp: same_binding_def)
  qed
  moreover have "\<exists>cj. attached s' j cj \<and> readCallback cj \<in> {Some WakeupRead, Some TimerRead}" if "j \<in> Y" for j
  proof -
    obtain cj where cj: "attached s j cj" "readCallback cj \<in> {Some WakeupRead, Some TimerRead}" using pass_invD(8) [OF p \<open>j \<in> Y\<close>] by blast
    have "j \<noteq> channel_at s a" using cj ck by (auto simp: attached_def)
    with keep [OF cj(1)] cj(2) show ?thesis by (auto simp: same_binding_def)
  qed
  ultimately show ?thesis using wf pend unfolding pass_inv_def by blast
qed

lemma destroy_drains:
  assumes inv: "app_inv Y (s\<lparr>pendingFunctors := ConnectDestroyed a # fs\<rparr>)" and cb: "quiet_when_down cb"
    and empty: "pendingFunctors s = []" and run: "connectDestroyed cb a s = Inr s'"
  shows "app_inv Y (s'\<lparr>pendingFunctors := fs\<rparr>) \<and> pendingFunctors s' = [] \<and> calls s' = calls s
    \<and> acceptChannel s' = acceptChannel s"
proof -
  let ?t = "s\<lparr>pendingFunctors := ConnectDestroyed a # fs\<rparr>" and ?t' = "s'\<lparr>pendingFunctors := fs\<rparr>"
  have p: "pass_inv Y ?t" using inv by (simp add: app_inv_def)
  have "server_inv (a # doomed_of fs) ?t" using pass_invD(2) [OF p] by simp
  then have sinv: "server_inv (a # doomed_of fs) s" by (rule server_inv_cong) simp_all
  obtain c where d: "server_inv (doomed_of fs) s'" "conns s a = Some c" "conns s' = (conns s)(a \<mapsto> c\<lparr>state := kDisconnected\<rparr>)"
      "pendingFunctors s' = pendingFunctors s" "connections s' = connections s" "server_state.more s' = server_state.more s"
    using destroy_doomed [OF sinv cb] run by auto
  obtain ch where c: "conn_at s a c ch"
    using memberE [OF server_invD(4) [OF sinv, of a]] d(2) by (metis Un_iff list.set_intros(1) option.inject set_append)
  note k = destroyed_channels [OF c cb run] and more = more_fields [OF destroyed_channels(4) [OF c cb run]]
  have at: "attached ?t (channel_at ?t a) ch" "fd ch = socket c"
    using c d(2) by (auto simp: conn_at_def attached_def channel_at_def)
  have kt: "kept ?t ?t'" "channels ?t' = (channels ?t)(fd ch := None)" using k(1,2) at(2) by (simp_all add: kept_def)
  note det = detached [OF pass_invD(3) [OF p] kt at(1)]
  have "pass_inv Y ?t'"
  proof (rule pass_inv_destroyed [OF p _ _ _ det])
    show "a \<in> held ?t" by (simp add: held_def)
    show "held ?t' = held ?t - {a}" using server_invD(3) [OF sinv] d(5) by (auto simp: held_def mapped_def)
    have "server_inv (doomed_of fs) ?t'" using d(1) by (rule server_inv_cong) simp_all
    then show "server_wf ?t'" by (simp add: server_wf_def)
    show "channel_at ?t' b = channel_at ?t b" for b using d(2,3) by (simp add: channel_at_def)
    show "\<forall>f \<in> set (pendingFunctors ?t'). \<exists>a. f = ConnectDestroyed a \<or> f = WriteComplete a" using pass_invD(6) [OF p] by simp
  qed (use more(6) in simp_all)
  moreover have "serPacket s' = serPacket s" using d(6) by (cases s; cases s'; simp)
  ultimately show ?thesis using inv empty d(4) k(3) more(6) by (simp add: app_inv_def)
qed

lemma functors_drain:
  assumes "app_inv Y (s\<lparr>pendingFunctors := fs\<rparr>)" and "pendingFunctors s = []" and cb: "quiet_when_down cb"
  shows "\<exists>s'. foldR (run_functor K cb) fs s = Inr s' \<and> app_inv Y s' \<and> pendingFunctors s' = [] \<and> calls s' = calls s
    \<and> acceptChannel s' = acceptChannel s"
  using assms(1,2)
proof (induction fs arbitrary: s)
  case Nil
  then show ?case by (metis foldR.simps(1) loop_state.surjective loop_state.update_convs(4))
next
  case (Cons f fs)
  let ?t = "s\<lparr>pendingFunctors := f # fs\<rparr>"
  have p: "pass_inv Y ?t" using Cons.prems(1) by (simp add: app_inv_def)
  then obtain a where "f = ConnectDestroyed a \<or> f = WriteComplete a" using pass_invD(6) [OF p] by auto
  then show ?case
  proof
    assume f: "f = ConnectDestroyed a"
    have "server_inv (a # doomed_of fs) ?t" using pass_invD(2) [OF p] f by simp
    then have "server_inv (a # doomed_of fs) s" by (rule server_inv_cong) simp_all
    then obtain s1 where s1: "connectDestroyed cb a s = Inr s1" using destroy_doomed [OF _ cb] by blast
    have "app_inv Y (s1\<lparr>pendingFunctors := fs\<rparr>)" "pendingFunctors s1 = []" "calls s1 = calls s"
      "acceptChannel s1 = acceptChannel s" using destroy_drains [OF Cons.prems(1) [unfolded f] cb Cons.prems(2) s1] by auto
    with Cons.IH [of s1] s1 f show ?case by simp
  next
    assume f: "f = WriteComplete a"
    have "stays Y ?t (s\<lparr>pendingFunctors := fs\<rparr>)"
    proof (rule staysI [OF p])
      have "server_inv (doomed_of fs) ?t" using pass_invD(2) [OF p] f by simp
      then have "server_inv (doomed_of fs) (s\<lparr>pendingFunctors := fs\<rparr>)" by (rule server_inv_cong) simp_all
      then show "server_wf (s\<lparr>pendingFunctors := fs\<rparr>)" by (simp add: server_wf_def)
    qed (use f pass_invD(6) [OF p] in \<open>simp_all add: kept_same held_def mapped_def channel_at_def\<close>)
    then have "app_inv Y (s\<lparr>pendingFunctors := fs\<rparr>)"
      using Cons.prems(1) by (simp add: app_inv_def stays_def)
    with Cons.IH [of s] Cons.prems(2) f show ?case by simp
  qed
qed

lemma set_calling:
  assumes inv: "app_inv Y s"
  shows "app_inv Y (s\<lparr>callingPendingFunctors := b\<rparr>)"
proof -
  have p: "pass_inv Y s" using inv by (simp add: app_inv_def)
  have "stays Y s (s\<lparr>callingPendingFunctors := b\<rparr>)"
    by (rule quiet_stays [OF p]) (use pass_invD(3) [OF p] poll_cong(1) [of "s\<lparr>callingPendingFunctors := b\<rparr>" s] in
        \<open>simp_all add: kept_same\<close>)
  with inv show ?thesis by (simp add: stays_def app_inv_def)
qed

lemma doPending_drains:
  assumes inv: "app_inv Y s" and cb: "quiet_when_down cb"
  shows "\<exists>s'. doPendingFunctors (run_functor K cb) s = Inr s' \<and> app_inv Y s' \<and> pendingFunctors s' = []
    \<and> calls s' = calls s \<and> acceptChannel s' = acceptChannel s"
proof -
  let ?s2 = "s\<lparr>callingPendingFunctors := True, pendingFunctors := []\<rparr>"
  have "app_inv Y (?s2\<lparr>pendingFunctors := pendingFunctors s\<rparr>)" using set_calling [OF inv, of True] by simp
  then obtain s3 where s3: "foldR (run_functor K cb) (pendingFunctors s) ?s2 = Inr s3" "app_inv Y s3"
      "pendingFunctors s3 = []" "calls s3 = calls ?s2" "acceptChannel s3 = acceptChannel s"
    using functors_drain [where s = ?s2 and fs = "pendingFunctors s" and K = K, OF _ _ cb] by auto
  then show ?thesis using set_calling [OF s3(2), of False] by (simp add: doPendingFunctors_def Let_def)
qed

text \<open>
  A whole pass: it ends with a fault of a handler, or the invariant holds again and no functor
  waits.  Running the functors never fails.
\<close>

lemma pass_keeps:
  assumes K: "reads_fit (w_kernel W)" and inv: "app_inv Y s" and ok: "n < 0 \<or> poll_answer_ok (pollfds s) n revs"
    and run: "loop_body (run_callback W) (run_functor (w_kernel W) (onConnection (w_kernel W))) (n, revs) s = Inr s'"
    and fresh: "\<forall>i. calls s \<le> i \<and> i < calls s' \<longrightarrow> fresh_answer W i s"
  shows "app_inv Y s' \<and> pendingFunctors s' = [] \<and> acceptChannel s' = acceptChannel s"
proof -
  obtain s1 act s2 where s1: "Poller_poll (n, revs) s [] = Inr (s1, act)"
    and s2: "foldR (handleEvent (run_callback W)) act s1 = Inr s2"
    and s3: "doPendingFunctors (run_functor (w_kernel W) (onConnection (w_kernel W))) s2 = Inr s'"
    using run unfolding loop_body_def res_bind_eq_Inr split_paired_Ex prod.case by blast
  note p = poll_stays [OF inv ok s1] and st = app_staysD(4) [OF poll_stays(1) [OF inv ok s1]]
  have "calls s \<le> calls s1" using st by (simp add: stays_def)
  moreover have "calls s2 \<le> calls s'" by (rule drain_calls [OF s3])
  ultimately have fresh1: "\<forall>i. calls s1 \<le> i \<and> i < calls s2 \<longrightarrow> fresh_answer W i s1"
    using fresh fresh_answer_stays [OF _ st] by (meson le_trans less_le_trans)
  have "\<forall>k \<in> set act. watched s1 k" using p(3) watched_stays [OF st] by blast
  then have g: "grows Y s1 s2" using dispatch_grows [OF K app_staysD(1) [OF p(1)] _ p(2) _ s2] fresh1 by blast
  then have "app_inv Y s2" "acceptChannel s2 = acceptChannel s" using st by (simp_all add: grows_def stays_def)
  with doPending_drains [where K = "w_kernel W", OF this(1) onConnection_quiet [of "w_kernel W"]] s3 show ?thesis by auto
qed

end
