(* ===== verification/Server_Run.thy ===== *)
theory Server_Run
  imports Server_Loop
begin

section \<open>The server from start to stop\<close>

text \<open>
  Model of the constructors of \<open>src/EventLoop.cpp\<close> and \<open>src/TimerQueue.cpp\<close> and of \<open>main\<close> of
  \<open>src/test_multithreads.cc\<close> as a whole: the loop is made, the server is made and started on
  it, and the loop runs on any sequence of answers of \<open>poll(2)\<close>.
\<close>

subsection \<open>Making the event loop\<close>

text \<open>
  The results of \<open>timerfd_create(2)\<close> and \<open>eventfd(2)\<close> are parameters; \<open>abort()\<close> ends the
  process like a failing assertion.
\<close>

definition createTimerfd :: "int \<Rightarrow> int \<times> severity list" where
  "createTimerfd timerfd = (timerfd, if timerfd < 0 then [FATAL] else [])"

definition createEventfd :: "int \<Rightarrow> int res" where
  "createEventfd evtfd = (if evtfd < 0 then Inl Assert_failed else Inr evtfd)"

definition TimerQueue_ctor :: "nat \<Rightarrow> int \<Rightarrow> 'm net_state_scheme \<Rightarrow> 'm net_state_scheme res" where
  "TimerQueue_ctor tc timerfd s =
     enableReading tc
       (s\<lparr>store := (store s)(tc \<mapsto> (Channel_new (loopId s) timerfd)\<lparr>readCallback := Some TimerRead\<rparr>)\<rparr>)"

text \<open>
  \<open>t_loop\<close> is the value of \<open>t_loopInThisThread\<close>; a second loop in a thread is only logged.
  The channel of the timer queue is at \<open>tc\<close>, the one of the event descriptor at \<open>wc\<close>.
\<close>

definition EventLoop_ctor :: "nat \<times> int \<Rightarrow> nat \<times> int \<Rightarrow> nat \<Rightarrow> nat option \<Rightarrow> 'm net_state_scheme \<Rightarrow>
    (nat option \<times> severity list \<times> 'm net_state_scheme) res" where
  "EventLoop_ctor timer event self t_loop s =
     (let (tc, tfd) = timer; (wc, wfd) = event;
          (timerfd, logged) = createTimerfd tfd;
          s1 = s\<lparr>loopId := self, looping := False, quitFlag := False, callingPendingFunctors := False,
                 pollfds := [], channels := Map.empty, pendingFunctors := [], wakeupCount := 0\<rparr>
      in res_bind (TimerQueue_ctor tc timerfd s1) (\<lambda>s2.
         res_bind (createEventfd wfd) (\<lambda>wakeupFd.
           let s3 = s2\<lparr>store := (store s2)(wc \<mapsto> Channel_new self wakeupFd)\<rparr>;
               (t_loop', fatal) = (case t_loop of Some l \<Rightarrow> (Some l, [FATAL]) | None \<Rightarrow> (Some self, []));
               s4 = s3\<lparr>store := (store s3)(wc \<mapsto> (Channel_new self wakeupFd)\<lparr>readCallback := Some WakeupRead\<rparr>)\<rparr>
           in res_bind (enableReading wc s4) (\<lambda>s5. Inr (t_loop', logged @ fatal, s5)))))"

text \<open>The destructor, in the loop's own thread: the descriptor it closes and the new \<open>t_loopInThisThread\<close>.\<close>

definition EventLoop_delete :: "int \<Rightarrow> ('cb, 'fn, 'm) loop_state_scheme \<Rightarrow> (int \<times> nat option) res" where
  "EventLoop_delete wakeupFd s = assertR (\<not> looping s) (Inr (wakeupFd, None))"

definition loop_channel :: "nat \<Rightarrow> int \<Rightarrow> net_callback \<Rightarrow> int \<Rightarrow> net_callback Channel" where
  "loop_channel self f cb i = (Channel_new self f)\<lparr>events := kReadEvent, index := i, readCallback := Some cb\<rparr>"

text \<open>
  A channel is put at a place that the poller does not watch, and its reading enabled.
\<close>

lemma poll_wf_unwatched:
  assumes wf: "poll_wf ps" and un: "\<forall>c. \<not> attached ps ch c"
  shows "poll_wf (ps\<lparr>store := (store ps)(ch \<mapsto> c)\<rparr>)"
proof (rule poll_wfI)
  fix f k assume "channels (ps\<lparr>store := (store ps)(ch \<mapsto> c)\<rparr>) f = Some k"
  then have "channels ps f = Some k" by simp
  then obtain ck where ck: "attached ps k ck" "fd ck = f" by (rule channelsD [OF wf])
  have "k \<noteq> ch" using ck un by blast
  with ck attachedD [OF wf ck(1)]
  show "\<exists>ck. store (ps\<lparr>store := (store ps)(ch \<mapsto> c)\<rparr>) k = Some ck \<and> fd ck = f \<and> 0 \<le> f \<and> 0 \<le> index ck
      \<and> nat (index ck) < length (pollfds (ps\<lparr>store := (store ps)(ch \<mapsto> c)\<rparr>))
      \<and> entry_of f (entry (ps\<lparr>store := (store ps)(ch \<mapsto> c)\<rparr>) ck)"
    by (auto simp: attached_def entry_def)
next
  fix i assume "i < length (pollfds (ps\<lparr>store := (store ps)(ch \<mapsto> c)\<rparr>))"
  then obtain k ck where "attached ps k ck" "index ck = int i" using wf by (auto simp: poll_wf_def)
  moreover from this have "k \<noteq> ch" using un by blast
  ultimately show "\<exists>k ck. attached (ps\<lparr>store := (store ps)(ch \<mapsto> c)\<rparr>) k ck \<and> index ck = int i"
    by (auto simp: attached_def)
qed

lemma enable_fresh:
  assumes wf: "poll_wf s" and un: "\<forall>c. \<not> attached s k c" and own: "loopOf c = loopId s" and neg: "index c < 0"
    and free: "channels s (fd c) = None" "0 \<le> fd c"
  shows "\<exists>s'. enableReading k (s\<lparr>store := (store s)(k \<mapsto> c)\<rparr>) = Inr s' \<and> poll_wf s'
    \<and> s' = s\<lparr>pollfds := pollfds s @ [\<lparr>pfd_fd = fd c, pfd_events = ucast (events c OR kReadEvent), pfd_revents = 0\<rparr>],
        store := (store s)(k \<mapsto> c\<lparr>events := events c OR kReadEvent, index := int (length (pollfds s))\<rparr>),
        channels := (channels s)(fd c \<mapsto> k)\<rparr>"
proof -
  let ?s = "s\<lparr>store := (store s)(k \<mapsto> c)\<rparr>"
  have "poll_wf ?s" using wf un by (rule poll_wf_unwatched)
  from setEvents_new [OF this, of k c "\<lambda>c. events c OR kReadEvent"] own neg free
  show ?thesis by (simp add: enableReading_def)
qed

lemma EventLoop_ctor_run:
  assumes "tc \<noteq> wc" and "tfd \<noteq> wfd" and "0 \<le> tfd" and "0 \<le> wfd"
  shows "\<exists>s'. EventLoop_ctor (tc, tfd) (wc, wfd) self None s = Inr (Some self, [], s')
    \<and> poll_wf s' \<and> channels s' = [tfd \<mapsto> tc, wfd \<mapsto> wc] \<and> loopId s' = self \<and> \<not> looping s'
    \<and> pendingFunctors s' = [] \<and> net_state.more s' = net_state.more s \<and> length (pollfds s') = 2
    \<and> store s' = (store s)(tc \<mapsto> loop_channel self tfd TimerRead 0, wc \<mapsto> loop_channel self wfd WakeupRead 1)"
proof -
  let ?ct = "(Channel_new self tfd)\<lparr>readCallback := Some TimerRead\<rparr>" and ?cw = "(Channel_new self wfd)\<lparr>readCallback := Some WakeupRead\<rparr>"
  let ?s1 = "s\<lparr>loopId := self, looping := False, quitFlag := False, callingPendingFunctors := False,
                 pollfds := [], channels := Map.empty, pendingFunctors := [], wakeupCount := 0\<rparr>"
  have "poll_wf ?s1" by (simp add: poll_wf_def)
  from enable_fresh [OF this, of tc ?ct] assms(3)
  obtain s2 where s2: "enableReading tc (?s1\<lparr>store := (store ?s1)(tc \<mapsto> ?ct)\<rparr>) = Inr s2" "poll_wf s2"
      "s2 = ?s1\<lparr>pollfds := pollfds ?s1 @ [\<lparr>pfd_fd = tfd, pfd_events = ucast (kReadEvent :: 32 word), pfd_revents = 0\<rparr>],
        store := (store ?s1)(tc \<mapsto> loop_channel self tfd TimerRead 0), channels := (channels ?s1)(tfd \<mapsto> tc)\<rparr>"
    by (auto simp: Channel_new_def attached_def loop_channel_def)
  from enable_fresh [OF s2(2), of wc ?cw] assms
  obtain s3 where s3: "enableReading wc (s2\<lparr>store := (store s2)(wc \<mapsto> ?cw)\<rparr>) = Inr s3" "poll_wf s3"
      "s3 = s2\<lparr>pollfds := pollfds s2 @ [\<lparr>pfd_fd = wfd, pfd_events = ucast (kReadEvent :: 32 word), pfd_revents = 0\<rparr>],
        store := (store s2)(wc \<mapsto> loop_channel self wfd WakeupRead 1), channels := (channels s2)(wfd \<mapsto> wc)\<rparr>"
    unfolding s2(3) by (auto simp: Channel_new_def attached_def loop_channel_def)
  have "EventLoop_ctor (tc, tfd) (wc, wfd) self None s = Inr (Some self, [], s3)"
    using s2(1) s3(1) assms(3,4)
    by (simp add: EventLoop_ctor_def createTimerfd_def createEventfd_def TimerQueue_ctor_def Let_def)
  then show ?thesis
    using s3(2) unfolding s3(3) s2(3) using assms(1) by simp
qed

subsection \<open>The program\<close>

text \<open>
  \<open>main\<close>: the server's packet is set, the loop is made, the server is made on it with its
  acceptor's channel at \<open>ch\<close> and started; \<open>arg\<close> is \<open>atoi(argv[1])\<close> when an argument is given,
  the number of threads.  Setting up the asynchronous log does not touch this state.
\<close>

definition main_start :: "int option \<Rightarrow> nat \<times> int \<Rightarrow> nat \<times> int \<Rightarrow> nat \<Rightarrow> nat \<Rightarrow> int \<Rightarrow> app_state \<Rightarrow> app_state res" where
  "main_start arg timer event self ch sockfd s =
     res_bind (EventLoop_ctor timer event self None (s\<lparr>serPacket := main_packet, registerTable := RegisterTable_new\<rparr>))
       (\<lambda>(t_loop, logged, s1).
          let s2 = TcpServer_ctor ch sockfd ''Server'' s1
          in res_bind (case arg of Some n \<Rightarrow> TcpServer_setThreadNum n s2 | None \<Rightarrow> Inr s2)
               (TcpServer_start (\<lambda>i. self + 1 + i) True))"

definition main :: "world \<Rightarrow> int option \<Rightarrow> nat \<times> int \<Rightarrow> nat \<times> int \<Rightarrow> nat \<Rightarrow> nat \<Rightarrow> int \<Rightarrow> (int \<times> 16 word list) list \<Rightarrow>
    app_state \<Rightarrow> app_state res" where
  "main W arg timer event self ch sockfd answers s =
     res_bind (main_start arg timer event self ch sockfd s)
       (EventLoop_loop (run_callback W) (run_functor (w_kernel W) (onConnection (w_kernel W))) answers)"

lemma main_packet_fits: "length (getPacketAsString main_packet) \<le> vec_max"
  by (simp add: main_packet_def setRand_def setCer_def getPacketAsString_def)

text \<open>A server that has no connection yet.\<close>

lemma server_wf_empty:
  assumes "poll_wf s" and "connections s = []" and "pendingFunctors s = []" and "nextConnId s = 1"
    and "loops (pool s) = []" and "baseLoop (pool s) = loopId s"
  shows "server_wf s" and "held s = {}"
  using assms by (simp_all add: server_wf_def server_inv_def held_def mapped_def)

lemma started_inv:
  assumes wf: "poll_wf s" and ch: "channels s = [tfd \<mapsto> tc, wfd \<mapsto> wc, sockfd \<mapsto> k]"
    and st: "store s tc = Some (loop_channel l tfd TimerRead 0)" "store s wc = Some (loop_channel l wfd WakeupRead 1)"
      "store s k = Some (loop_channel l sockfd AcceptRead 2)"
    and d: "distinct [tc, wc, k]" "distinct [tfd, wfd, sockfd]" and k: "acceptChannel s = k"
    and e: "connections s = []" "pendingFunctors s = []" "nextConnId s = 1" "loops (pool s) = []" "baseLoop (pool s) = loopId s"
  shows "pass_inv {tc, wc} s"
proof -
  have swf: "server_wf s" and held: "held s = {}"
    using wf e by (rule server_wf_empty)+
  have at: "attached s j c \<longleftrightarrow> j = tc \<and> c = loop_channel l tfd TimerRead 0 \<or> j = wc \<and> c = loop_channel l wfd WakeupRead 1
      \<or> j = k \<and> c = loop_channel l sockfd AcceptRead 2" for j c
    using ch st d by (auto simp: attached_def loop_channel_def Channel_new_def split: if_splits)
  have "bound_to {tc, wc} s j c" if "attached s j c" for j c
    using that d(1) k unfolding at by (auto simp: bound_to_def loop_channel_def Channel_new_def)
  then show ?thesis
    using swf held e(2) k unfolding pass_inv_def at by (auto simp: loop_channel_def)
qed

lemma start_fresh:
  "TcpServer_start f True (TcpServer_ctor ch sockfd name s) = enableReading ch
    ((TcpServer_ctor ch sockfd name s)\<lparr>server_started := True, pool := (EventLoopThreadPool_new (loopId s))\<lparr>started := True\<rparr>, listening := True\<rparr>)"
  by (simp add: TcpServer_ctor_def TcpServer_start_def runInLoop_def Acceptor_listen_def pool_start_def
      EventLoopThreadPool_new_def)

lemma threads_zero: "TcpServer_setThreadNum 0 (TcpServer_ctor ch sockfd name s) = Inr (TcpServer_ctor ch sockfd name s)"
  by (simp add: TcpServer_setThreadNum_def TcpServer_ctor_def setThreadNum_def EventLoopThreadPool_new_def)

lemma main_start_run:
  assumes d: "distinct [tc, wc, ch]" "distinct [tfd, wfd, sockfd]" and pos: "0 \<le> tfd" "0 \<le> wfd" "0 \<le> sockfd"
    and arg: "arg = None \<or> arg = Some 0"
  shows "\<exists>s'. main_start arg (tc, tfd) (wc, wfd) self ch sockfd s = Inr s' \<and> app_inv {tc, wc} s' \<and> \<not> looping s'
    \<and> pendingFunctors s' = [] \<and> acceptChannel s' = ch \<and> connections s' = []"
proof -
  let ?s = "s\<lparr>serPacket := main_packet, registerTable := RegisterTable_new\<rparr>"
  let ?ca = "(Channel_new self sockfd)\<lparr>readCallback := Some AcceptRead\<rparr>"
  have ne: "tc \<noteq> wc" "tfd \<noteq> wfd" "ch \<noteq> tc" "ch \<noteq> wc" "sockfd \<noteq> tfd" "sockfd \<noteq> wfd" using d by auto
  obtain s1 where s1: "EventLoop_ctor (tc, tfd) (wc, wfd) self None ?s = Inr (Some self, [], s1)"
      "poll_wf s1" "channels s1 = [tfd \<mapsto> tc, wfd \<mapsto> wc]" "loopId s1 = self" "\<not> looping s1"
      "pendingFunctors s1 = []" "net_state.more s1 = net_state.more ?s"
      "length (pollfds s1) = 2"
      "store s1 = (store ?s)(tc \<mapsto> loop_channel self tfd TimerRead 0, wc \<mapsto> loop_channel self wfd WakeupRead 1)"
    using EventLoop_ctor_run [OF ne(1,2) pos(1,2)] by blast
  let ?s2 = "s1\<lparr>server_name := ''Server'', server_started := True, nextConnId := 1, connections := [],
      pool := (EventLoopThreadPool_new self)\<lparr>started := True\<rparr>, acceptChannel := ch, listening := True\<rparr>"
  have wf2: "poll_wf ?s2" using s1(2) poll_cong(1) [of ?s2 s1] by simp
  have un: "\<forall>c. \<not> attached ?s2 ch c" using s1(3) ne by (simp add: attached_def)
  from enable_fresh [OF wf2 un, of ?ca] ne pos(3) s1(3,4)
  obtain s3 where s3: "enableReading ch (?s2\<lparr>store := (store ?s2)(ch \<mapsto> ?ca)\<rparr>) = Inr s3" "poll_wf s3"
      "s3 = ?s2\<lparr>pollfds := pollfds ?s2 @ [\<lparr>pfd_fd = sockfd, pfd_events = ucast (kReadEvent :: 32 word), pfd_revents = 0\<rparr>],
        store := (store ?s2)(ch \<mapsto> ?ca\<lparr>events := kReadEvent, index := int (length (pollfds ?s2))\<rparr>),
        channels := (channels ?s2)(sockfd \<mapsto> ch)\<rparr>"
    by (auto simp: Channel_new_def)
  have "(TcpServer_ctor ch sockfd ''Server'' s1)\<lparr>server_started := True,
        pool := (EventLoopThreadPool_new self)\<lparr>started := True\<rparr>, listening := True\<rparr>
      = ?s2\<lparr>store := (store ?s2)(ch \<mapsto> ?ca)\<rparr>"
    using s1(4) by (cases s1) (simp add: TcpServer_ctor_def)
  then have run: "main_start arg (tc, tfd) (wc, wfd) self ch sockfd s = Inr s3"
    using s1(1,4) s3(1) arg by (auto simp: main_start_def start_fresh threads_zero Let_def)
  have "pass_inv {tc, wc} s3"
  proof (rule started_inv [OF s3(2), where l = self and k = ch])
    show "store s3 ch = Some (loop_channel self sockfd AcceptRead 2)"
      using s1(8) unfolding s3(3) by (simp add: loop_channel_def Channel_new_def)
    show "store s3 tc = Some (loop_channel self tfd TimerRead 0)" "store s3 wc = Some (loop_channel self wfd WakeupRead 1)"
      using s1(9) ne unfolding s3(3) by simp_all
  qed (use s1 ne d in \<open>simp_all add: s3(3) EventLoopThreadPool_new_def\<close>)
  moreover have "serPacket s3 = main_packet" using s1(7) unfolding s3(3) by (cases s1; cases s; simp)
  ultimately show ?thesis
    using run s1(5,6) main_packet_fits unfolding s3(3) by (simp add: app_inv_def)
qed

subsection \<open>Any number of passes\<close>

text \<open>
  What the run asks of the world: in every pass that is made, \<open>poll(2)\<close> answers for the
  array it was given, and what \<open>accept4(2)\<close> and the allocator hand out during the pass is not
  in use when it begins.
\<close>

fun passes_ok :: "world \<Rightarrow> (int \<times> 16 word list) list \<Rightarrow> 'm app_state_scheme \<Rightarrow> bool" where
  "passes_ok W [] s \<longleftrightarrow> True"
| "passes_ok W (r # rs) s \<longleftrightarrow> quitFlag s \<or> (fst r < 0 \<or> poll_answer_ok (pollfds s) (fst r) (snd r))
     \<and> (case loop_body (run_callback W) (run_functor (w_kernel W) (onConnection (w_kernel W))) r s of
          Inl e \<Rightarrow> True
        | Inr s' \<Rightarrow> list_all (\<lambda>i. fresh_answer W i s) [calls s ..< calls s'] \<and> passes_ok W rs s')"

definition run_ok :: "world \<Rightarrow> int option \<Rightarrow> nat \<times> int \<Rightarrow> nat \<times> int \<Rightarrow> nat \<Rightarrow> nat \<Rightarrow> int \<Rightarrow> (int \<times> 16 word list) list \<Rightarrow>
    app_state \<Rightarrow> bool" where
  "run_ok W arg timer event self ch sockfd answers s =
     (case main_start arg timer event self ch sockfd s of
        Inl e \<Rightarrow> True | Inr s1 \<Rightarrow> passes_ok W answers (s1\<lparr>looping := True, quitFlag := False\<rparr>))"

lemma set_flags:
  assumes inv: "app_inv Y s"
  shows "app_inv Y (s\<lparr>looping := b\<rparr>)" and "app_inv Y (s\<lparr>looping := b, quitFlag := q\<rparr>)"
proof -
  have p: "pass_inv Y s" using inv by (simp add: app_inv_def)
  have "stays Y s (s\<lparr>looping := b\<rparr>)"
    by (rule quiet_stays [OF p]) (use pass_invD(3) [OF p] poll_cong(1) [of "s\<lparr>looping := b\<rparr>" s] in
        \<open>simp_all add: kept_same\<close>)
  with inv show "app_inv Y (s\<lparr>looping := b\<rparr>)" by (simp add: stays_def app_inv_def)
  have "stays Y s (s\<lparr>looping := b, quitFlag := q\<rparr>)"
    by (rule quiet_stays [OF p]) (use pass_invD(3) [OF p] poll_cong(1) [of "s\<lparr>looping := b, quitFlag := q\<rparr>" s] in
        \<open>simp_all add: kept_same\<close>)
  with inv show "app_inv Y (s\<lparr>looping := b, quitFlag := q\<rparr>)" by (simp add: stays_def app_inv_def)
qed

lemma passes_keep:
  assumes K: "reads_fit (w_kernel W)"
  shows "app_inv Y s \<Longrightarrow> pendingFunctors s = [] \<Longrightarrow> passes_ok W answers s \<Longrightarrow>
    loop_while (run_callback W) (run_functor (w_kernel W) (onConnection (w_kernel W))) answers s = Inr s' \<Longrightarrow>
    app_inv Y s' \<and> pendingFunctors s' = [] \<and> acceptChannel s' = acceptChannel s"
proof (induction answers arbitrary: s)
  case Nil
  then show ?case using set_flags(1) [OF Nil.prems(1)] by (auto simp: loop_while.simps split: if_splits)
next
  case (Cons r rs)
  show ?case
  proof (cases "quitFlag s")
    case True
    with Cons.prems set_flags(1) [OF Cons.prems(1)] show ?thesis by (auto simp: loop_while.simps)
  next
    case False
    let ?body = "loop_body (run_callback W) (run_functor (w_kernel W) (onConnection (w_kernel W)))"
    obtain s1 where s1: "?body (fst r, snd r) s = Inr s1" and
      rest: "loop_while (run_callback W) (run_functor (w_kernel W) (onConnection (w_kernel W))) rs s1 = Inr s'"
      using Cons.prems(4) False by (auto simp: loop_while.simps)
    have ok: "fst r < 0 \<or> poll_answer_ok (pollfds s) (fst r) (snd r)" "\<forall>i. calls s \<le> i \<and> i < calls s1 \<longrightarrow> fresh_answer W i s"
      and ok1: "passes_ok W rs s1"
      using Cons.prems(3) False s1 by (auto simp: list_all_iff)
    have "app_inv Y s1 \<and> pendingFunctors s1 = [] \<and> acceptChannel s1 = acceptChannel s"
      by (rule pass_keeps [OF K Cons.prems(1) ok(1) s1 ok(2)])
    then show ?thesis using Cons.IH [OF _ _ ok1 rest] by simp
  qed
qed

text \<open>What the invariant says of a server between two passes.\<close>

lemma app_inv_watched:
  assumes inv: "app_inv Y s" and "pendingFunctors s = []"
  shows "{k. watched s k} = insert (acceptChannel s) (Y \<union> channel_at s ` set (mapped s))"
proof -
  have p: "pass_inv Y s" using inv by (simp add: app_inv_def)
  have h: "held s = set (mapped s)" using assms(2) by (simp add: held_def)
  show ?thesis
    using pass_invD(4,5,7,8) [OF p] unfolding watched_def h [symmetric] bound_to_def by blast
qed

text \<open>
  C2 (invariant). The whole program, from \<open>main\<close> on: without extra threads: the loop and
  its two descriptors are made, the server is made and started, and the loop runs any number of passes, whatever the
  clients send and however the kernel answers.  Wherever the run arrives without a fault of a
  handler, the server is consistent, no functor waits, the descriptors watched are exactly the
  timer's, the event descriptor's, the listening one and those of the connections in the map, and
  every connection in the map is alive with its channel in the poller bound to it.
\<close>
theorem server_run_consistent:
  assumes "distinct [tc, wc, ch]" and "distinct [tfd, wfd, sockfd]" and "0 \<le> tfd" "0 \<le> wfd" "0 \<le> sockfd" and "arg = None \<or> arg = Some 0"
    and "reads_fit (w_kernel W)" and "run_ok W arg (tc, tfd) (wc, wfd) self ch sockfd answers s"
    and "main W arg (tc, tfd) (wc, wfd) self ch sockfd answers s = Inr s'"
  shows "server_wf s' \<and> pendingFunctors s' = [] \<and> acceptChannel s' = ch
    \<and> {k. watched s' k} = {tc, wc, ch} \<union> channel_at s' ` set (mapped s')
    \<and> (\<forall>a \<in> set (mapped s'). \<exists>c ck. conn_at s' a c ck \<and> (state c = kConnected \<or> state c = kDisconnecting)
         \<and> readCallback ck = Some (ConnRead a))"
proof -
  obtain s1 where s1: "main_start arg (tc, tfd) (wc, wfd) self ch sockfd s = Inr s1" "app_inv {tc, wc} s1" "\<not> looping s1"
      "pendingFunctors s1 = []" "acceptChannel s1 = ch"
    using main_start_run [OF assms(1-6)] by blast
  have k: "app_inv {tc, wc} s' \<and> pendingFunctors s' = [] \<and> acceptChannel s' = ch"
    using passes_keep [OF assms(7) set_flags(2) [OF s1(2), where b = True and q = False], of answers s'] s1 assms(8,9)
    by (simp add: main_def run_ok_def EventLoop_loop_def)
  then have p: "pass_inv {tc, wc} s'" and h: "held s' = set (mapped s')" by (simp_all add: app_inv_def held_def)
  have "\<exists>c ck. conn_at s' a c ck \<and> (state c = kConnected \<or> state c = kDisconnecting) \<and> readCallback ck = Some (ConnRead a)"
    if a: "a \<in> set (mapped s')" for a
  proof -
    obtain c ch' where c: "conn_at s' a c ch'" "state c = kConnected \<or> state c = kDisconnecting" "channel_at s' a = channel c"
      using heldE [OF p] a h by metis
    moreover obtain ck where "attached s' (channel_at s' a) ck" "readCallback ck = Some (ConnRead a)"
      using pass_invD(7) [OF p] a h by blast
    ultimately show ?thesis by (auto simp: conn_at_def attached_def)
  qed
  then show ?thesis using k p app_inv_watched [of "{tc, wc}" s'] pass_invD(1) by auto
qed

definition idle_app :: app_state where
  "idle_app = \<lparr>loopId = 0, store = Map.empty, pollfds = [], channels = Map.empty, looping = False, quitFlag = False,
     callingPendingFunctors = False, pendingFunctors = [], wakeupCount = 0, conns = Map.empty, calls = 0,
     wire = \<lambda>_. [], shut = \<lambda>_. False, server_name = [], server_started = False, nextConnId = 1, connections = [],
     pool = EventLoopThreadPool_new 0, acceptChannel = 0, listening = False, hasWriteComplete = False, posted = [],
     registerTable = RegisterTable_new, serPacket = fresh_packet\<rparr>"

text \<open>A world in which everybody who connects gets descriptor 20 and every write is taken whole.\<close>

definition demo_world :: world where
  "demo_world = \<lparr>w_kernel = \<lparr>k_write = \<lambda>t f d. int (length d), k_readv = \<lambda>t f n. Inr []\<rparr>, w_accept = \<lambda>_. Inr (20, sockaddr_zero), w_sockname = \<lambda>_. None, w_new = \<lambda>_. (40, 50)\<rparr>"

definition demo_loop_channel :: "int \<Rightarrow> int \<Rightarrow> net_callback \<Rightarrow> net_callback Channel" where
  "demo_loop_channel f i cb = \<lparr>eventHandling = False, loopOf = 0, fd = f, events = 3, revents = 0, index = i,
     readCallback = Some cb, writeCallback = None, errorCallback = None, closeCallback = None\<rparr>"

definition demo_started :: app_state where
  "demo_started = \<lparr>loopId = 0, store = [7 \<mapsto> demo_loop_channel 3 0 TimerRead, 2 \<mapsto> demo_loop_channel 4 1 WakeupRead,
       5 \<mapsto> demo_loop_channel 6 2 AcceptRead],
     pollfds = [\<lparr>pfd_fd = 3, pfd_events = 3, pfd_revents = 0\<rparr>, \<lparr>pfd_fd = 4, pfd_events = 3, pfd_revents = 0\<rparr>,
       \<lparr>pfd_fd = 6, pfd_events = 3, pfd_revents = 0\<rparr>],
     channels = [3 \<mapsto> 7, 4 \<mapsto> 2, 6 \<mapsto> 5], looping = False, quitFlag = False, callingPendingFunctors = False,
     pendingFunctors = [], wakeupCount = 0, conns = Map.empty, calls = 0, wire = \<lambda>_. [], shut = \<lambda>_. False,
     server_name = ''Server'', server_started = True, nextConnId = 1, connections = [],
     pool = \<lparr>baseLoop = 0, started = True, numThreads = 0, next_index = 0, loops = []\<rparr>, acceptChannel = 5,
     listening = True, hasWriteComplete = False, posted = [], registerTable = RegisterTable_new, serPacket = main_packet\<rparr>"

lemma demo_start: "main_start None (7, 3) (2, 4) 0 5 6 idle_app = Inr demo_started"
  by (simp add: main_start_def EventLoop_ctor_def idle_app_def createTimerfd_def TimerQueue_ctor_def createEventfd_def
     TcpServer_start_def TcpServer_ctor_def Let_def enableReading_def Channel_setEvents_def with_channel_def Channel_new_def
     EventLoop_updateChannel_def Poller_updateChannel_def event_consts
     EventLoopThreadPool_new_def pool_start_def runInLoop_def Acceptor_listen_def demo_started_def demo_loop_channel_def)

text \<open>One pass, in which a client connects.\<close>

lemma demo_pass:
  "\<exists>s'. loop_body (run_callback demo_world) (run_functor (w_kernel demo_world) (onConnection (w_kernel demo_world)))
       (1, [0, 0, 1]) (demo_started\<lparr>looping := True, quitFlag := False\<rparr>) = Inr s'
     \<and> calls s' = 2 \<and> mapped s' = [40] \<and> channel_at s' 40 = 50 \<and> \<not> quitFlag s'
     \<and> wire s' 20 = ''cdefghijklmnopqrstuv1''"
proof -
  have new: "readableBytes Buffer_new = 0" by (simp add: readableBytes_def Buffer_new_def size_sub_def)
  show ?thesis
    apply (simp add: loop_body_def Poller_poll_def fillActiveChannels_def demo_started_def event_consts with_channel_def
        Let_def handleEvent_def demo_loop_channel_def)
    apply (simp add: demo_world_def Acceptor_handleRead_def Socket_accept_def sockets_accept_def newConnection_def run_opt_def
        int_inc_def getNextLoop_def Let_def)
    apply (simp add: runInLoop_def TcpConnection_ctor_def with_conn_def TcpConnection_new_def set_conn_def run_in_def
        connectEstablished_def enableReading_def Channel_new_def Channel_setEvents_def EventLoop_updateChannel_def
        Poller_updateChannel_def with_channel_def event_consts)
    apply (simp add: CerPacket_init_def onConnection_def with_conn_def connected_def send_def sendInLoop_def sys_write_def new
        main_packet_def setRand_def setCer_def getPacketAsString_def c_strlen_prefix_def with_channel_def isWriting_def
        event_consts Let_def)
    apply (simp add: run_opt_def doPendingFunctors_def Let_def mapped_def channel_at_def)
    done
qed

theorem server_run_consistent_witness:
  "\<exists>s'. main demo_world None (7, 3) (2, 4) 0 5 6 [(1, [0, 0, 1])] idle_app = Inr s' \<and> server_wf s'
     \<and> mapped s' = [40] \<and> {k. watched s' k} = {2, 5, 7, 50}"
proof -
  let ?s = "demo_started\<lparr>looping := True, quitFlag := False\<rparr>"
  obtain s' where s': "loop_body (run_callback demo_world) (run_functor (w_kernel demo_world) (onConnection (w_kernel demo_world)))
       (1, [0, 0, 1]) ?s = Inr s'" "calls s' = 2" "mapped s' = [40]" "channel_at s' 40 = 50" "\<not> quitFlag s'"
    using demo_pass by blast
  have m: "main demo_world None (7, 3) (2, 4) 0 5 6 [(1, [0, 0, 1])] idle_app = Inr s'"
    using s'(1,5) by (simp add: main_def demo_start EventLoop_loop_def loop_while.simps demo_started_def)
  have k: "reads_fit (w_kernel demo_world)" by (simp add: reads_fit_def demo_world_def)
  have "fresh_answer demo_world i ?s" for i
    by (simp add: fresh_answer_def demo_world_def Socket_accept_def sockets_accept_def fresh_for_def demo_started_def)
  moreover have "poll_answer_ok (pollfds ?s) 1 [0, 0, 1]"
    by (simp add: poll_answer_ok_def demo_started_def less_Suc_eq)
  ultimately have ok: "run_ok demo_world None (7, 3) (2, 4) 0 5 6 [(1, [0, 0, 1])] idle_app"
    using s'(1) by (simp add: run_ok_def demo_start list_all_iff)
  show ?thesis
    using server_run_consistent [OF _ _ _ _ _ _ k ok m] m s'(3,4) by (auto simp: insert_commute)
qed

end
