(* ===== verification/Socket_Table.thy ===== *)
theory Socket_Table
  imports Inet_Address
begin

unbundle bit_operations_syntax

section \<open>Sockets as descriptors\<close>

text \<open>
  Model of the remaining operations of \<open>src/SocketsOps.cpp\<close> and of \<open>src/Socket.cpp\<close> and of the
  socket part of the constructor and of \<open>listen\<close> in \<open>src/Acceptor.cpp\<close>.  The kernel's table of
  open sockets is a map from descriptors; a system call on a descriptor that is not open
  fails, and whether it grants a call on an open one is a parameter.  What is logged is
  returned as a list of severities.
\<close>

subsection \<open>State and system calls\<close>

record sock =
  status_flags :: "32 word"
  fd_flags :: "32 word"
  reuse_addr :: bool
  tcp_nodelay :: bool
  bound :: "sockaddr_in option"
  listens :: bool
  write_down :: bool

type_synonym sock_table = "int \<rightharpoonup> sock"

definition O_NONBLOCK :: "32 word" where "O_NONBLOCK = 0x800"
definition FD_CLOEXEC :: "32 word" where "FD_CLOEXEC = 1"
definition O_RDWR :: "32 word" where "O_RDWR = 2"

text \<open>The flags that \<open>fcntl(F_SETFL)\<close> may change: append, non-blocking, async, direct, no atime.\<close>

definition settable_flags :: "32 word" where "settable_flags = 0x46C00"

definition sock_new :: "32 word \<Rightarrow> 32 word \<Rightarrow> sock" where
  "sock_new fl cl = \<lparr>status_flags = O_RDWR OR fl, fd_flags = cl, reuse_addr = False, tcp_nodelay = False,
     bound = None, listens = False, write_down = False\<rparr>"

definition sys_socket :: "int \<Rightarrow> 32 word \<Rightarrow> 32 word \<Rightarrow> sock_table \<Rightarrow> int \<times> sock_table" where
  "sys_socket ret fl cl T = (if ret < 0 then (- 1, T) else (ret, T(ret \<mapsto> sock_new fl cl)))"

definition sys_change :: "bool \<Rightarrow> (sock \<Rightarrow> sock) \<Rightarrow> int \<Rightarrow> sock_table \<Rightarrow> int \<times> sock_table" where
  "sys_change granted f d T =
     (case T d of Some s \<Rightarrow> if granted then (0, T(d \<mapsto> f s)) else (- 1, T) | None \<Rightarrow> (- 1, T))"

definition sys_close :: "int \<Rightarrow> sock_table \<Rightarrow> int \<times> sock_table" where
  "sys_close d T = (case T d of Some s \<Rightarrow> (0, T(d := None)) | None \<Rightarrow> (- 1, T))"

definition fcntl_getfl :: "int \<Rightarrow> sock_table \<Rightarrow> 32 word" where
  "fcntl_getfl d T = (case T d of Some s \<Rightarrow> status_flags s | None \<Rightarrow> - 1)"

definition fcntl_getfd :: "int \<Rightarrow> sock_table \<Rightarrow> 32 word" where
  "fcntl_getfd d T = (case T d of Some s \<Rightarrow> fd_flags s | None \<Rightarrow> - 1)"

definition fcntl_setfl :: "int \<Rightarrow> 32 word \<Rightarrow> sock_table \<Rightarrow> int \<times> sock_table" where
  "fcntl_setfl d fl = sys_change True
     (\<lambda>s. s\<lparr>status_flags := (status_flags s AND NOT settable_flags) OR (fl AND settable_flags)\<rparr>) d"

definition fcntl_setfd :: "int \<Rightarrow> 32 word \<Rightarrow> sock_table \<Rightarrow> int \<times> sock_table" where
  "fcntl_setfd d fl = sys_change True (\<lambda>s. s\<lparr>fd_flags := fl AND FD_CLOEXEC\<rparr>) d"

subsection \<open>The wrappers\<close>

text \<open>The results of the two \<open>F_SET\<close> calls are not looked at.\<close>

definition setNonBlockAndCloseOnExec :: "int \<Rightarrow> sock_table \<Rightarrow> sock_table" where
  "setNonBlockAndCloseOnExec sockfd T =
     (let flags = fcntl_getfl sockfd T;
          flags1 = flags OR O_NONBLOCK;
          (ret, T1) = fcntl_setfl sockfd flags1 T;
          flags2 = fcntl_getfd sockfd T1;
          flags3 = flags2 OR FD_CLOEXEC;
          (ret2, T2) = fcntl_setfd sockfd flags3 T1
      in T2)"

text \<open>The branch for \<open>VALGRIND\<close> and the other one; \<open>ret\<close> is what \<open>socket(2)\<close> returns.\<close>

definition socket_valgrind :: "int \<Rightarrow> sock_table \<Rightarrow> int \<times> severity list \<times> sock_table" where
  "socket_valgrind ret T =
     (let (sockfd, T1) = sys_socket ret 0 0 T;
          logged = (if sockfd < 0 then [FATAL] else [])
      in (sockfd, logged, setNonBlockAndCloseOnExec sockfd T1))"

definition socket_nonblocking :: "int \<Rightarrow> sock_table \<Rightarrow> int \<times> severity list \<times> sock_table" where
  "socket_nonblocking ret T =
     (let (sockfd, T1) = sys_socket ret O_NONBLOCK FD_CLOEXEC T;
          (fd, logged) = createNonblockingOrDie sockfd
      in (fd, logged, T1))"

definition sockets_connect :: "(int \<Rightarrow> sockaddr_in \<Rightarrow> int) \<Rightarrow> int \<Rightarrow> sockaddr_in \<Rightarrow> int" where
  "sockets_connect sys_connect sockfd addr = sys_connect sockfd addr"

definition sockets_close :: "int \<Rightarrow> sock_table \<Rightarrow> severity list \<times> sock_table" where
  "sockets_close sockfd T = (let (ret, T1) = sys_close sockfd T in (if ret < 0 then [ERROR] else [], T1))"

definition sockets_shutdownWrite :: "bool \<Rightarrow> int \<Rightarrow> sock_table \<Rightarrow> severity list \<times> sock_table" where
  "sockets_shutdownWrite granted sockfd T =
     (let (ret, T1) = sys_change granted (\<lambda>s. s\<lparr>write_down := True\<rparr>) sockfd T
      in (if ret < 0 then [TRACE] else [], T1))"

text \<open>\<open>getsockopt(SO_ERROR)\<close> answers with \<open>errno\<close> or with the pending error.\<close>

definition getSocketError :: "int + int \<Rightarrow> int" where
  "getSocketError answer = (case answer of Inl err \<Rightarrow> err | Inr optval \<Rightarrow> optval)"

definition Socket_bindAddress :: "bool \<Rightarrow> sockaddr_in \<Rightarrow> int \<Rightarrow> sock_table \<Rightarrow> severity list \<times> sock_table" where
  "Socket_bindAddress granted addr sockfd T =
     (let (ret, T1) = sys_change granted (\<lambda>s. s\<lparr>bound := Some addr\<rparr>) sockfd T in (bindOrDie ret, T1))"

definition Socket_listen :: "bool \<Rightarrow> int \<Rightarrow> sock_table \<Rightarrow> severity list \<times> sock_table" where
  "Socket_listen granted sockfd T =
     (let (ret, T1) = sys_change granted (\<lambda>s. s\<lparr>listens := True\<rparr>) sockfd T in (listenOrDie ret, T1))"

definition Socket_setReuseAddr :: "bool \<Rightarrow> bool \<Rightarrow> int \<Rightarrow> sock_table \<Rightarrow> sock_table" where
  "Socket_setReuseAddr granted on sockfd T = snd (sys_change granted (\<lambda>s. s\<lparr>reuse_addr := on\<rparr>) sockfd T)"

definition Socket_setTcpNoDelay :: "bool \<Rightarrow> bool \<Rightarrow> int \<Rightarrow> sock_table \<Rightarrow> sock_table" where
  "Socket_setTcpNoDelay granted on sockfd T = snd (sys_change granted (\<lambda>s. s\<lparr>tcp_nodelay := on\<rparr>) sockfd T)"

definition Socket_shutdownWrite :: "bool \<Rightarrow> int \<Rightarrow> sock_table \<Rightarrow> severity list \<times> sock_table" where
  "Socket_shutdownWrite granted sockfd T = sockets_shutdownWrite granted sockfd T"

definition Socket_delete :: "int \<Rightarrow> sock_table \<Rightarrow> severity list \<times> sock_table" where
  "Socket_delete sockfd T = sockets_close sockfd T"

text \<open>
  The listening socket: \<open>Acceptor::Acceptor\<close> and the call in \<open>Acceptor::listen\<close>.  The answers
  are what \<open>socket(2)\<close> returns and whether the three later calls are granted.
\<close>

definition Acceptor_socket :: "int \<Rightarrow> bool \<Rightarrow> bool \<Rightarrow> sockaddr_in \<Rightarrow> sock_table \<Rightarrow> int \<times> severity list \<times> sock_table" where
  "Acceptor_socket ret reuse_ok bind_ok listenAddr T =
     (let (sockfd, logged, T1) = socket_nonblocking ret T;
          T2 = Socket_setReuseAddr reuse_ok True sockfd T1;
          (logged2, T3) = Socket_bindAddress bind_ok listenAddr sockfd T2
      in (sockfd, logged @ logged2, T3))"

definition Acceptor_open :: "int \<Rightarrow> bool \<Rightarrow> bool \<Rightarrow> bool \<Rightarrow> sockaddr_in \<Rightarrow> sock_table \<Rightarrow> int \<times> severity list \<times> sock_table" where
  "Acceptor_open ret reuse_ok bind_ok listen_ok listenAddr T =
     (let (sockfd, logged, T1) = Acceptor_socket ret reuse_ok bind_ok listenAddr T;
          (logged2, T2) = Socket_listen listen_ok sockfd T1
      in (sockfd, logged @ logged2, T2))"

subsection \<open>Facts about the system calls\<close>

lemma sys_change_other: "d' \<noteq> d \<Longrightarrow> snd (sys_change g f d T) d' = T d'"
  by (simp add: sys_change_def split: option.splits)

lemma sys_change_open: "T d = Some s \<Longrightarrow> sys_change g f d T = (if g then (0, T(d \<mapsto> f s)) else (- 1, T))"
  by (simp add: sys_change_def)

lemma sys_change_closed: "T d = None \<Longrightarrow> sys_change g f d T = (- 1, T)"
  by (simp add: sys_change_def)

lemma flag_values:
  "(O_RDWR AND NOT settable_flags) OR ((O_RDWR OR O_NONBLOCK) AND settable_flags) = O_RDWR OR O_NONBLOCK"
  "(0 OR FD_CLOEXEC) AND FD_CLOEXEC = FD_CLOEXEC"
  by (simp_all add: O_RDWR_def settable_flags_def O_NONBLOCK_def FD_CLOEXEC_def)

lemma setNonBlock_run:
  assumes "T d = Some s"
  shows "setNonBlockAndCloseOnExec d T = T(d \<mapsto> s\<lparr>
     status_flags := (status_flags s AND NOT settable_flags) OR ((status_flags s OR O_NONBLOCK) AND settable_flags),
     fd_flags := (fd_flags s OR FD_CLOEXEC) AND FD_CLOEXEC\<rparr>)"
  using assms by (simp add: setNonBlockAndCloseOnExec_def fcntl_setfl_def fcntl_setfd_def fcntl_getfl_def
      fcntl_getfd_def sys_change_def Let_def)

text \<open>
  A descriptor that is not open makes the first calls return -1, whose bits are all set; the
  later calls fail as well and nothing changes.
\<close>

lemma setNonBlock_closed: "T d = None \<Longrightarrow> setNonBlockAndCloseOnExec d T = T"
  by (simp add: setNonBlockAndCloseOnExec_def fcntl_setfl_def fcntl_setfd_def sys_change_def Let_def)

text \<open>
  The two ways of making a socket agree: whatever \<open>socket(2)\<close> returns, opening
  it plain and setting the flags by \<open>fcntl(2)\<close> afterwards gives the same descriptor, log and
  flags as asking for a non-blocking, close-on-exec socket at once.
\<close>
theorem socket_branches_agree:
  assumes "\<forall>d < 0. T d = None"
  shows "socket_valgrind ret T = socket_nonblocking ret T"
proof (cases "ret < 0")
  case True
  with assms setNonBlock_closed [of T "- 1"] show ?thesis
    by (simp add: socket_valgrind_def socket_nonblocking_def sys_socket_def createNonblockingOrDie_def)
next
  case False
  then show ?thesis using flag_values
    by (simp add: socket_valgrind_def socket_nonblocking_def sys_socket_def createNonblockingOrDie_def
        setNonBlock_run sock_new_def)
qed

theorem socket_branches_agree_witness:
  "socket_valgrind 5 Map.empty = socket_nonblocking 5 Map.empty
    \<and> (case socket_nonblocking 5 Map.empty of (d, l, T) \<Rightarrow> d = 5 \<and> l = [] \<and> T 5 \<noteq> None)"
  using socket_branches_agree [of Map.empty 5]
  by (simp add: socket_nonblocking_def sys_socket_def createNonblockingOrDie_def)

text \<open>
  C40 (error). Opening the listening socket never stops the program: either no fatal line was
  logged, and then the descriptor is open, non-blocking, close-on-exec, bound to the address
  and listening, or a fatal line was logged and the program goes on; the option to reuse the
  address is set exactly when the kernel granted it, which is not checked.  Other descriptors
  keep their state.
\<close>
theorem acceptor_listens_or_logs:
  assumes "\<forall>d < 0. T d = None" and "Acceptor_open ret reuse_ok bind_ok listen_ok addr T = (sockfd, logged, T')"
  shows "(FATAL \<notin> set logged \<longrightarrow> (\<exists>s. T' sockfd = Some s \<and> 0 \<le> sockfd \<and> status_flags s = O_RDWR OR O_NONBLOCK
      \<and> fd_flags s = FD_CLOEXEC \<and> bound s = Some addr \<and> listens s \<and> (reuse_addr s \<longleftrightarrow> reuse_ok)))
    \<and> (FATAL \<in> set logged \<longleftrightarrow> ret < 0 \<or> \<not> bind_ok \<or> \<not> listen_ok)
    \<and> (\<forall>d. d \<noteq> sockfd \<longrightarrow> T' d = T d)"
proof (cases "ret < 0")
  case True
  with assms show ?thesis
    by (auto simp: Acceptor_open_def Acceptor_socket_def socket_nonblocking_def sys_socket_def createNonblockingOrDie_def
        Socket_setReuseAddr_def Socket_bindAddress_def Socket_listen_def sys_change_closed bindOrDie_def listenOrDie_def)
next
  case False
  with assms(2) show ?thesis
    by (cases reuse_ok; cases bind_ok; cases listen_ok)
      (auto simp: Acceptor_open_def Acceptor_socket_def socket_nonblocking_def sys_socket_def createNonblockingOrDie_def
        Socket_setReuseAddr_def Socket_bindAddress_def Socket_listen_def sys_change_open bindOrDie_def listenOrDie_def
        sock_new_def)
qed

theorem acceptor_listens_or_logs_witness:
  "case Acceptor_open 5 True False True (InetAddress_port 9981) Map.empty of (sockfd, logged, T') \<Rightarrow>
     sockfd = 5 \<and> FATAL \<in> set logged \<and> (\<exists>s. T' 5 = Some s \<and> listens s \<and> bound s = None)"
proof -
  obtain sockfd logged T' where o: "Acceptor_open 5 True False True (InetAddress_port 9981) Map.empty = (sockfd, logged, T')"
    by (metis prod_cases3)
  then have "FATAL \<in> set logged" using acceptor_listens_or_logs [OF _ o] by simp
  moreover have "sockfd = 5 \<and> (\<exists>s. T' 5 = Some s \<and> listens s \<and> bound s = None)"
    using o by (auto simp: Acceptor_open_def Acceptor_socket_def socket_nonblocking_def sys_socket_def
        createNonblockingOrDie_def Socket_setReuseAddr_def Socket_bindAddress_def Socket_listen_def sys_change_def sock_new_def)
  ultimately show ?thesis using o by simp
qed

end
