(* ===== verification/Loop_Thread.thy ===== *)
theory Loop_Thread
  imports Event_Loop Thread_Pool
begin

section \<open>Ending a loop thread\<close>

text \<open>
  Model of the end of \<open>src/EventLoopThread.cpp\<close>: the thread that runs \<open>EventLoop::loop\<close> after
  it has published its loop, and the destructor, which asks the loop to quit and joins the
  thread.  The passes of the loop are those of the theory on event loops, on any answers of
  \<open>poll(2)\<close>; publication is followed by the call of \<open>loop()\<close>, which first resets the flag.
\<close>

subsection \<open>The two threads\<close>

datatype loop_thread_pc = Published | InLoop | Left
datatype destructor_pc = NotCalled | AtJoin | Joined

record ('cb, 'fn) loop_thread =
  lt_loop :: "('cb, 'fn) loop_state"
  lt_pc :: loop_thread_pc
  lt_dtor :: destructor_pc

text \<open>
  \<open>EventLoopThread::~EventLoopThread\<close> up to the join; \<open>loop_\<close> is null until the hand-over has
  taken place.
\<close>

definition EventLoopThread_delete :: "bool \<Rightarrow> ('cb, 'fn) loop_thread \<Rightarrow> ('cb, 'fn) loop_thread res" where
  "EventLoopThread_delete published t =
     definedR published (Inr (t\<lparr>lt_loop := quit False (lt_loop t), lt_dtor := AtJoin\<rparr>))"

inductive thread_step :: "('cb \<Rightarrow> ('cb, 'fn) loop_state \<Rightarrow> ('cb, 'fn) loop_state res) \<Rightarrow>
    ('fn \<Rightarrow> ('cb, 'fn) loop_state \<Rightarrow> ('cb, 'fn) loop_state res) \<Rightarrow>
    ('cb, 'fn) loop_thread \<Rightarrow> ('cb, 'fn) loop_thread \<Rightarrow> bool" for runCb runFn where
  enter: "lt_pc t = Published \<Longrightarrow> \<not> looping (lt_loop t) \<Longrightarrow>
    thread_step runCb runFn t (t\<lparr>lt_loop := (lt_loop t)\<lparr>looping := True, quitFlag := False\<rparr>, lt_pc := InLoop\<rparr>)"
| pass: "lt_pc t = InLoop \<Longrightarrow> \<not> quitFlag (lt_loop t) \<Longrightarrow> loop_body runCb runFn answer (lt_loop t) = Inr s \<Longrightarrow>
    thread_step runCb runFn t (t\<lparr>lt_loop := s\<rparr>)"
| leave: "lt_pc t = InLoop \<Longrightarrow> quitFlag (lt_loop t) \<Longrightarrow>
    thread_step runCb runFn t (t\<lparr>lt_loop := (lt_loop t)\<lparr>looping := False\<rparr>, lt_pc := Left\<rparr>)"
| destroy: "lt_dtor t = NotCalled \<Longrightarrow> EventLoopThread_delete True t = Inr t' \<Longrightarrow> thread_step runCb runFn t t'"
| join: "lt_dtor t = AtJoin \<Longrightarrow> lt_pc t = Left \<Longrightarrow> thread_step runCb runFn t (t\<lparr>lt_dtor := Joined\<rparr>)"

inductive_cases thread_stepE: "thread_step runCb runFn t t'"

inductive thread_run :: "('cb \<Rightarrow> ('cb, 'fn) loop_state \<Rightarrow> ('cb, 'fn) loop_state res) \<Rightarrow>
    ('fn \<Rightarrow> ('cb, 'fn) loop_state \<Rightarrow> ('cb, 'fn) loop_state res) \<Rightarrow>
    ('cb, 'fn) loop_thread \<Rightarrow> ('cb, 'fn) loop_thread \<Rightarrow> bool" for runCb runFn where
  refl: "thread_run runCb runFn t t"
| step: "thread_run runCb runFn t t1 \<Longrightarrow> thread_step runCb runFn t1 t2 \<Longrightarrow> thread_run runCb runFn t t2"

lemma run_first:
  assumes "thread_step runCb runFn t t1" and "thread_run runCb runFn t1 t2"
  shows "thread_run runCb runFn t t2"
  using assms(2,1) by (induction rule: thread_run.induct) (auto intro: thread_run.intros)

definition thread_init :: "('cb, 'fn) loop_state \<Rightarrow> ('cb, 'fn) loop_thread" where
  "thread_init s = \<lparr>lt_loop = s, lt_pc = Published, lt_dtor = NotCalled\<rparr>"

subsection \<open>Passes keep the flag\<close>

text \<open>Handlers and functors that do not call \<open>quit\<close> themselves.\<close>

definition keeps_quit :: "(('cb, 'fn, 'm) loop_state_scheme \<Rightarrow> ('cb, 'fn, 'm) loop_state_scheme res) \<Rightarrow> bool" where
  "keeps_quit g \<longleftrightarrow> (\<forall>s s'. g s = Inr s' \<longrightarrow> quitFlag s' = quitFlag s)"

lemma keeps_quitD: "keeps_quit g \<Longrightarrow> g s = Inr s' \<Longrightarrow> quitFlag s' = quitFlag s"
  by (simp add: keeps_quit_def)

lemma keeps_foldR: "(\<And>x. keeps_quit (run x)) \<Longrightarrow> keeps_quit (foldR run xs)"
proof (induction xs)
  case (Cons x xs)
  show ?case
    unfolding keeps_quit_def
  proof (intro allI impI)
    fix s s' assume "foldR run (x # xs) s = Inr s'"
    then obtain s1 where "run x s = Inr s1" "foldR run xs s1 = Inr s'" by auto
    with keeps_quitD [OF Cons.prems] keeps_quitD [OF Cons.IH [OF Cons.prems]] show "quitFlag s' = quitFlag s" by metis
  qed
qed (simp add: keeps_quit_def)

lemma keeps_channel: "(\<And>c. keeps_quit (f c)) \<Longrightarrow> keeps_quit (with_channel k f)"
  by (auto simp: keeps_quit_def with_channel_def split: option.splits)

lemma keeps_opt: "(\<And>x. keeps_quit (run x)) \<Longrightarrow> keeps_quit (run_opt run cb)"
  by (auto simp: run_opt_def keeps_quit_def split: option.splits)

lemma keeps_stage:
  assumes run: "\<And>x. keeps_quit (run x)" and g: "keeps_quit g" and h: "\<And>s. quitFlag (h s) = quitFlag s"
  shows "keeps_quit (\<lambda>s. res_bind (if b then run_opt run cb (h s) else Inr (h s)) g)"
  unfolding keeps_quit_def
proof (intro allI impI)
  fix s s' assume "res_bind (if b then run_opt run cb (h s) else Inr (h s)) g = Inr s'"
  then obtain s1 where s1: "(if b then run_opt run cb (h s) else Inr (h s)) = Inr s1" "g s1 = Inr s'" by auto
  have "quitFlag s1 = quitFlag (h s)"
    using s1(1) keeps_quitD [OF keeps_opt [of run cb, OF run], of "h s" s1] by (cases b) simp_all
  with keeps_quitD [OF g s1(2)] h show "quitFlag s' = quitFlag s" by simp
qed

lemma keeps_event:
  assumes "\<And>x. keeps_quit (run x)"
  shows "keeps_quit (handleEvent run k)"
proof -
  have flag: "keeps_quit (with_channel k (\<lambda>c ps. Inr (ps\<lparr>store := (store ps)(k \<mapsto> f c)\<rparr>)))" for f
    by (rule keeps_channel) (simp add: keeps_quit_def)
  show ?thesis
    unfolding handleEvent_def Let_def
    by (intro keeps_channel keeps_stage [OF assms, where h = "\<lambda>s. s"] keeps_stage [OF assms] flag) simp_all
qed

lemma fill_quit: "fill_loop ps n s act = Inr (s', act') \<Longrightarrow> quitFlag s' = quitFlag s"
  by (induction ps n s act rule: fill_loop.induct) (auto split: if_splits option.splits)

lemma poll_quit: "Poller_poll answer s act = Inr (s', act') \<Longrightarrow> quitFlag s' = quitFlag s"
  by (cases answer) (auto simp: Poller_poll_def fillActiveChannels_def Let_def dest!: fill_quit split: if_splits)

lemma body_quit:
  assumes "\<And>x. keeps_quit (runCb x)" and "\<And>x. keeps_quit (runFn x)" and "loop_body runCb runFn answer s = Inr s'"
  shows "quitFlag s' = quitFlag s"
proof -
  obtain s1 act s2 where s1: "Poller_poll answer s [] = Inr (s1, act)" and s2: "foldR (handleEvent runCb) act s1 = Inr s2"
    and s3: "doPendingFunctors runFn s2 = Inr s'"
    using assms(3) unfolding loop_body_def res_bind_eq_Inr split_paired_Ex prod.case by blast
  have "keeps_quit (foldR (handleEvent runCb) act)" by (intro keeps_foldR keeps_event assms(1))
  moreover have "quitFlag s' = quitFlag s2"
    using s3 keeps_quitD [OF keeps_foldR [of runFn, OF assms(2)]] by (auto simp: doPendingFunctors_def Let_def)
  ultimately show ?thesis using poll_quit [OF s1] s2 keeps_quitD by metis
qed

subsection \<open>Quitting in time and too early\<close>

text \<open>
  Once the loop has been asked to quit while it was running, the flag stays and the thread
  can only leave the loop and be joined.
\<close>

definition ends :: "('cb, 'fn) loop_thread \<Rightarrow> bool" where
  "ends t \<longleftrightarrow> lt_pc t = InLoop \<and> quitFlag (lt_loop t) \<or> lt_pc t = Left"

lemma ends_step: "thread_step runCb runFn t t' \<Longrightarrow> ends t \<Longrightarrow> ends t'"
  by (erule thread_stepE) (auto simp: ends_def EventLoopThread_delete_def quit_def Let_def)

text \<open>A loop that has reset the flag after the destructor set it.\<close>

definition stuck :: "('cb, 'fn) loop_thread \<Rightarrow> bool" where
  "stuck t \<longleftrightarrow> lt_pc t = InLoop \<and> \<not> quitFlag (lt_loop t) \<and> lt_dtor t = AtJoin"

lemma stuck_step:
  assumes "\<And>x. keeps_quit (runCb x)" and "\<And>x. keeps_quit (runFn x)" and "thread_step runCb runFn t t'" and "stuck t"
  shows "stuck t'"
  using assms(3,4)
proof cases
  case (pass answer s)
  with body_quit [OF assms(1,2) pass(4)] assms(4) show ?thesis by (simp add: stuck_def)
qed (auto simp: stuck_def)

lemma stuck_run:
  assumes "\<And>x. keeps_quit (runCb x)" and "\<And>x. keeps_quit (runFn x)" and "thread_run runCb runFn t t'" and "stuck t"
  shows "stuck t'"
  using assms(3,4) by (induction rule: thread_run.induct) (blast intro: stuck_step [of runCb runFn, OF assms(1,2)])+


definition idle_run :: "nat \<Rightarrow> (nat, nat) loop_state \<Rightarrow> (nat, nat) loop_state res" where
  "idle_run x s = Inr s"


text \<open>The same request in time: the destructor can return, and nothing undoes it.\<close>

lemma quit_in_time:
  assumes t: "lt_pc t = InLoop" "lt_dtor t = NotCalled"
    and d: "EventLoopThread_delete True t = Inr t1" and r: "thread_run runCb runFn t1 t2" and "lt_dtor t2 = AtJoin"
  shows "\<exists>t3. thread_run runCb runFn t2 t3 \<and> lt_dtor t3 = Joined"
proof -
  have "ends t1" using d t(1) by (auto simp: ends_def EventLoopThread_delete_def quit_def Let_def)
  with r have e: "ends t2" by (induction rule: thread_run.induct) (auto dest: ends_step)
  have j: "\<exists>t3. thread_run runCb runFn t t3 \<and> lt_dtor t3 = Joined" if "lt_pc t = Left" "lt_dtor t = AtJoin" for t
    using thread_step.join [OF that(2,1), of runCb runFn] by (intro exI [of _ "t\<lparr>lt_dtor := Joined\<rparr>"]) (auto intro: thread_run.intros)
  show ?thesis
  proof (cases "lt_pc t2 = Left")
    case True
    then show ?thesis using j assms(5) by blast
  next
    case False
    then have "thread_step runCb runFn t2 (t2\<lparr>lt_loop := (lt_loop t2)\<lparr>looping := False\<rparr>, lt_pc := Left\<rparr>)"
      using e by (intro thread_step.leave) (auto simp: ends_def)
    moreover obtain t3 where "thread_run runCb runFn (t2\<lparr>lt_loop := (lt_loop t2)\<lparr>looping := False\<rparr>, lt_pc := Left\<rparr>) t3"
        "lt_dtor t3 = Joined"
      using j [of "t2\<lparr>lt_loop := (lt_loop t2)\<lparr>looping := False\<rparr>, lt_pc := Left\<rparr>"] assms(5) by auto
    ultimately show ?thesis by (meson run_first)
  qed
qed

end
