(* ===== verification/Thread_Sends.thy ===== *)
theory Thread_Sends
  imports Tcp_Server
begin

section \<open>Sending from other threads\<close>

text \<open>
  The composition of \<open>TcpConnection::send\<close> called in other threads with the functor queue of
  the connection's loop (\<open>src/TcpConnection.cpp\<close>, \<open>src/EventLoop.cpp\<close>): what is sent in another
  thread waits in the queue and goes out when the loop runs its functors, while sends in the
  loop's own thread and writability events go on.
\<close>

subsection \<open>The interface: a stream with a mailbox\<close>

datatype thread_event = RemoteSend string | LocalSend string | Writable | Drain

fun mail_step :: "thread_event \<Rightarrow> string \<times> string list \<Rightarrow> string \<times> string list" where
  "mail_step (RemoteSend m) (acc, q) = (acc, q @ [m])"
| "mail_step (LocalSend m) (acc, q) = (acc @ m, q)"
| "mail_step Writable (acc, q) = (acc, q)"
| "mail_step Drain (acc, q) = (acc @ concat q, [])"

fun thread_bytes :: "thread_event \<Rightarrow> nat" where
  "thread_bytes (RemoteSend m) = length m"
| "thread_bytes (LocalSend m) = length m"
| "thread_bytes _ = 0"

text \<open>
  A closable stream to which messages can be posted; \<open>drain\<close> sends what was posted.  The
  laws speak of an open stream; the room asked for covers the mail that waits.
\<close>

locale posted_stream = closable_stream ok view room step refused
  for ok :: "'s \<Rightarrow> bool" and view :: "'s \<Rightarrow> string \<times> bool" and room :: "nat \<Rightarrow> 's \<Rightarrow> bool"
    and step :: "out_event \<Rightarrow> 's \<Rightarrow> 's res" and refused :: bool +
  fixes post :: "string \<Rightarrow> 's \<Rightarrow> 's res" and drain :: "'s \<Rightarrow> 's res" and mail :: "'s \<Rightarrow> string list"
  assumes post_ok: "ok s \<Longrightarrow> \<not> snd (view s) \<Longrightarrow>
      \<exists>s'. post m s = Inr s' \<and> ok s' \<and> view s' = view s \<and> mail s' = mail s @ [m] \<and> (\<forall>n. room n s \<longrightarrow> room n s')"
    and step_mail: "ok s \<Longrightarrow> room (event_bytes e) s \<Longrightarrow> step e s = Inr s' \<Longrightarrow> mail s' = mail s"
    and drain_ok: "ok s \<Longrightarrow> \<not> snd (view s) \<Longrightarrow> room (length (concat (mail s)) + n) s \<Longrightarrow> drain s = Inr s' \<Longrightarrow>
      ok s' \<and> room n s' \<and> view s' = (fst (view s) @ concat (mail s), False) \<and> mail s' = []"
    and drain_fault: "ok s \<Longrightarrow> \<not> snd (view s) \<Longrightarrow> room (length (concat (mail s))) s \<Longrightarrow> drain s = Inl x \<Longrightarrow>
      x = Assert_failed \<and> refused"
begin

text \<open>One event: it ends with a refused write, or it acts like the specification.\<close>

definition accepts :: "thread_event \<Rightarrow> ('s \<Rightarrow> 's res) \<Rightarrow> bool" where
  "accepts e run \<longleftrightarrow> (\<forall>s n. ok s \<longrightarrow> \<not> snd (view s) \<longrightarrow> room (length (concat (mail s)) + thread_bytes e + n) s \<longrightarrow>
     (case run s of
        Inr s' \<Rightarrow> ok s' \<and> \<not> snd (view s') \<and> room (length (concat (mail s')) + n) s'
          \<and> (fst (view s'), mail s') = mail_step e (fst (view s), mail s)
      | Inl x \<Rightarrow> x = Assert_failed \<and> refused))"

lemma accepts_post: "accepts (RemoteSend m) (post m)"
  unfolding accepts_def
proof (intro allI impI)
  fix s n assume a: "ok s" "\<not> snd (view s)" "room (length (concat (mail s)) + thread_bytes (RemoteSend m) + n) s"
  obtain s' where "post m s = Inr s'" "ok s'" "view s' = view s" "mail s' = mail s @ [m]" "\<forall>n. room n s \<longrightarrow> room n s'"
    using post_ok [OF a(1,2)] by blast
  with a show "case post m s of Inr s' \<Rightarrow> ok s' \<and> \<not> snd (view s') \<and> room (length (concat (mail s')) + n) s'
      \<and> (fst (view s'), mail s') = mail_step (RemoteSend m) (fst (view s), mail s) | Inl x \<Rightarrow> x = Assert_failed \<and> refused"
    by (simp add: add.assoc)
qed

lemma accepts_step:
  assumes "event_bytes o' = thread_bytes e"
    and spec: "\<And>v q. (fst (spec_step o' (v, False)), q) = mail_step e (v, q) \<and> \<not> snd (spec_step o' (v, False))"
  shows "accepts e (step o')"
  unfolding accepts_def
proof (intro allI impI)
  fix s n assume a: "ok s" "\<not> snd (view s)" "room (length (concat (mail s)) + thread_bytes e + n) s"
  have v: "view s = (fst (view s), False)" using a(2) by (cases "view s") simp
  have r: "room (event_bytes o' + (length (concat (mail s)) + n)) s" using a(3) assms(1) by (simp add: ac_simps)
  have r1: "room (event_bytes o') s" using r by (rule room_less) simp
  show "case step o' s of Inr s' \<Rightarrow> ok s' \<and> \<not> snd (view s') \<and> room (length (concat (mail s')) + n) s'
      \<and> (fst (view s'), mail s') = mail_step e (fst (view s), mail s) | Inl x \<Rightarrow> x = Assert_failed \<and> refused"
  proof (cases "step o' s")
    case (Inl x)
    with step_fault [OF a(1) r1] show ?thesis by simp
  next
    case (Inr s')
    have "ok s'" "room (length (concat (mail s)) + n) s'" "view s' = spec_step o' (view s)" "mail s' = mail s"
      using step_ok [OF a(1) r Inr] step_mail [OF a(1) r1 Inr] by simp_all
    moreover have "(fst (spec_step o' (view s)), mail s) = mail_step e (fst (view s), mail s)" "\<not> snd (spec_step o' (view s))"
      using spec [of "fst (view s)" "mail s"] v by simp_all
    ultimately show ?thesis using Inr by simp
  qed
qed

lemma accepts_drain: "accepts Drain drain"
  unfolding accepts_def
proof (intro allI impI)
  fix s n assume a: "ok s" "\<not> snd (view s)" "room (length (concat (mail s)) + thread_bytes Drain + n) s"
  have r: "room (length (concat (mail s)) + n) s" using a(3) by simp
  have r0: "room (length (concat (mail s))) s" using r by (rule room_less) simp
  show "case drain s of Inr s' \<Rightarrow> ok s' \<and> \<not> snd (view s') \<and> room (length (concat (mail s')) + n) s'
      \<and> (fst (view s'), mail s') = mail_step Drain (fst (view s), mail s) | Inl x \<Rightarrow> x = Assert_failed \<and> refused"
    using drain_ok [OF a(1,2) r] drain_fault [OF a(1,2) r0] by (cases "drain s") simp_all
qed

lemma run_events:
  assumes "\<And>e. accepts e (run e)" and "ok s" and "\<not> snd (view s)"
    and "room (length (concat (mail s)) + sum_list (map thread_bytes es)) s"
  shows "case foldR run es s of
      Inr s' \<Rightarrow> ok s' \<and> \<not> snd (view s') \<and> (fst (view s'), mail s') = fold mail_step es (fst (view s), mail s)
    | Inl x \<Rightarrow> x = Assert_failed \<and> refused"
  using assms(2-)
proof (induction es arbitrary: s)
  case Nil
  then show ?case by simp
next
  case (Cons e es)
  have r: "room (length (concat (mail s)) + thread_bytes e + sum_list (map thread_bytes es)) s"
    using Cons.prems(3) by (simp add: add.assoc)
  note e = assms(1) [of e, unfolded accepts_def, rule_format, OF Cons.prems(1,2) r]
  show ?case
  proof (cases "run e s")
    case (Inl x)
    with e show ?thesis by simp
  next
    case (Inr s1)
    with e have s1: "ok s1" "\<not> snd (view s1)" "room (length (concat (mail s1)) + sum_list (map thread_bytes es)) s1"
      and eq: "mail_step e (fst (view s), mail s) = (fst (view s1), mail s1)" by simp_all
    from Cons.IH [OF s1] Inr show ?thesis by (simp add: eq split: sum.splits)
  qed
qed

end

subsection \<open>A connection and the queue of its loop\<close>

fun thread_event_run :: "kernel \<Rightarrow> (nat \<Rightarrow> 'm server_state_scheme \<Rightarrow> 'm server_state_scheme res) \<Rightarrow> nat \<Rightarrow>
    thread_event \<Rightarrow> 'm server_state_scheme \<Rightarrow> 'm server_state_scheme res" where
  "thread_event_run K cb a (RemoteSend m) = send K False m a"
| "thread_event_run K cb a (LocalSend m) = send K True m a"
| "thread_event_run K cb a Writable = handleWrite K a"
| "thread_event_run K cb a Drain = doPendingFunctors (run_functor K cb)"

lemma conn_event_eta: "conn_event K a (EvSend m) = send K True m a" "conn_event K a EvWritable = handleWrite K a"
  by (rule ext, simp)+

fun mail_of :: "net_functor list \<Rightarrow> string list" where
  "mail_of [] = []"
| "mail_of (SendInLoop a m # fs) = m # mail_of fs"
| "mail_of (f # fs) = mail_of fs"

lemma mail_of_append: "mail_of (fs @ gs) = mail_of fs @ mail_of gs"
  by (induction fs rule: mail_of.induct) simp_all

lemma mail_of_done: "\<forall>f \<in> set fs. f = WriteComplete a \<Longrightarrow> mail_of fs = []"
  by (induction fs) auto

text \<open>The queue holds messages for this connection and notices that output has gone out.\<close>

definition only_for :: "nat \<Rightarrow> net_functor list \<Rightarrow> bool" where
  "only_for a fs \<longleftrightarrow> (\<forall>f \<in> set fs. f = WriteComplete a \<or> (\<exists>m. f = SendInLoop a m))"

definition mail_live :: "kernel \<Rightarrow> nat \<Rightarrow> int \<Rightarrow> 'm net_state_scheme \<Rightarrow> bool" where
  "mail_live K a f s \<longleftrightarrow> conn_live K a f s \<and> only_for a (pendingFunctors s)"

text \<open>An event in the loop thread adds nothing to the queue but such notices.\<close>

lemma event_queue:
  assumes live: "conn_live K a f s" and room: "conn_room a (event_bytes e) s" and run: "conn_event K a e s = Inr s'"
  shows "\<exists>fs. pendingFunctors s' = pendingFunctors s @ fs \<and> (\<forall>g \<in> set fs. g = WriteComplete a)"
proof -
  obtain c ch where c: "kernel_ok K" "conn_at s a c ch" "flow_ok c ch" "conns s a = Some c"
    using conn_liveE [OF live] by metis
  have rm: "buf_room (event_bytes e) (outputBuffer c)" using room c(4) by (simp add: conn_room_def)
  have fr: "\<exists>fs. pendingFunctors s' = pendingFunctors s @ fs \<and> (\<forall>g \<in> set fs. g = WriteComplete a)"
    if "frame a c c' s s'" for c'
    using that by (simp add: frame_def)
  show ?thesis
  proof (cases e)
    case (EvSend m)
    show ?thesis
    proof (cases "state c = kConnected")
      case True
      have "sendInLoop K m a s = Inr s'" using run EvSend send_connected [OF c(2) True] by simp
      with sendInLoop_cases [OF c(2,3,1), of m] rm EvSend fr show ?thesis by (metis event_bytes.simps(1) sum.distinct(1) sum.inject(2))
    next
      case False
      with run EvSend shutdown_ignored [OF c(2)] show ?thesis by simp
    qed
  next
    case EvWritable
    with handleWrite_cases [OF c(2,3,1)] run fr show ?thesis by (metis conn_event.simps(2) sum.inject(2))
  next
    case EvShutdown
    show ?thesis
    proof (cases "state c = kConnected")
      case True
      with shutdown_run [OF c(2)] run EvShutdown fr show ?thesis by (metis conn_event.simps(3) sum.inject(2))
    next
      case False
      with run EvShutdown shutdown_ignored [OF c(2)] show ?thesis by simp
    qed
  qed
qed

text \<open>Running what was queued, functor by functor.\<close>

lemma open_send:
  assumes "conn_live K a f s" and "\<not> snd (conn_view a s)"
  shows "sendInLoop K m a s = conn_event K a (EvSend m) s"
proof -
  obtain c ch where c: "conn_at s a c ch" "conns s a = Some c" "state c = kConnected \<or> state c = kDisconnecting"
    using conn_liveE [OF assms(1)] by metis
  with assms(2) have "state c = kConnected" by (auto simp: conn_view_def)
  with send_connected [OF c(1)] show ?thesis by simp
qed

lemma drain_functors:
  assumes "only_for a fs" and "conn_live K a f s" and "\<not> snd (conn_view a s)"
    and "conn_room a (length (concat (mail_of fs)) + n) s" and "mail_of (pendingFunctors s) = []" and "only_for a (pendingFunctors s)"
  shows "case foldR (run_functor K cb) fs s of
      Inr s' \<Rightarrow> conn_live K a f s' \<and> conn_room a n s' \<and> conn_view a s' = (fst (conn_view a s) @ concat (mail_of fs), False)
        \<and> mail_of (pendingFunctors s') = [] \<and> only_for a (pendingFunctors s')
    | Inl x \<Rightarrow> x = Assert_failed \<and> write_refused K f"
  using assms
proof (induction fs arbitrary: s)
  case Nil
  then show ?case by (cases "conn_view a s") simp
next
  case (Cons g fs)
  have fs: "only_for a fs" using Cons.prems(1) by (simp add: only_for_def)
  consider "g = WriteComplete a" | m where "g = SendInLoop a m" using Cons.prems(1) by (auto simp: only_for_def)
  then show ?case
  proof cases
    case 1
    then have "conn_room a (length (concat (mail_of fs)) + n) s" using Cons.prems(4) by simp
    with Cons.IH [OF fs Cons.prems(2,3) this Cons.prems(5,6)] 1 show ?thesis by (simp split: sum.splits)
  next
    case (2 m)
    have room: "conn_room a (event_bytes (EvSend m) + (length (concat (mail_of fs)) + n)) s"
      using Cons.prems(4) 2 by (simp add: add.assoc)
    then have room0: "conn_room a (event_bytes (EvSend m)) s" by (rule cs.room_less) simp
    have run: "run_functor K cb g s = conn_event K a (EvSend m) s"
      using 2 open_send [OF Cons.prems(2,3)] by simp
    show ?thesis
    proof (cases "conn_event K a (EvSend m) s")
      case (Inl x)
      with cs.step_fault [OF Cons.prems(2) room0] run show ?thesis by simp
    next
      case (Inr s1)
      have s1: "conn_live K a f s1" "conn_room a (length (concat (mail_of fs)) + n) s1"
        "conn_view a s1 = (fst (conn_view a s) @ m, False)"
        using cs.step_ok [OF Cons.prems(2) room Inr] Cons.prems(3) by (cases "conn_view a s"; simp)+
      obtain hs where hs: "pendingFunctors s1 = pendingFunctors s @ hs" "\<forall>g \<in> set hs. g = WriteComplete a"
        using event_queue [OF Cons.prems(2) room0 Inr] by blast
      have "mail_of (pendingFunctors s1) = []" "only_for a (pendingFunctors s1)"
        using hs Cons.prems(5,6) mail_of_done by (auto simp: mail_of_append only_for_def)
      with Cons.IH [OF fs s1(1) _ s1(2)] s1(3) Inr run 2 show ?thesis by (simp split: sum.splits)
    qed
  qed
qed

lemma drain_run:
  assumes "mail_live K a f s" and "\<not> snd (conn_view a s)" and "conn_room a (length (concat (mail_of (pendingFunctors s))) + n) s"
  shows "case doPendingFunctors (run_functor K cb) s of
      Inr s' \<Rightarrow> mail_live K a f s' \<and> conn_room a n s' \<and> mail_of (pendingFunctors s') = []
        \<and> conn_view a s' = (fst (conn_view a s) @ concat (mail_of (pendingFunctors s)), False)
    | Inl x \<Rightarrow> x = Assert_failed \<and> write_refused K f"
proof -
  let ?s = "s\<lparr>callingPendingFunctors := True, pendingFunctors := []\<rparr>"
  have cong: "conn_at s2 b c ch = conn_at s1 b c ch"
    if "store s2 = store s1" "pollfds s2 = pollfds s1" "channels s2 = channels s1" "loopId s2 = loopId s1" "conns s2 = conns s1"
    for s1 s2 :: "'a server_state_scheme" and b c ch
    using that by (intro conn_at_cong) simp_all
  have same: "conn_live K a f s2 = conn_live K a f s1" "conn_room a n s2 = conn_room a n s1" "conn_view a s2 = conn_view a s1"
    if "store s2 = store s1" "pollfds s2 = pollfds s1" "channels s2 = channels s1" "loopId s2 = loopId s1" "conns s2 = conns s1"
      "wire s2 = wire s1" "shut s2 = shut s1" for s1 s2 :: "'a server_state_scheme" and n
    using that cong [OF that(1-5)] by (simp_all add: conn_live_def conn_room_def conn_view_def cong: option.case_cong)
  have "case foldR (run_functor K cb) (pendingFunctors s) ?s of
      Inr s' \<Rightarrow> conn_live K a f s' \<and> conn_room a n s'
        \<and> conn_view a s' = (fst (conn_view a ?s) @ concat (mail_of (pendingFunctors s)), False)
        \<and> mail_of (pendingFunctors s') = [] \<and> only_for a (pendingFunctors s')
    | Inl x \<Rightarrow> x = Assert_failed \<and> write_refused K f"
    using assms same [of ?s s] by (intro drain_functors) (simp_all add: mail_live_def only_for_def)
  then show ?thesis
    using same [of ?s s] same [of "t\<lparr>callingPendingFunctors := False\<rparr>" t for t]
    by (auto simp: doPendingFunctors_def Let_def mail_live_def split: sum.splits)
qed

lemma mail_live_event:
  assumes a: "mail_live K a f s" and r: "conn_room a (event_bytes e) s" and run: "conn_event K a e s = Inr s'"
  shows "only_for a (pendingFunctors s')" and "mail_of (pendingFunctors s') = mail_of (pendingFunctors s)"
proof -
  obtain hs where "pendingFunctors s' = pendingFunctors s @ hs" "\<forall>g \<in> set hs. g = WriteComplete a"
    using event_queue [OF _ r run] a by (auto simp: mail_live_def)
  then show "only_for a (pendingFunctors s')" "mail_of (pendingFunctors s') = mail_of (pendingFunctors s)"
    using a mail_of_done by (auto simp: mail_live_def only_for_def mail_of_append)
qed

lemma mail_live_post:
  assumes a: "mail_live K a f s" "\<not> snd (conn_view a s)"
  shows "\<exists>s'. send K False m a s = Inr s' \<and> mail_live K a f s' \<and> conn_view a s' = conn_view a s
      \<and> mail_of (pendingFunctors s') = mail_of (pendingFunctors s) @ [m] \<and> (\<forall>n. conn_room a n s \<longrightarrow> conn_room a n s')"
proof -
  obtain c ch where c: "conn_at s a c ch" "conns s a = Some c" "state c = kConnected"
    using a by (auto simp: mail_live_def conn_view_def elim!: conn_liveE)
  let ?s = "queueInLoop False (SendInLoop a m) s"
  have "send K False m a s = Inr ?s" using c by (simp add: send_def with_conn_def)
  moreover have "conn_live K a f ?s = conn_live K a f s"
    by (simp add: conn_live_def conn_at_def poll_wf_def attached_def entry_def)
  moreover have "conn_view a ?s = conn_view a s" "conn_room a n ?s = conn_room a n s" for n
    by (simp_all add: conn_view_def conn_room_def cong: option.case_cong)
  ultimately show ?thesis using a(1) by (auto simp: mail_live_def only_for_def mail_of_append)
qed

interpretation ps: posted_stream "mail_live K a f" "conn_view a" "conn_room a" "conn_event K a" "write_refused K f"
  "\<lambda>m. send K False m a" "doPendingFunctors (run_functor K cb)" "\<lambda>s. mail_of (pendingFunctors s)"
proof unfold_locales
  fix s s' e n
  assume a: "mail_live K a f s" "conn_room a (event_bytes e + n) s" "conn_event K a e s = Inr s'"
  have "only_for a (pendingFunctors s')" using mail_live_event(1) [OF a(1) cs.room_less [OF a(2)] a(3)] by simp
  then show "mail_live K a f s' \<and> conn_room a n s' \<and> conn_view a s' = spec_step e (conn_view a s)"
    using cs.step_ok [OF _ a(2,3), of f] a(1) by (simp add: mail_live_def)
next
  fix s e x
  assume "mail_live K a f s" "conn_room a (event_bytes e) s" "conn_event K a e s = Inl x"
  then show "x = Assert_failed \<and> write_refused K f" unfolding mail_live_def using cs.step_fault by blast
next
  fix n s k show "conn_room a n s \<Longrightarrow> k \<le> n \<Longrightarrow> conn_room a k s" by (rule cs.room_less)
next
  fix s m assume "mail_live K a f s" "\<not> snd (conn_view a s)"
  then show "\<exists>s'. send K False m a s = Inr s' \<and> mail_live K a f s' \<and> conn_view a s' = conn_view a s
      \<and> mail_of (pendingFunctors s') = mail_of (pendingFunctors s) @ [m] \<and> (\<forall>n. conn_room a n s \<longrightarrow> conn_room a n s')"
    by (rule mail_live_post)
next
  fix s e s'
  assume "mail_live K a f s" "conn_room a (event_bytes e) s" "conn_event K a e s = Inr s'"
  then show "mail_of (pendingFunctors s') = mail_of (pendingFunctors s)" by (rule mail_live_event(2))
next
  fix s n s'
  assume "mail_live K a f s" "\<not> snd (conn_view a s)" "conn_room a (length (concat (mail_of (pendingFunctors s))) + n) s"
    "doPendingFunctors (run_functor K cb) s = Inr s'"
  with drain_run [of K a f s n cb]
  show "mail_live K a f s' \<and> conn_room a n s' \<and> conn_view a s' = (fst (conn_view a s) @ concat (mail_of (pendingFunctors s)), False)
      \<and> mail_of (pendingFunctors s') = []" by simp
next
  fix s x
  assume "mail_live K a f s" "\<not> snd (conn_view a s)" "conn_room a (length (concat (mail_of (pendingFunctors s)))) s"
    "doPendingFunctors (run_functor K cb) s = Inl x"
  with drain_run [of K a f s 0 cb] show "x = Assert_failed \<and> write_refused K f" by simp
qed

subsection \<open>Properties\<close>

text \<open>
  C5 (refinement). Messages that other threads send to a connection and messages sent in its
  own thread make one stream: for every interleaving of the two kinds of send, writability
  events and runs of the functor queue, the bytes on the wire and in the output buffer are
  the messages in the order in which they were handed to the loop thread, those from other
  threads at the run of the queue after them, and the queue holds the rest in order; nothing
  is lost, repeated or torn apart.  The only other outcome is the failed assertion of a
  direct write that the kernel refuses.
\<close>
theorem cross_thread_sends_in_order:
  assumes "conn_live K a f s" and "conns s a = Some c" and "state c = kConnected" and "pendingFunctors s = []"
    and "buf_room (sum_list (map thread_bytes es)) (outputBuffer c)"
  shows "case foldR (thread_event_run K cb a) es s of
      Inr s' \<Rightarrow> (\<exists>c'. conns s' a = Some c' \<and> state c' = kConnected \<and>
        (wire s' f @ readable (outputBuffer c'), mail_of (pendingFunctors s'))
          = fold mail_step es (wire s f @ readable (outputBuffer c), []))
    | Inl x \<Rightarrow> x = Assert_failed \<and> write_refused K f"
proof -
  have acc: "ps.accepts K a f e (thread_event_run K cb a e)" for e
    using ps.accepts_post [of K a f] ps.accepts_drain [of K a f cb] ps.accepts_step [of "EvSend m" "LocalSend m" K a f for m]
      ps.accepts_step [of EvWritable Writable K a f]
    by (cases e) (simp_all add: conn_event_eta)
  have live: "mail_live K a f s" using assms(1,4) by (simp add: mail_live_def only_for_def)
  have v: "conn_view a s = (wire s f @ readable (outputBuffer c), False)"
    using assms(1-3) by (auto simp: conn_view_def elim: conn_liveE)
  have "conn_room a (length (concat (mail_of (pendingFunctors s))) + sum_list (map thread_bytes es)) s"
    using assms(2,4,5) by (simp add: conn_room_def)
  note run = ps.run_events [of K a f "thread_event_run K cb a", OF acc live _ this]
  show ?thesis
  proof (cases "foldR (thread_event_run K cb a) es s")
    case (Inl x)
    with run v show ?thesis by simp
  next
    case (Inr s')
    with run v assms(4) have l: "mail_live K a f s'" "\<not> snd (conn_view a s')"
      and eq: "(fst (conn_view a s'), mail_of (pendingFunctors s')) = fold mail_step es (wire s f @ readable (outputBuffer c), [])"
      by simp_all
    from l obtain c' where "conns s' a = Some c'" "state c' = kConnected" "socket c' = f"
      by (auto simp: mail_live_def conn_view_def elim!: conn_liveE)
    with eq Inr show ?thesis by (simp add: conn_view_def)
  qed
qed

text \<open>
  A shutdown does not wait for what other threads have queued: with a message in the queue
  and an empty output buffer the connection is half-closed at once, and the message is
  written behind the half-close when the queue is run.
\<close>

lemma shutdown_overtakes_mail:
  assumes "conn_live K a f s" and "conns s a = Some c" and "state c = kConnected" and "readable (outputBuffer c) = []"
    and "send K False m a s = Inr s1" and "shutdown True a s1 = Inr s2"
  shows "shut s2 f \<and> mail_of (pendingFunctors s2) = mail_of (pendingFunctors s) @ [m] \<and> wire s2 f = wire s f"
proof -
  obtain ch where c: "conn_at s a c ch" "flow_ok c ch" "socket c = f"
    using assms(1,2) by (metis conn_liveE option.inject)
  have s1: "s1 = queueInLoop False (SendInLoop a m) s" using assms(2,3,5) by (simp add: send_def with_conn_def)
  have c1: "conn_at s1 a c ch" using c(1) by (subst conn_at_cong [of s1 s]) (simp_all add: s1)
  obtain s' where s': "shutdown True a s1 = Inr s'" "frame a c (c\<lparr>state := kDisconnecting\<rparr>) s1 s'" "wire s' = wire s1"
      "shut s' = (if isWriting ch then shut s1 else (shut s1)(socket c := True))"
    using shutdown_run [OF c1 assms(3)] by blast
  have "\<not> isWriting ch" using c(2) assms(4) by (simp add: flow_ok_def)
  moreover obtain hs where "pendingFunctors s' = pendingFunctors s1 @ hs" "\<forall>g \<in> set hs. g = WriteComplete a"
    using s'(2) by (auto simp: frame_def)
  ultimately show ?thesis using s' assms(6) c(3) mail_of_done by (simp add: s1 mail_of_append)
qed

theorem cross_thread_sends_in_order_witness:
  "\<exists>s' c'. foldR (thread_event_run slow_kernel (\<lambda>a. Inr) 9) [RemoteSend ''ab'', LocalSend ''hello'', Drain, Writable] demo_server
      = Inr s' \<and> conns s' 9 = Some c' \<and> wire s' 7 @ readable (outputBuffer c') = ''helloab''"
proof -
  let ?es = "[RemoteSend ''ab'', LocalSend ''hello'', Drain, Writable]"
  have at: "conn_at demo_server 9 demo_conn demo_channel"
    using demo_conn_at(1) poll_cong [of demo_server demo_net] by (simp add: conn_at_def demo_server_def demo_net_def)
  then have live: "conn_live slow_kernel 9 7 demo_server"
    using demo_conn_at(2) demo_kernels(1) unfolding conn_live_def
    by (intro conjI exI [of _ demo_conn] exI [of _ demo_channel])
      (simp_all add: demo_conn_def TcpConnection_new_def demo_server_def)
  have st: "state demo_conn = kConnected" "readable (outputBuffer demo_conn) = []"
    by (simp_all add: demo_conn_def TcpConnection_new_def readable_new)
  have room: "buf_room (sum_list (map thread_bytes ?es)) (outputBuffer demo_conn)"
    by (simp add: demo_conn_def TcpConnection_new_def buf_room_def Buffer_new_def kCheapPrepend_def)
  have "\<not> write_refused slow_kernel 7" by (simp add: write_refused_def slow_kernel_def not_less)
  moreover have "wire demo_server 7 = []" by (simp add: demo_server_def)
  ultimately show ?thesis
    using cross_thread_sends_in_order [OF live _ st(1) _ room, of "\<lambda>a. Inr"] st(2)
    by (simp split: sum.splits) blast
qed

end
