(* ===== verification/Io_Loops.thy ===== *)
theory Io_Loops
  imports Conn_Steps
begin

section \<open>A server with several loop threads\<close>

text \<open>
  Model of \<open>TcpServer\<close> when \<open>setThreadNum\<close> was called with a positive number: the acceptor's
  loop and the loops of the pool run in threads of their own, a connection lives in the loop
  that \<open>getNextLoop\<close> chose for it, and everything that concerns another loop goes through that
  loop's functor queue (\<open>src/TcpServer.cpp\<close>, \<open>src/TcpConnection.cpp\<close>, \<open>src/EventLoop.cpp\<close>).

  Every loop has its own poller, its own queue and the channels it owns; the connections, the
  map of the server and the kernel's view of the sockets are common.  A thread works on the
  state \<open>focus l M\<close>, in which it finds the common objects and the channels of its own loop: an
  access to a channel of another loop would be a fault of the model.  What a thread hands to
  other loops is delivered at the end of its step; a channel constructed for another loop
  goes with it.  A step is one call of a handler, one functor, or the swap at the beginning of
  \<open>doPendingFunctors\<close>, whose local vector is \<open>taken\<close>.
\<close>

subsection \<open>State\<close>

record machine =
  slices :: "nat \<Rightarrow> (net_callback, net_functor) loop_state"
  common :: server_state
  taken :: "nat \<Rightarrow> net_functor list"

definition focus :: "nat \<Rightarrow> machine \<Rightarrow> server_state" where
  "focus l M = loop_state.extend (slices M l) (loop_state.more (common M))"

definition unfocus :: "nat \<Rightarrow> server_state \<Rightarrow> machine \<Rightarrow> machine" where
  "unfocus l s M = M\<lparr>slices := (slices M)(l := loop_state.truncate s), common := s\<rparr>"

text \<open>What loop \<open>i\<close> owns after a step of loop \<open>l\<close>, and the functors that were posted to it.\<close>

definition owned_store :: "nat \<Rightarrow> nat \<Rightarrow> machine \<Rightarrow> nat \<rightharpoonup> net_callback Channel" where
  "owned_store l i M = (\<lambda>k. case store (slices M l) k of
       Some c \<Rightarrow> if loopOf c = i then Some c else if i = l then None else store (slices M i) k
     | None \<Rightarrow> store (slices M i) k)"

definition posted_to :: "nat \<Rightarrow> machine \<Rightarrow> net_functor list" where
  "posted_to i M = map snd (filter (\<lambda>p. fst p = i) (posted (common M)))"

definition deliver :: "nat \<Rightarrow> machine \<Rightarrow> machine" where
  "deliver l M = M\<lparr>slices := (\<lambda>i. fold (queueInLoop False) (posted_to i M)
                      ((slices M i)\<lparr>store := owned_store l i M\<rparr>)),
                   common := (common M)\<lparr>posted := []\<rparr>\<rparr>"

definition in_thread :: "nat \<Rightarrow> (server_state \<Rightarrow> server_state res) \<Rightarrow> machine \<Rightarrow> machine res" where
  "in_thread l g M = res_bind (g (focus l M)) (\<lambda>s. Inr (deliver l (unfocus l s M)))"

subsection \<open>Callbacks and functors\<close>

text \<open>\<open>TcpServer::removeConnection\<close>, the close callback, called in any thread.\<close>

definition removeConnection_io :: "nat \<Rightarrow> server_state \<Rightarrow> server_state res" where
  "removeConnection_io a s =
     run_in (\<lambda>_. removeConnectionInLoop a) (baseLoop (pool s)) (RemoveConnectionInLoop a) s"

record io_env =
  io_kernel :: kernel
  io_connection :: "nat \<Rightarrow> server_state \<Rightarrow> server_state res"
  io_message :: "nat \<Rightarrow> server_state \<Rightarrow> server_state res"

text \<open>The acceptor's and the timer queue's channels are not dispatched here: accepting is a step of its own.\<close>

fun io_callback :: "io_env \<Rightarrow> net_callback \<Rightarrow> server_state \<Rightarrow> server_state res" where
  "io_callback E (ConnRead a) s = TcpConnection_handleRead (io_kernel E) (io_message E) removeConnection_io a s"
| "io_callback E (ConnWrite a) s = handleWrite (io_kernel E) a s"
| "io_callback E (ConnClose a) s = handleClose removeConnection_io a s"
| "io_callback E (ConnError a) s = handleError a s"
| "io_callback E WakeupRead s = Inr (EventLoop_handleRead s)"
| "io_callback E AcceptRead s = Inr s"
| "io_callback E TimerRead s = Inr s"

subsection \<open>Steps\<close>

datatype io_action =
    Accepted "nat \<times> nat" "sockaddr_in option" int sockaddr_in
  | Dispatch nat "32 word"
  | Swap nat
  | RunNext nat

abbreviation base_of :: "machine \<Rightarrow> nat" where
  "base_of M \<equiv> baseLoop (pool (common M))"

text \<open>\<open>poll(2)\<close> reported \<open>revt\<close> for the channel of the connection at \<open>a\<close>.\<close>

definition dispatch :: "io_env \<Rightarrow> nat \<Rightarrow> 32 word \<Rightarrow> server_state \<Rightarrow> server_state res" where
  "dispatch E a revt =
     with_conn a (\<lambda>c. with_channel (channel c) (\<lambda>ch s.
       handleEvent (io_callback E) (channel c) (s\<lparr>store := (store s)(channel c \<mapsto> ch\<lparr>revents := revt\<rparr>)\<rparr>)))"

fun perform :: "io_env \<Rightarrow> io_action \<Rightarrow> machine \<Rightarrow> machine res" where
  "perform E (Accepted addrs sockname sockfd peer) M =
     in_thread (base_of M) (newConnection (io_connection E) addrs sockname sockfd peer) M"
| "perform E (Dispatch a revt) M =
     (case conns (common M) a of None \<Rightarrow> Inl Undefined | Some c \<Rightarrow> in_thread (conn_loop c) (dispatch E a revt) M)"
| "perform E (Swap l) M =
     (let fs = pendingFunctors (slices M l)
      in Inr (M\<lparr>slices := (slices M)(l := (slices M l)\<lparr>pendingFunctors := [], callingPendingFunctors := (fs \<noteq> [])\<rparr>),
                taken := (taken M)(l := fs)\<rparr>))"
| "perform E (RunNext l) M =
     (case taken M l of [] \<Rightarrow> Inr M
      | f # fs \<Rightarrow> in_thread l (\<lambda>s. res_bind (run_functor (io_kernel E) (io_connection E) f s)
            (\<lambda>s'. Inr (s'\<lparr>callingPendingFunctors := (fs \<noteq> [])\<rparr>))) (M\<lparr>taken := (taken M)(l := fs)\<rparr>))"

text \<open>
  When a step can happen.  The kernel accepts a descriptor that is not in use, the new
  objects are where no object is, \<open>poll(2)\<close> reports channels with some interest only, and a
  loop that still runs its functors does not poll.  A report of a hang-up without input does
  not come with out-of-band data: with \<open>POLLPRI\<close> the code would close the connection twice.
\<close>

definition plausible :: "32 word \<Rightarrow> bool" where
  "plausible revt \<longleftrightarrow> (revt AND POLLHUP \<noteq> 0 \<and> revt AND POLLIN = 0 \<longrightarrow> revt AND (POLLIN OR POLLPRI OR POLLRDHUP) = 0)"

fun possible :: "io_action \<Rightarrow> machine \<Rightarrow> bool" where
  "possible (Accepted (a, ch) sockname sockfd peer) M \<longleftrightarrow>
     taken M (base_of M) = [] \<and> 0 \<le> sockfd \<and> conns (common M) a = None
     \<and> (\<forall>l. store (slices M l) ch = None \<and> channels (slices M l) sockfd = None)
     \<and> (\<forall>b c. conns (common M) b = Some c \<longrightarrow> channel c \<noteq> ch \<and> (state c \<noteq> kDisconnected \<longrightarrow> socket c \<noteq> sockfd))"
| "possible (Dispatch a revt) M \<longleftrightarrow>
     (\<exists>c ch. conns (common M) a = Some c \<and> taken M (conn_loop c) = [] \<and> plausible revt
       \<and> attached (slices M (conn_loop c)) (channel c) ch \<and> events ch \<noteq> 0)"
| "possible (Swap l) M \<longleftrightarrow> taken M l = []"
| "possible (RunNext l) M \<longleftrightarrow> taken M l \<noteq> []"

fun run_actions :: "io_env \<Rightarrow> io_action list \<Rightarrow> machine \<Rightarrow> machine res" where
  "run_actions E [] M = Inr M"
| "run_actions E (x # xs) M = res_bind (perform E x M) (run_actions E xs)"

fun schedule :: "io_env \<Rightarrow> io_action list \<Rightarrow> machine \<Rightarrow> bool" where
  "schedule E [] M \<longleftrightarrow> True"
| "schedule E (x # xs) M \<longleftrightarrow> possible x M \<and> (case perform E x M of Inr M' \<Rightarrow> schedule E xs M' | Inl _ \<Rightarrow> True)"

subsection \<open>What a thread sees\<close>

lemma focus_simps [simp]:
  "store (focus l M) = store (slices M l)" "pollfds (focus l M) = pollfds (slices M l)"
  "channels (focus l M) = channels (slices M l)" "loopId (focus l M) = loopId (slices M l)"
  "pendingFunctors (focus l M) = pendingFunctors (slices M l)"
  "callingPendingFunctors (focus l M) = callingPendingFunctors (slices M l)"
  "conns (focus l M) = conns (common M)" "calls (focus l M) = calls (common M)" "wire (focus l M) = wire (common M)"
  "shut (focus l M) = shut (common M)" "net_state.more (focus l M) = net_state.more (common M)"
  by (cases "common M"; cases "slices M l"; simp add: focus_def loop_state.extend_def)+

lemmas focus_more [simp] = more_fields [OF focus_simps(11)]

lemma truncate_simps [simp]:
  "store (loop_state.truncate s) = store s" "pollfds (loop_state.truncate s) = pollfds s"
  "channels (loop_state.truncate s) = channels s" "loopId (loop_state.truncate s) = loopId s"
  "pendingFunctors (loop_state.truncate s) = pendingFunctors s"
  by (cases s; simp add: loop_state.truncate_def)+

lemma queue_all [simp]:
  "store (fold (queueInLoop b) fs s) = store s" "pollfds (fold (queueInLoop b) fs s) = pollfds s"
  "channels (fold (queueInLoop b) fs s) = channels s" "loopId (fold (queueInLoop b) fs s) = loopId s"
  "pendingFunctors (fold (queueInLoop b) fs s) = pendingFunctors s @ fs"
  by (induction fs arbitrary: s) (simp_all add: queueInLoop_def push_functor_def wakeup_def Let_def)

text \<open>The machine after a step of loop \<open>l\<close> that left the state \<open>s\<close>.\<close>

definition after :: "nat \<Rightarrow> server_state \<Rightarrow> machine \<Rightarrow> machine" where
  "after l s M = deliver l (unfocus l s M)"

definition owns :: "nat \<Rightarrow> ('cb, 'm) poll_state_scheme \<Rightarrow> bool" where
  "owns l s \<longleftrightarrow> (\<forall>k c. store s k = Some c \<longrightarrow> loopOf c = l)"

definition mail_for :: "nat \<Rightarrow> server_state \<Rightarrow> net_functor list" where
  "mail_for i s = map snd (filter (\<lambda>p. fst p = i) (posted s))"

lemma in_thread_after: "in_thread l g M = Inr M' \<longleftrightarrow> (\<exists>s. g (focus l M) = Inr s \<and> M' = after l s M)"
  by (auto simp: in_thread_def after_def)

lemma after_simps [simp]:
  "taken (after l s M) = taken M" "conns (common (after l s M)) = conns s" "posted (common (after l s M)) = []"
  "connections (common (after l s M)) = connections s" "nextConnId (common (after l s M)) = nextConnId s"
  "server_name (common (after l s M)) = server_name s" "pool (common (after l s M)) = pool s"
  "channels (slices (after l s M) i) = (if i = l then channels s else channels (slices M i))"
  "pollfds (slices (after l s M) i) = (if i = l then pollfds s else pollfds (slices M i))"
  "loopId (slices (after l s M) i) = (if i = l then loopId s else loopId (slices M i))"
  "pendingFunctors (slices (after l s M) i)
     = (if i = l then pendingFunctors s else pendingFunctors (slices M i)) @ mail_for i s"
  by (simp_all add: after_def deliver_def unfocus_def posted_to_def mail_for_def)

lemma after_store:
  assumes "owns l s"
  shows "store (slices (after l s M) i) = (if i = l then store s else store (slices M i))"
  using assms
  by (auto simp: after_def deliver_def unfocus_def owned_store_def owns_def fun_eq_iff split: option.splits)

end
