(* ===== verification/Io_Life.thy ===== *)
theory Io_Life
  imports Io_Loops
begin

section \<open>The life of a connection between the loops\<close>

text \<open>
  The invariant of a server with several loop threads: every connection is in exactly one phase
  of its life, which the two loops it meets agree on, and every functor waits in the loop it is
  meant for.
\<close>

subsection \<open>Phases\<close>

datatype phase = Embryo | Live | Leaving | Doomed | Gone

abbreviation open_conn :: "TcpConnection \<Rightarrow> bool" where
  "open_conn c \<equiv> state c = kConnected \<or> state c = kDisconnecting"

definition queued :: "nat \<Rightarrow> machine \<Rightarrow> net_functor list" where
  "queued l M = taken M l @ pendingFunctors (slices M l)"

definition in_map :: "machine \<Rightarrow> nat \<Rightarrow> bool" where
  "in_map M a \<longleftrightarrow> a \<in> snd ` set (connections (common M))"

text \<open>How often the three functors of a connection's life wait: to open it, to take it out of the map, to destroy it.\<close>

definition notices :: "machine \<Rightarrow> nat \<Rightarrow> nat \<Rightarrow> nat \<times> nat \<times> nat" where
  "notices M l a = (count_list (queued l M) (ConnectEstablished a),
     count_list (queued (base_of M) M) (RemoveConnectionInLoop a), count_list (queued l M) (ConnectDestroyed a))"

definition bound_channel :: "nat \<Rightarrow> net_callback Channel \<Rightarrow> bool" where
  "bound_channel a ch \<longleftrightarrow> readCallback ch = Some (ConnRead a) \<and> writeCallback ch = Some (ConnWrite a)
     \<and> errorCallback ch = Some (ConnError a) \<and> closeCallback ch = Some (ConnClose a)"

definition watched_as :: "machine \<Rightarrow> nat \<Rightarrow> TcpConnection \<Rightarrow> net_callback Channel \<Rightarrow> bool" where
  "watched_as M a c ch \<longleftrightarrow> conn_at (focus (conn_loop c) M) a c ch \<and> bound_channel a ch"

text \<open>A connection before \<open>connectEstablished\<close>: its channel is built and not in the poller.\<close>

definition unborn :: "('m) net_state_scheme \<Rightarrow> nat \<Rightarrow> TcpConnection \<Rightarrow> bool" where
  "unborn s a c \<longleftrightarrow> (\<exists>ch. store s (channel c) = Some ch \<and> bound_channel a ch \<and> fd ch = socket c
       \<and> loopOf ch = conn_loop c \<and> index ch < 0)
     \<and> channels s (socket c) = None \<and> 0 \<le> socket c \<and> buf_wf (inputBuffer c) \<and> buf_wf (outputBuffer c)"

fun in_phase :: "machine \<Rightarrow> nat \<Rightarrow> TcpConnection \<Rightarrow> phase \<Rightarrow> bool" where
  "in_phase M a c Embryo \<longleftrightarrow> state c = kConnecting \<and> in_map M a \<and> notices M (conn_loop c) a = (1, 0, 0)
     \<and> unborn (focus (conn_loop c) M) a c"
| "in_phase M a c Live \<longleftrightarrow> open_conn c \<and> in_map M a \<and> notices M (conn_loop c) a = (0, 0, 0)
     \<and> (\<exists>ch. watched_as M a c ch)"
| "in_phase M a c Leaving \<longleftrightarrow> open_conn c \<and> in_map M a \<and> notices M (conn_loop c) a = (0, 1, 0)
     \<and> (\<exists>ch. watched_as M a c ch \<and> events ch = 0)"
| "in_phase M a c Doomed \<longleftrightarrow> open_conn c \<and> \<not> in_map M a \<and> notices M (conn_loop c) a = (0, 0, 1)
     \<and> (\<exists>ch. watched_as M a c ch \<and> events ch = 0)"
| "in_phase M a c Gone \<longleftrightarrow> state c = kDisconnected \<and> \<not> in_map M a \<and> notices M (conn_loop c) a = (0, 0, 0)
     \<and> (\<exists>ch. store (slices M (conn_loop c)) (channel c) = Some ch \<and> fd ch = socket c)
     \<and> channels (slices M (conn_loop c)) (socket c) \<noteq> Some (channel c)"

text \<open>A connection is in one phase only.\<close>

lemma in_phase_unique: "in_phase M a c p \<Longrightarrow> in_phase M a c q \<Longrightarrow> p = q"
  by (cases p; cases q; auto)

subsection \<open>The invariant\<close>

text \<open>A functor waits in the right loop: in the loop of its connection, or in the acceptor's loop.\<close>

fun addressed :: "machine \<Rightarrow> nat \<Rightarrow> net_functor \<Rightarrow> bool" where
  "addressed M l (ConnectEstablished a) \<longleftrightarrow> (\<exists>c. conns (common M) a = Some c \<and> conn_loop c = l)"
| "addressed M l (ConnectDestroyed a) \<longleftrightarrow> (\<exists>c. conns (common M) a = Some c \<and> conn_loop c = l)"
| "addressed M l (WriteComplete a) \<longleftrightarrow> (\<exists>c. conns (common M) a = Some c \<and> conn_loop c = l)"
| "addressed M l (RemoveConnectionInLoop a) \<longleftrightarrow> l = base_of M \<and> conns (common M) a \<noteq> None"
| "addressed M l _ \<longleftrightarrow> False"

definition loops_ok :: "machine \<Rightarrow> bool" where
  "loops_ok M \<longleftrightarrow> (let p = pool (common M) in loops p \<noteq> [] \<and> baseLoop p \<notin> set (loops p) \<and> pool_wf p)
     \<and> (\<forall>l. poll_wf (slices M l) \<and> loopId (slices M l) = l \<and> owns l (slices M l))"

definition names_ok :: "server_state \<Rightarrow> bool" where
  "names_ok s \<longleftrightarrow> 1 \<le> nextConnId s \<and> sorted_wrt (<) (map fst (connections s))
     \<and> (\<forall>(n, a) \<in> set (connections s). \<exists>c. conns s a = Some c \<and> conn_name c = n)
     \<and> (\<forall>a c. conns s a = Some c \<longrightarrow> (\<exists>i. 1 \<le> i \<and> i < nextConnId s \<and> conn_name c = connection_name (server_name s) i))
     \<and> (\<forall>a b c d. conns s a = Some c \<longrightarrow> conns s b = Some d \<longrightarrow> a \<noteq> b \<longrightarrow>
          conn_name c \<noteq> conn_name d \<and> channel c \<noteq> channel d
          \<and> (state c \<noteq> kDisconnected \<longrightarrow> state d \<noteq> kDisconnected \<longrightarrow> socket c \<noteq> socket d))"

lemma names_okD:
  assumes "names_ok s"
  shows "1 \<le> nextConnId s" "sorted_wrt (<) (map fst (connections s))"
    "(n, a) \<in> set (connections s) \<Longrightarrow> \<exists>c. conns s a = Some c \<and> conn_name c = n"
    "conns s a = Some c \<Longrightarrow> \<exists>i. 1 \<le> i \<and> i < nextConnId s \<and> conn_name c = connection_name (server_name s) i"
    "conns s a = Some c \<Longrightarrow> conns s b = Some d \<Longrightarrow> a \<noteq> b \<Longrightarrow> conn_name c \<noteq> conn_name d \<and> channel c \<noteq> channel d
        \<and> (state c \<noteq> kDisconnected \<longrightarrow> state d \<noteq> kDisconnected \<longrightarrow> socket c \<noteq> socket d)"
  using assms unfolding names_ok_def by auto

definition life_inv :: "machine \<Rightarrow> bool" where
  "life_inv M \<longleftrightarrow> loops_ok M \<and> names_ok (common M) \<and> posted (common M) = []
     \<and> (\<forall>l. \<forall>f \<in> set (queued l M). addressed M l f)
     \<and> (\<forall>a c. conns (common M) a = Some c \<longrightarrow> conn_loop c \<in> set (loops (pool (common M))) \<and> (\<exists>p. in_phase M a c p))"

lemma life_invD:
  assumes "life_inv M"
  shows "loops (pool (common M)) \<noteq> []" "base_of M \<notin> set (loops (pool (common M)))" "pool_wf (pool (common M))"
    "poll_wf (slices M l)" "loopId (slices M l) = l" "owns l (slices M l)" "names_ok (common M)" "posted (common M) = []"
    "f \<in> set (queued l M) \<Longrightarrow> addressed M l f"
    "conns (common M) a = Some c \<Longrightarrow> conn_loop c \<in> set (loops (pool (common M)))"
    "conns (common M) a = Some c \<Longrightarrow> conn_loop c \<noteq> base_of M"
    "conns (common M) a = Some c \<Longrightarrow> \<exists>p. in_phase M a c p"
proof -
  have l: "loops_ok M" and m: "\<forall>l. \<forall>f \<in> set (queued l M). addressed M l f"
    and c: "\<forall>a c. conns (common M) a = Some c \<longrightarrow> conn_loop c \<in> set (loops (pool (common M))) \<and> (\<exists>p. in_phase M a c p)"
    using assms by (simp_all add: life_inv_def)
  show "names_ok (common M)" "posted (common M) = []" using assms by (simp_all add: life_inv_def)
  show "loops (pool (common M)) \<noteq> []" "pool_wf (pool (common M))"
    "poll_wf (slices M l)" "loopId (slices M l) = l" "owns l (slices M l)"
    using l by (simp_all add: loops_ok_def Let_def)
  show nb: "base_of M \<notin> set (loops (pool (common M)))" using l by (simp add: loops_ok_def Let_def)
  show "addressed M l f" if "f \<in> set (queued l M)" using m that by simp
  show cl: "conn_loop c \<in> set (loops (pool (common M)))" and "\<exists>p. in_phase M a c p" if "conns (common M) a = Some c"
    using c that by simp_all
  show "conn_loop c \<noteq> base_of M" if "conns (common M) a = Some c" using cl [OF that] nb by auto
qed

subsection \<open>Steps that leave the other connections alone\<close>

lemma conn_at_after:
  assumes "owns l s" and "i \<noteq> l \<longrightarrow> conns s b = conns (common M) b"
  shows "conn_at (focus i (after l s M)) b c ch \<longleftrightarrow> (if i = l then conn_at s b c ch else conn_at (focus i M) b c ch)"
proof (cases "i = l")
  case True
  have "conn_at (focus i (after l s M)) b c ch = conn_at s b c ch"
    by (rule conn_at_cong) (simp_all add: True after_store [OF assms(1)])
  with True show ?thesis by simp
next
  case False
  have "conn_at (focus i (after l s M)) b c ch = conn_at (focus i M) b c ch"
    by (rule conn_at_cong) (use assms(2) False in \<open>simp_all add: after_store [OF assms(1)]\<close>)
  with False show ?thesis by simp
qed

lemma queued_after: "queued i (after l s M) =
    taken M i @ (if i = l then pendingFunctors s else pendingFunctors (slices M i)) @ mail_for i s"
  by (simp add: queued_def)

text \<open>
  \<open>spares a s s'\<close>: what a step on the connection at \<open>a\<close> leaves of the others that live in the
  same loop.
\<close>

definition kept_at :: "nat \<Rightarrow> server_state \<Rightarrow> server_state \<Rightarrow> bool" where
  "kept_at k s s' \<longleftrightarrow> (\<forall>c. store s k = Some c \<longrightarrow>
     (\<exists>c'. store s' k = Some c' \<and> same_binding c c' \<and> (index c < 0 \<longrightarrow> index c' = index c)))"

definition spares :: "nat \<Rightarrow> server_state \<Rightarrow> server_state \<Rightarrow> bool" where
  "spares a s s' \<longleftrightarrow> (\<forall>b. b \<noteq> a \<longrightarrow> conns s' b = conns s b)
     \<and> (\<forall>b c. b \<noteq> a \<longrightarrow> conns s b = Some c \<longrightarrow> kept_at (channel c) s s')
     \<and> (\<forall>b c ch. b \<noteq> a \<longrightarrow> conns s b = Some c \<longrightarrow> conn_at s b c ch \<longrightarrow> (\<exists>i. conn_at s' b c (ch\<lparr>index := i\<rparr>)))
     \<and> (\<forall>b c. b \<noteq> a \<longrightarrow> conns s b = Some c \<longrightarrow> channels s (socket c) \<noteq> Some (channel c) \<longrightarrow>
          channels s' (socket c) \<noteq> Some (channel c)
          \<and> (state c \<noteq> kDisconnected \<longrightarrow> channels s (socket c) = None \<longrightarrow> channels s' (socket c) = None))"

lemma kept_atE:
  assumes "kept_at k s s'" and "store s k = Some c"
  obtains c' where "store s' k = Some c'" "same_binding c c'" "index c < 0 \<Longrightarrow> index c' = index c"
  using assms unfolding kept_at_def by blast

lemma sparesD:
  assumes "spares a s s'" and "b \<noteq> a"
  shows "conns s' b = conns s b" and "conns s b = Some c \<Longrightarrow> kept_at (channel c) s s'"
    and "conns s b = Some c \<Longrightarrow> conn_at s b c ch \<Longrightarrow> \<exists>i. conn_at s' b c (ch\<lparr>index := i\<rparr>)"
    and "conns s b = Some c \<Longrightarrow> channels s (socket c) \<noteq> Some (channel c) \<Longrightarrow> channels s' (socket c) \<noteq> Some (channel c)"
    and "conns s b = Some c \<Longrightarrow> state c \<noteq> kDisconnected \<Longrightarrow> channels s (socket c) = None \<Longrightarrow> channels s' (socket c) = None"
proof -
  show "conns s' b = conns s b" using assms by (simp add: spares_def)
  show "kept_at (channel c) s s'" if "conns s b = Some c" using assms that by (simp add: spares_def)
  show "\<exists>i. conn_at s' b c (ch\<lparr>index := i\<rparr>)" if "conns s b = Some c" "conn_at s b c ch"
    using assms that by (simp add: spares_def)
  show "channels s' (socket c) \<noteq> Some (channel c)" if "conns s b = Some c" "channels s (socket c) \<noteq> Some (channel c)"
    using assms that by (simp add: spares_def)
  show "channels s' (socket c) = None"
    if "conns s b = Some c" "state c \<noteq> kDisconnected" "channels s (socket c) = None"
    using assms that by (simp add: spares_def)
qed

lemma bound_channel_kept: "same_binding ch ch' \<Longrightarrow> bound_channel a ch' = bound_channel a ch"
  by (simp add: same_binding_def bound_channel_def)

lemma unborn_spared:
  assumes "spares a s s'" and "b \<noteq> a" and "conns s b = Some c" and "unborn s b c" and "state c = kConnecting"
  shows "unborn s' b c"
proof -
  obtain ch where ch: "store s (channel c) = Some ch" "bound_channel b ch" "fd ch = socket c" "loopOf ch = conn_loop c" "index ch < 0"
    and rest: "channels s (socket c) = None" using assms(4) by (auto simp: unborn_def)
  obtain ch' where ch': "store s' (channel c) = Some ch'" "same_binding ch ch'" "index ch < 0 \<longrightarrow> index ch' = index ch"
    using assms(1-3) ch(1) unfolding spares_def kept_at_def by blast
  have "channels s' (socket c) = None" using assms(1-3,5) rest unfolding spares_def by auto
  with ch ch' assms(4) show ?thesis
    using bound_channel_kept [OF ch'(2), of b] by (auto simp: unborn_def same_binding_def)
qed

lemma unborn_after:
  assumes b: "b \<noteq> a" "conns (common M) b = Some c" "state c = kConnecting" "unborn (focus (conn_loop c) M) b c"
    and own: "owns l s" and sp: "spares a (focus l M) s" and m1: "slices M1 = slices M"
  shows "unborn (focus (conn_loop c) (after l s M1)) b c"
proof (cases "conn_loop c = l")
  case True
  have "unborn s b c" using unborn_spared [OF sp b(1)] b(2-4) True by simp
  then show ?thesis using True by (simp add: unborn_def after_store [OF own])
next
  case False
  then show ?thesis using b(4) by (simp add: unborn_def after_store [OF own] m1)
qed

lemma gone_after:
  assumes b: "b \<noteq> a" "conns (common M) b = Some c" "store (slices M (conn_loop c)) (channel c) = Some ch" "fd ch = socket c"
      "channels (slices M (conn_loop c)) (socket c) \<noteq> Some (channel c)"
    and own: "owns l s" and sp: "spares a (focus l M) s" and m1: "slices M1 = slices M"
  shows "\<exists>ch. store (slices (after l s M1) (conn_loop c)) (channel c) = Some ch \<and> fd ch = socket c"
    and "channels (slices (after l s M1) (conn_loop c)) (socket c) \<noteq> Some (channel c)"
proof -
  show "\<exists>ch. store (slices (after l s M1) (conn_loop c)) (channel c) = Some ch \<and> fd ch = socket c"
    using sparesD(2) [OF sp b(1)] b(2-4) by (cases "conn_loop c = l")
      (auto simp: after_store [OF own] m1 same_binding_def elim!: kept_atE)
  show "channels (slices (after l s M1) (conn_loop c)) (socket c) \<noteq> Some (channel c)"
    using sp b(1,2,5) by (auto simp: spares_def m1)
qed

lemma others_phase:
  assumes inv: "life_inv M" and b: "b \<noteq> a" "conns (common M) b = Some c" "in_phase M b c p"
    and own: "owns l s" and sp: "spares a (focus l M) s"
    and m1: "slices M1 = slices M" "common M1 = common M"
    and map: "b \<in> snd ` set (connections s) \<longleftrightarrow> in_map M b"
    and no: "notices (after l s M1) (conn_loop c) b = notices M (conn_loop c) b"
  shows "in_phase (after l s M1) b c p"
proof -
  let ?M' = "after l s M1"
  have cs: "conns s b = Some c" using sp b by (simp add: spares_def)
  have im: "in_map ?M' b = in_map M b" using map by (simp add: in_map_def)
  have f: "focus i M1 = focus i M" for i by (simp add: focus_def m1)
  have at: "\<exists>i. conn_at (focus (conn_loop c) ?M') b c (ch\<lparr>index := i\<rparr>)" if "conn_at (focus (conn_loop c) M) b c ch" for ch
  proof (cases "conn_loop c = l")
    case True
    with that sp b cs show ?thesis
      by (simp add: spares_def conn_at_after [OF own])
  next
    case False
    have "conn_at (focus (conn_loop c) ?M') b c (ch\<lparr>index := index ch\<rparr>)"
      using that False cs b(2) by (simp add: conn_at_after [OF own] f m1)
    then show ?thesis by blast
  qed
  have w: "\<exists>ch. watched_as ?M' b c ch \<and> events ch = e" if "watched_as M b c ch" "events ch = e" for ch e
    using at that by (fastforce simp: watched_as_def bound_channel_def)
  show ?thesis
  proof (cases p)
    case Embryo
    with b(3) im no unborn_after [OF b(1,2) _ _ own sp m1(1)] show ?thesis by simp
  next
    case Gone
    then obtain ch where "store (slices M (conn_loop c)) (channel c) = Some ch" "fd ch = socket c"
        "channels (slices M (conn_loop c)) (socket c) \<noteq> Some (channel c)" using b(3) by auto
    from gone_after [OF b(1,2) this own sp m1(1)] b(3) Gone im no show ?thesis by simp
  qed (use b(3) im no w in \<open>auto; blast\<close>)+
qed

text \<open>The connection a functor is about; a step on one connection adds and removes only functors about it.\<close>

fun about :: "net_functor \<Rightarrow> nat option" where
  "about (ConnectEstablished a) = Some a"
| "about (ConnectDestroyed a) = Some a"
| "about (WriteComplete a) = Some a"
| "about (SendInLoop a m) = Some a"
| "about (ShutdownInLoop a) = Some a"
| "about (RemoveConnectionInLoop a) = Some a"
| "about AcceptorListen = None"

definition same_mail :: "nat \<Rightarrow> machine \<Rightarrow> machine \<Rightarrow> bool" where
  "same_mail a M M' \<longleftrightarrow> base_of M' = base_of M
     \<and> (\<forall>i. filter (\<lambda>f. about f \<noteq> Some a) (queued i M') = filter (\<lambda>f. about f \<noteq> Some a) (queued i M))"

lemma count_filter: "P x \<Longrightarrow> count_list (filter P xs) x = count_list xs x"
  by (induction xs) auto

lemma same_mail_notices:
  assumes "same_mail a M M'" and "b \<noteq> a"
  shows "notices M' l b = notices M l b"
proof -
  have "count_list (queued i M') f = count_list (queued i M) f" if "about f = Some b" for i f
  proof -
    have f: "about f \<noteq> Some a" using that assms(2) by simp
    have "count_list (filter (\<lambda>f. about f \<noteq> Some a) (queued i M')) f
        = count_list (filter (\<lambda>f. about f \<noteq> Some a) (queued i M)) f"
      using assms(1) by (simp add: same_mail_def)
    then show ?thesis using f by (simp add: count_filter)
  qed
  then show ?thesis using assms(1) by (simp add: notices_def same_mail_def)
qed

lemma addressed_cong:
  assumes "addressed M l f" and "base_of M' = base_of M"
    and "\<And>a c. conns (common M) a = Some c \<Longrightarrow> \<exists>c'. conns (common M') a = Some c' \<and> conn_loop c' = conn_loop c"
  shows "addressed M' l f"
  using assms(1,2) assms(3) by (cases f) (fastforce split: if_splits)+

text \<open>Changing one connection without its identity.\<close>

definition same_id :: "TcpConnection \<Rightarrow> TcpConnection \<Rightarrow> bool" where
  "same_id c c' \<longleftrightarrow> conn_loop c' = conn_loop c \<and> conn_name c' = conn_name c \<and> channel c' = channel c
     \<and> socket c' = socket c \<and> (state c = kDisconnected \<longrightarrow> state c' = kDisconnected)"

lemma names_step:
  assumes nm: "names_ok s" and a: "conns s a = Some c" and cs: "conns s' = (conns s)(a \<mapsto> c')" and id: "same_id c c'"
    and f: "nextConnId s' = nextConnId s" "server_name s' = server_name s"
    and srt: "sorted_wrt (<) (map fst (connections s'))" and sub: "set (connections s') \<subseteq> set (connections s)"
  shows "names_ok s'"
proof -
  have ent: "\<exists>c. conns s' b = Some c \<and> conn_name c = n" if "(n, b) \<in> set (connections s')" for n b
  proof -
    have "(n, b) \<in> set (connections s)" using sub that by blast
    from names_okD(3) [OF nm this] obtain d where "conns s b = Some d" "conn_name d = n" by blast
    with a cs id show ?thesis by (cases "b = a") (auto simp: same_id_def)
  qed
  have nam: "\<exists>i. 1 \<le> i \<and> i < nextConnId s \<and> conn_name d = connection_name (server_name s) i" if "conns s' b = Some d" for b d
    using names_okD(4) [OF nm] a cs id that by (cases "b = a") (auto simp: same_id_def)
  have old: "\<exists>d0. conns s b = Some d0 \<and> same_id d0 d" if "conns s' b = Some d" for b d
    using a cs id that by (cases "b = a") (auto simp: same_id_def)
  have "conn_name d \<noteq> conn_name e \<and> channel d \<noteq> channel e
      \<and> (state d \<noteq> kDisconnected \<longrightarrow> state e \<noteq> kDisconnected \<longrightarrow> socket d \<noteq> socket e)"
    if de: "conns s' b = Some d" "conns s' b2 = Some e" "b \<noteq> b2" for b b2 d e
  proof -
    obtain d0 e0 where o: "conns s b = Some d0" "same_id d0 d" "conns s b2 = Some e0" "same_id e0 e"
      using old [OF de(1)] old [OF de(2)] by blast
    have "conn_name d0 \<noteq> conn_name e0 \<and> channel d0 \<noteq> channel e0
      \<and> (state d0 \<noteq> kDisconnected \<longrightarrow> state e0 \<noteq> kDisconnected \<longrightarrow> socket d0 \<noteq> socket e0)"
      using names_okD(5) [OF nm o(1,3) de(3)] .
    with o(2,4) show ?thesis unfolding same_id_def by metis
  qed
  moreover have "\<forall>(n, b) \<in> set (connections s'). \<exists>c. conns s' b = Some c \<and> conn_name c = n" using ent by blast
  ultimately show ?thesis using nam srt names_okD(1) [OF nm] unfolding names_ok_def f by blast
qed

lemma step_inv:
  assumes inv: "life_inv M" and a: "conns (common M) a = Some c"
    and m1: "slices M1 = slices M" "common M1 = common M"
    and sp: "spares a (focus l M) s" and own: "owns l s" and wf: "poll_wf s" "loopId s = l"
    and pl: "pool s = pool (common M)" "nextConnId s = nextConnId (common M)" "server_name s = server_name (common M)"
    and cs: "conns s a = Some c'" "same_id c c'"
    and con: "sorted_wrt (<) (map fst (connections s))" "set (connections s) \<subseteq> set (connections (common M))"
      "\<And>b. b \<noteq> a \<Longrightarrow> b \<in> snd ` set (connections s) \<longleftrightarrow> in_map M b"
    and mail: "\<And>i f. f \<in> set (queued i (after l s M1)) \<Longrightarrow> f \<in> set (queued i M) \<or> addressed M i f"
    and same: "same_mail a M (after l s M1)" and ph: "in_phase (after l s M1) a c' p"
  shows "life_inv (after l s M1)" (is "life_inv ?M'")
proof -
  note i = life_invD [OF inv]
  have cs2: "conns s = (conns (common M))(a \<mapsto> c')" using sp cs(1) by (auto simp: spares_def fun_eq_iff)
  have lo: "loops_ok ?M'"
  proof -
    have "poll_wf (slices ?M' j)" for j
    proof (cases "j = l")
      case True
      have "poll_wf (slices ?M' j) = poll_wf s" by (rule poll_cong(1)) (simp_all add: True after_store [OF own])
      with wf show ?thesis by simp
    next
      case False
      have "poll_wf (slices ?M' j) = poll_wf (slices M j)"
        by (rule poll_cong(1)) (simp_all add: False after_store [OF own] m1)
      with i(4) show ?thesis by simp
    qed
    moreover have "owns j (slices ?M' j)" for j using own i(6) [of j] by (auto simp: owns_def after_store [OF own] m1)
    ultimately show ?thesis using i(1-3,5) wf(2) pl(1) by (simp add: loops_ok_def Let_def m1)
  qed
  have "names_ok s" by (rule names_step [OF i(7) a cs2 cs(2) pl(2,3) con(1,2)])
  then have nm: "names_ok (common ?M')" by (simp add: names_ok_def)
  have adr: "addressed ?M' j f" if "f \<in> set (queued j ?M')" for j f
  proof (rule addressed_cong [of M])
    show "addressed M j f" using mail [OF that] i(9) by blast
    show "base_of ?M' = base_of M" using pl(1) by simp
    show "\<exists>c'. conns (common ?M') b = Some c' \<and> conn_loop c' = conn_loop d" if "conns (common M) b = Some d" for b d
      using that a cs2 cs(2) by (cases "b = a") (auto simp: same_id_def)
  qed
  have "conn_loop d \<in> set (loops (pool (common ?M'))) \<and> (\<exists>p. in_phase ?M' b d p)" if d: "conns (common ?M') b = Some d" for b d
  proof (cases "b = a")
    case True
    with d cs(1) have "d = c'" by simp
    then show ?thesis using ph cs(2) i(10) [OF a] pl(1) True by (auto simp: same_id_def)
  next
    case False
    then have d0: "conns (common M) b = Some d" using d cs2 by simp
    obtain q where q: "in_phase M b d q" using i(12) [OF d0] by blast
    have "in_phase ?M' b d q"
      using others_phase [OF inv False d0 q own sp m1 con(3) [OF False]] same_mail_notices [OF same False] by blast
    then show ?thesis using i(10) [OF d0] pl(1) by auto
  qed
  with lo nm adr show ?thesis unfolding life_inv_def by simp
qed

subsection \<open>Steps that change no connection\<close>

definition is_notice :: "net_functor \<Rightarrow> bool" where
  "is_notice f \<longleftrightarrow> (\<exists>a. f \<in> {ConnectEstablished a, RemoveConnectionInLoop a, ConnectDestroyed a})"

lemma life_inv_cong:
  assumes inv: "life_inv M"
    and sl: "\<And>l. store (slices M' l) = store (slices M l)" "\<And>l. pollfds (slices M' l) = pollfds (slices M l)"
      "\<And>l. channels (slices M' l) = channels (slices M l)" "\<And>l. loopId (slices M' l) = loopId (slices M l)"
    and co: "conns (common M') = conns (common M)"
    and m: "connections (common M') = connections (common M)" "nextConnId (common M') = nextConnId (common M)"
      "server_name (common M') = server_name (common M)" "pool (common M') = pool (common M)"
      "posted (common M') = posted (common M)"
    and q: "\<And>l. set (queued l M') \<subseteq> set (queued l M)"
      "\<And>l. filter is_notice (queued l M') = filter is_notice (queued l M)"
  shows "life_inv M'"
proof -
  note i = life_invD [OF inv]
  have cnt: "count_list (queued l M') f = count_list (queued l M) f" if "is_notice f" for l f
    using q(2) [of l] that by (metis count_filter)
  have no: "notices M' l a = notices M l a" for l a
    unfolding notices_def m(4) by (simp add: cnt is_notice_def)
  have at: "conn_at (focus l M') = conn_at (focus l M)" for l
    by (intro ext conn_at_cong) (simp_all add: sl co)
  have w: "watched_as M' = watched_as M" by (intro ext) (simp add: watched_as_def at)
  have ph: "in_phase M' a c p = in_phase M a c p" for a c p
    by (cases p) (simp_all add: no w in_map_def m sl unborn_def)
  have "poll_wf (slices M' l)" for l using i(4) [of l] poll_cong(1) [OF sl(1-3), of l] by simp
  moreover have "owns l (slices M' l)" for l using i(6) [of l] by (simp add: owns_def sl)
  ultimately have "loops_ok M'" using i(1-3,5) by (simp add: loops_ok_def Let_def sl m)
  moreover have "names_ok (common M')" using i(7) by (simp add: names_ok_def m co)
  moreover have "addressed M' l f" if "f \<in> set (queued l M')" for l f
    by (rule addressed_cong [of M]) (use q(1) that i(9) in \<open>auto simp: m co\<close>)
  ultimately show ?thesis using i(8,10,12) unfolding life_inv_def co(1) m ph by blast
qed

lemma swap_inv:
  assumes "life_inv M" and "possible (Swap l) M" and "perform E (Swap l) M = Inr M'"
  shows "life_inv M'"
proof (rule life_inv_cong [OF assms(1)])
  have q: "queued i M' = queued i M" for i using assms(2,3) by (auto simp: queued_def Let_def)
  show "set (queued i M') \<subseteq> set (queued i M)" "filter is_notice (queued i M') = filter is_notice (queued i M)" for i
    by (simp_all add: q)
qed (use assms(3) in \<open>auto simp: Let_def\<close>)

subsection \<open>Steps on one connection in its own loop\<close>

lemma owns_kept:
  assumes "kept s s'" and "dom (store s') = dom (store s)" and "owns l s"
  shows "owns l s'"
proof -
  have "loopOf c' = l" if c': "store s' k = Some c'" for k c'
  proof -
    obtain c where c: "store s k = Some c" using assms(2) c' by (metis domD domI)
    with assms(1) c' have "same_binding c c'" by (auto elim: keptD)
    with assms(3) c show ?thesis by (simp add: owns_def same_binding_def)
  qed
  then show ?thesis by (simp add: owns_def)
qed

lemma conn_at_posted [simp]: "conn_at (s\<lparr>posted := x\<rparr>) b c ch = conn_at s b c ch"
  by (rule conn_at_cong) simp_all

text \<open>A step that, but for what it posts, keeps to the frame of one connection.\<close>

definition frame_but_posts :: "nat \<Rightarrow> TcpConnection \<Rightarrow> TcpConnection \<Rightarrow> server_state \<Rightarrow> server_state \<Rightarrow> bool" where
  "frame_but_posts a c c' s s' \<longleftrightarrow> frame a c c' s (s'\<lparr>posted := posted s\<rparr>) \<and> kept s s'"

lemma frame_but_postsD:
  assumes "frame_but_posts a c c' s s'"
  shows "kept s s'" "conns s' = (conns s)(a \<mapsto> c')" "loopId s' = loopId s" "channels s' = channels s"
    "dom (store s') = dom (store s)" "socket c' = socket c" "channel c' = channel c" "conn_name c' = conn_name c"
    "\<exists>fs. pendingFunctors s' = pendingFunctors s @ fs \<and> (\<forall>f \<in> set fs. f = WriteComplete a)"
    "connections s' = connections s" "nextConnId s' = nextConnId s" "server_name s' = server_name s" "pool s' = pool s"
    "\<And>b c2 ch2. b \<noteq> a \<Longrightarrow> channel c2 \<noteq> channel c \<Longrightarrow> conn_at s b c2 ch2 \<Longrightarrow> conn_at s' b c2 ch2"
proof -
  have fr: "frame a c c' s (s'\<lparr>posted := posted s\<rparr>)" and "kept s s'" using assms by (simp_all add: frame_but_posts_def)
  then show "kept s s'" "conns s' = (conns s)(a \<mapsto> c')" "loopId s' = loopId s" "channels s' = channels s"
    "dom (store s') = dom (store s)" "socket c' = socket c" "channel c' = channel c" "conn_name c' = conn_name c"
    "\<exists>fs. pendingFunctors s' = pendingFunctors s @ fs \<and> (\<forall>f \<in> set fs. f = WriteComplete a)"
    "\<And>b c2 ch2. b \<noteq> a \<Longrightarrow> channel c2 \<noteq> channel c \<Longrightarrow> conn_at s b c2 ch2 \<Longrightarrow> conn_at s' b c2 ch2"
    by (simp_all add: frame_def)
  have "net_state.more (s'\<lparr>posted := posted s\<rparr>) = net_state.more s" using fr by (simp add: frame_def)
  from more_fields [OF this]
  show "connections s' = connections s" "nextConnId s' = nextConnId s" "server_name s' = server_name s" "pool s' = pool s"
    by simp_all
qed

lemma kept_kept_at: "kept s s' \<Longrightarrow> kept_at k s s'"
  by (simp add: kept_def kept_at_def)

lemma kept_at_trans: "kept_at k s s1 \<Longrightarrow> kept_at k s1 s2 \<Longrightarrow> kept_at k s s2"
  unfolding kept_at_def [of k s s2] by (auto elim!: kept_atE intro: same_binding_trans)

lemma spares_trans:
  assumes "spares a s s1" and "spares a s1 s2"
  shows "spares a s s2"
proof -
  have "conns s2 b = conns s b" if "b \<noteq> a" for b
    using sparesD(1) [OF assms(1) that] sparesD(1) [OF assms(2) that] by simp
  moreover have "kept_at (channel c) s s2 \<and> (\<forall>ch. conn_at s b c ch \<longrightarrow> (\<exists>i. conn_at s2 b c (ch\<lparr>index := i\<rparr>)))
      \<and> (channels s (socket c) \<noteq> Some (channel c) \<longrightarrow> channels s2 (socket c) \<noteq> Some (channel c)
         \<and> (state c \<noteq> kDisconnected \<longrightarrow> channels s (socket c) = None \<longrightarrow> channels s2 (socket c) = None))"
    if b: "b \<noteq> a" "conns s b = Some c" for b c
  proof (intro conjI allI impI)
    note d1 = sparesD [OF assms(1) b(1)] and d2 = sparesD [OF assms(2) b(1)]
    have c1: "conns s1 b = Some c" using d1(1) b(2) by simp
    show "kept_at (channel c) s s2" by (rule kept_at_trans [OF d1(2) [OF b(2)] d2(2) [OF c1]])
    show "channels s2 (socket c) \<noteq> Some (channel c)" if "channels s (socket c) \<noteq> Some (channel c)"
      by (rule d2(4) [OF c1 d1(4) [OF b(2) that]])
    show "channels s2 (socket c) = None" if "state c \<noteq> kDisconnected" "channels s (socket c) = None"
      by (rule d2(5) [OF c1 that(1) d1(5) [OF b(2) that]])
    fix ch assume "conn_at s b c ch"
    then obtain i where "conn_at s1 b c (ch\<lparr>index := i\<rparr>)" using d1(3) [OF b(2)] by blast
    then obtain j where "conn_at s2 b c (ch\<lparr>index := i, index := j\<rparr>)" using d2(3) [OF c1] by blast
    then show "\<exists>i. conn_at s2 b c (ch\<lparr>index := i\<rparr>)" by auto
  qed
  ultimately show ?thesis unfolding spares_def by simp
qed

lemma spares_frame:
  assumes dist: "\<And>b d. b \<noteq> a \<Longrightarrow> conns s b = Some d \<Longrightarrow> channel d \<noteq> channel c" and fr: "frame_but_posts a c c' s s'"
  shows "spares a s s'"
proof -
  note f = frame_but_postsD [OF fr]
  have "\<exists>i. conn_at s' b c2 (ch2\<lparr>index := i\<rparr>)" if "b \<noteq> a" "conns s b = Some c2" "conn_at s b c2 ch2" for b c2 ch2
  proof -
    have "conn_at s' b c2 (ch2\<lparr>index := index ch2\<rparr>)" using f(14) that dist [OF that(1,2)] by simp
    then show ?thesis ..
  qed
  then show ?thesis using f(2,4) kept_kept_at [OF f(1)] by (auto simp: spares_def)
qed

lemma conn_step:
  assumes inv: "life_inv M" and a: "conns (common M) a = Some c" and l: "conn_loop c = l"
    and m1: "slices M1 = slices M" "common M1 = common M"
    and t: "\<And>i. filter (\<lambda>f. about f \<noteq> Some a) (taken M1 i) = filter (\<lambda>f. about f \<noteq> Some a) (taken M i)"
      "\<And>i. set (taken M1 i) \<subseteq> set (taken M i)"
    and fr: "frame_but_posts a c c' (focus l M) s" and at: "conn_at s a c' ch'"
    and al: "state c = kDisconnected \<longrightarrow> state c' = kDisconnected"
    and po: "set (posted s) \<subseteq> {(base_of M, RemoveConnectionInLoop a)}" and ph: "in_phase (after l s M1) a c' p"
  shows "life_inv (after l s M1)"
proof -
  note i = life_invD [OF inv] and f = frame_but_postsD [OF fr]
  have own: "owns l s"
    by (rule owns_kept [OF f(1,5)]) (use i(6) [of l] in \<open>simp add: owns_def\<close>)
  have cl: "conn_loop c' = l" using at f(3) i(5) by (simp add: conn_at_def)
  obtain fs where fs: "pendingFunctors s = pendingFunctors (slices M l) @ fs" "\<forall>g \<in> set fs. g = WriteComplete a"
    using f(9) by auto
  have mf: "set (mail_for j s) \<subseteq> {RemoveConnectionInLoop a}" "j \<noteq> base_of M \<Longrightarrow> mail_for j s = []" for j
    using po by (auto simp: mail_for_def filter_empty_conv)
  have q: "queued j (after l s M1) = taken M1 j @ pendingFunctors (slices M j) @ (if j = l then fs else []) @ mail_for j s" for j
    by (simp add: queued_after fs(1) m1)
  have "filter (\<lambda>g. about g \<noteq> Some a) (mail_for j s) = []" for j
    using mf(1) [of j] by (force simp: filter_empty_conv)
  moreover have "filter (\<lambda>g. about g \<noteq> Some a) fs = []" using fs(2) by (auto simp: filter_empty_conv)
  ultimately have same: "same_mail a M (after l s M1)"
    using f(13) by (simp add: same_mail_def q t(1) queued_def [of _ M])
  show ?thesis
  proof (rule step_inv [OF inv a m1 _ own _ _ _ _ _ _ _ _ _ _ _ same ph])
    show "spares a (focus l M) s" by (rule spares_frame [OF _ fr]) (use names_okD(5) [OF i(7) _ a] in auto)
    show "poll_wf s" using at by (simp add: conn_at_def)
    show "conns s a = Some c'" "loopId s = l" using f(2,3) i(5) by simp_all
    show "same_id c c'" using f(6-8) cl l al by (simp add: same_id_def)
    show "sorted_wrt (<) (map fst (connections s))" "set (connections s) \<subseteq> set (connections (common M))"
      using f(10) names_okD(2) [OF i(7)] by simp_all
    show "b \<in> snd ` set (connections s) \<longleftrightarrow> in_map M b" for b using f(10) by (simp add: in_map_def)
    show "g \<in> set (queued j M) \<or> addressed M j g" if "g \<in> set (queued j (after l s M1))" for j g
      using that t(2) [of j] fs(2) a l mf [of j] by (auto simp: q queued_def [of _ M] split: if_splits)
  qed (use f(11-13) in simp_all)
qed

subsection \<open>Dispatching an event\<close>

definition glides :: "nat \<Rightarrow> TcpConnection \<Rightarrow> server_state \<Rightarrow> server_state \<Rightarrow> bool" where
  "glides a c s s' \<longleftrightarrow>
     (\<exists>c' ch'. conn_at s' a c' ch' \<and> frame a c c' s s' \<and> (open_conn c \<longrightarrow> open_conn c')) \<and> kept s s'"

text \<open>Callbacks that work on their own connection only, as sending, reading its buffer or shutting it down do.\<close>

definition local_callback :: "(nat \<Rightarrow> server_state \<Rightarrow> server_state res) \<Rightarrow> bool" where
  "local_callback cb \<longleftrightarrow> (\<forall>a s c ch s'. conn_at s a c ch \<longrightarrow> cb a s = Inr s' \<longrightarrow> glides a c s s')"

lemma moves_glides: "moves a c s s' \<Longrightarrow> glides a c s s'"
  unfolding moves_def glides_def by metis

lemma glidesE:
  assumes "glides a c s s'"
  obtains c' ch' where "conn_at s' a c' ch'" "frame a c c' s s'" "open_conn c \<Longrightarrow> open_conn c'" "kept s s'" "channel c' = channel c"
  using assms unfolding glides_def frame_def by metis

lemma glides_trans:
  assumes "glides a c s s1" and "\<And>c1 ch1. conn_at s1 a c1 ch1 \<Longrightarrow> channel c1 = channel c \<Longrightarrow> glides a c1 s1 s2"
  shows "glides a c s s2"
proof -
  obtain c1 ch1 where c1: "conn_at s1 a c1 ch1" "frame a c c1 s s1" "open_conn c \<Longrightarrow> open_conn c1" "kept s s1"
    "channel c1 = channel c" using assms(1) by (rule glidesE) blast
  obtain c2 ch2 where c2: "conn_at s2 a c2 ch2" "frame a c1 c2 s1 s2" "open_conn c1 \<Longrightarrow> open_conn c2" "kept s1 s2"
    using assms(2) [OF c1(1,5)] by (rule glidesE) blast
  have "frame a c c2 s s2" using c1(2) c2(2) by (rule frame_trans)
  moreover have "kept s s2" using c1(4) c2(4) by (rule kept_trans)
  moreover have "open_conn c \<longrightarrow> open_conn c2" using c1(3) c2(3) by blast
  ultimately show ?thesis using c2(1) unfolding glides_def by blast
qed

lemma glides_bound:
  assumes "conn_at s a c ch" and "bound_channel a ch" and "glides a c s s'" and "conn_at s' a c' ch'"
  shows "bound_channel a ch'"
proof -
  have k: "kept s s'" and cc: "channel c' = channel c"
    using assms(3,4) unfolding glides_def frame_def conn_at_def by auto
  have "store s (channel c) = Some ch" "store s' (channel c) = Some ch'"
    using assms(1,4) cc by (simp_all add: conn_at_def attached_def)
  with k have "same_binding ch ch'" by (metis keptD option.inject)
  with assms(2) show ?thesis by (simp add: bound_channel_kept)
qed

lemma put_glides:
  assumes c: "conn_at s a c ch" and b: "same_binding ch ch'" "index ch' = index ch"
  shows "conn_at (s\<lparr>store := (store s)(channel c \<mapsto> ch')\<rparr>) a c ch'" (is "conn_at ?s a c ch'")
    and "glides a c s (s\<lparr>store := (store s)(channel c \<mapsto> ch')\<rparr>)"
proof -
  have st: "store s (channel c) = Some ch" and wf: "poll_wf s" using c by (simp_all add: conn_at_def attached_def)
  have wf1: "poll_wf ?s" by (rule poll_wf_store [OF wf st]) (use b in \<open>simp_all add: same_binding_def\<close>)
  have "fd ch = socket c \<and> channels s (fd ch) = Some (channel c)" using c unfolding conn_at_def attached_def by blast
  then have "channels s (socket c) = Some (channel c)" by metis
  then show at: "conn_at ?s a c ch'" using c b wf1 by (simp add: conn_at_def attached_def same_binding_def)
  have "conn_at ?s b2 c2 ch2" if "channel c2 \<noteq> channel c" "conn_at s b2 c2 ch2" for b2 c2 ch2
    using that wf1 unfolding conn_at_def attached_def by auto
  then have "frame a c c s ?s" using c st by (auto simp: frame_def conn_at_def)
  moreover have "kept s ?s" by (rule kept_put [OF st b]) simp
  ultimately show "glides a c s ?s" using at unfolding glides_def by blast
qed

text \<open>A continuation of the handler that stays with the connection and does not wake a silenced channel.\<close>

definition carries :: "nat \<Rightarrow> nat \<Rightarrow> (server_state \<Rightarrow> server_state res) \<Rightarrow> bool" where
  "carries a k g \<longleftrightarrow> (\<forall>s c ch s'. conn_at s a c ch \<longrightarrow> channel c = k \<longrightarrow> bound_channel a ch \<longrightarrow> g s = Inr s' \<longrightarrow>
     glides a c s s' \<and> (events ch = 0 \<longrightarrow> (\<exists>ch'. store s' k = Some ch' \<and> events ch' = 0)))"

lemma carries_error: "carries a k (handleError a)"
  unfolding carries_def
proof (intro allI impI)
  fix s s' :: server_state and c ch assume c: "conn_at s a c ch" "channel c = k" and run: "handleError a s = Inr s'"
  have "s' = s\<lparr>calls := calls s + 1\<rparr>" using run by (simp add: handleError_def conn_at_run [OF c(1)])
  then have "store s' k = Some ch" using c by (simp add: conn_at_def attached_def)
  with moves_glides [OF handleError_moves [OF c(1) run]]
  show "glides a c s s' \<and> (events ch = 0 \<longrightarrow> (\<exists>ch'. store s' k = Some ch' \<and> events ch' = 0))" by simp
qed

lemma carries_write: "carries a k (handleWrite K a)"
  unfolding carries_def
proof (intro allI impI)
  fix s s' :: server_state and c ch assume c: "conn_at s a c ch" "channel c = k" and run: "handleWrite K a s = Inr s'"
  have "s' = s" if "events ch = 0"
    using run that by (simp add: handleWrite_def conn_at_run [OF c(1)] isWriting_def)
  then have "\<exists>ch'. store s' k = Some ch' \<and> events ch' = 0" if "events ch = 0"
    using c that by (auto simp: conn_at_def attached_def)
  with moves_glides [OF handleWrite_moves [OF c(1) run]]
  show "glides a c s s' \<and> (events ch = 0 \<longrightarrow> (\<exists>ch'. store s' k = Some ch' \<and> events ch' = 0))" by simp
qed

lemma carries_flag: "carries a k (with_channel k (\<lambda>c ps. Inr (ps\<lparr>store := (store ps)(k \<mapsto> c\<lparr>eventHandling := b\<rparr>)\<rparr>)))"
  unfolding carries_def
proof (intro allI impI)
  fix s s' :: server_state and c ch assume c: "conn_at s a c ch" "channel c = k"
    and run: "with_channel k (\<lambda>c ps. Inr (ps\<lparr>store := (store ps)(k \<mapsto> c\<lparr>eventHandling := b\<rparr>)\<rparr>)) s = Inr s'"
  have "s' = s\<lparr>store := (store s)(channel c \<mapsto> ch\<lparr>eventHandling := b\<rparr>)\<rparr>"
    using run unfolding c(2) [symmetric] conn_at_run(2) [OF c(1)] by simp
  with put_glides [OF c(1), of "ch\<lparr>eventHandling := b\<rparr>"] c(2)
  show "glides a c s s' \<and> (events ch = 0 \<longrightarrow> (\<exists>ch'. store s' k = Some ch' \<and> events ch' = 0))" by simp
qed

lemma carries_after:
  assumes g: "carries a k g" and c: "conn_at s a c ch" "channel c = k" "bound_channel a ch" and gl: "glides a c s s1"
    and run: "g s1 = Inr s'"
  shows "glides a c s s'"
proof (rule glides_trans [OF gl])
  fix c1 ch1 assume c1: "conn_at s1 a c1 ch1" "channel c1 = channel c"
  then show "glides a c1 s1 s'"
    using g run c(2) glides_bound [OF c(1,3) gl c1(1)] unfolding carries_def by blast
qed

lemma carries_seq:
  assumes f: "carries a k f" and g: "carries a k g"
  shows "carries a k (\<lambda>s. res_bind (f s) g)"
  unfolding carries_def
proof (intro allI impI)
  fix s s' :: server_state and c ch assume c: "conn_at s a c ch" "channel c = k" "bound_channel a ch"
    and run: "res_bind (f s) g = Inr s'"
  obtain s1 where s1: "f s = Inr s1" "g s1 = Inr s'" using run by auto
  have gl: "glides a c s s1" "events ch = 0 \<longrightarrow> (\<exists>ch'. store s1 k = Some ch' \<and> events ch' = 0)"
    using f c s1(1) unfolding carries_def by blast+
  obtain c1 ch1 where c1: "conn_at s1 a c1 ch1" "channel c1 = channel c" using gl(1) by (rule glidesE) blast
  have "store s1 k = Some ch1" using c1 c(2) by (simp add: conn_at_def attached_def)
  moreover have "events ch1 = 0 \<longrightarrow> (\<exists>ch'. store s' k = Some ch' \<and> events ch' = 0)"
    using g c1 c(2) s1(2) glides_bound [OF c(1,3) gl(1) c1(1)] unfolding carries_def by metis
  ultimately show "glides a c s s' \<and> (events ch = 0 \<longrightarrow> (\<exists>ch'. store s' k = Some ch' \<and> events ch' = 0))"
    using carries_after [OF g c gl(1) s1(2)] gl(2) by auto
qed

lemma carries_stage:
  assumes g: "carries a k g" and r: "\<And>f. cb = Some f \<Longrightarrow> carries a k (run f)"
    and sel: "\<And>c. bound_channel a c \<Longrightarrow> sel c = cb"
  shows "carries a k (with_channel k (\<lambda>c ps. res_bind (if P c then run_opt run (sel c) ps else Inr ps) g))"
proof -
  let ?f = "with_channel k (\<lambda>c ps. if P c then run_opt run (sel c) ps else Inr ps)"
  have "carries a k ?f"
    unfolding carries_def
  proof (intro allI impI)
    fix s s' :: server_state and c ch assume c: "conn_at s a c ch" "channel c = k" "bound_channel a ch"
      and run: "?f s = Inr s'"
    have run2: "(if P ch then run_opt run cb s else Inr s) = Inr s'"
      using run sel [OF c(3)] unfolding c(2) [symmetric] conn_at_run(2) [OF c(1)] by (auto split: if_splits)
    show "glides a c s s' \<and> (events ch = 0 \<longrightarrow> (\<exists>ch'. store s' k = Some ch' \<and> events ch' = 0))"
    proof (cases "P ch \<and> cb \<noteq> None")
      case True
      then obtain f where "cb = Some f" "run f s = Inr s'" using run2 by (auto simp: run_opt_def)
      with r c show ?thesis unfolding carries_def by blast
    next
      case False
      then have "s' = s" using run2 by (auto simp: run_opt_def split: if_splits)
      with c moves_glides [OF moves_refl [OF c(1)]] show ?thesis by (auto simp: conn_at_def attached_def)
    qed
  qed
  moreover have "with_channel k (\<lambda>c ps. res_bind (if P c then run_opt run (sel c) ps else Inr ps) g)
      = (\<lambda>s. res_bind (?f s) g)"
    by (auto simp: with_channel_def fun_eq_iff split: option.splits)
  ultimately show ?thesis using carries_seq [OF _ g] by simp
qed

text \<open>Closing in a loop that is not the acceptor's: the channel falls silent, the removal is posted.\<close>

lemma close_run:
  assumes c: "conn_at s a c ch" and o: "open_conn c" and l: "loopId s \<noteq> baseLoop (pool s)"
    and run: "handleClose removeConnection_io a s = Inr s'"
  obtains s1 where "moves a c s s1" and "conn_at s1 a c (ch\<lparr>events := 0\<rparr>)"
    and "s' = s1\<lparr>posted := posted s @ [(baseLoop (pool s), RemoveConnectionInLoop a)]\<rparr>"
proof -
  obtain s1 p where s1: "disableAll (channel c) s = Inr s1" "conn_at s1 a c (ch\<lparr>events := kNoneEvent\<rparr>)" "frame a c c s s1"
    using conn_setEvents [OF c, of "\<lambda>_. kNoneEvent"] by (auto simp: disableAll_def)
  have mv: "moves a c s s1" using moves_events [OF c] s1(1) by (simp add: disableAll_def)
  have f: "loopId s1 = loopId s" "net_state.more s1 = net_state.more s" using s1(3) by (simp_all add: frame_def)
  note m = more_fields [OF f(2)]
  have cs: "conns s a = Some c" using c by (simp add: conn_at_def)
  have "handleClose removeConnection_io a s = removeConnection_io a s1"
    using cs o s1(1) by (auto simp: handleClose_def with_conn_def)
  then have "s' = s1\<lparr>posted := posted s @ [(baseLoop (pool s), RemoveConnectionInLoop a)]\<rparr>"
    using run l f(1) m by (simp add: removeConnection_io_def run_in_def)
  with that [OF mv] s1(2) show thesis by (simp add: kNoneEvent_def)
qed

text \<open>What is left of an event that closed the connection.\<close>

definition closed_by :: "nat \<Rightarrow> TcpConnection \<Rightarrow> server_state \<Rightarrow> server_state \<Rightarrow> bool" where
  "closed_by a c s s' \<longleftrightarrow> (\<exists>c' ch'. conn_at s' a c' ch' \<and> events ch' = 0 \<and> open_conn c' \<and> frame_but_posts a c c' s s'
     \<and> posted s' = posted s @ [(baseLoop (pool s), RemoveConnectionInLoop a)])"

lemma frame_posted:
  fixes s s' :: server_state
  assumes "frame a c c' (s\<lparr>posted := p\<rparr>) s'"
  shows "frame a c c' s (s'\<lparr>posted := posted s\<rparr>)" and "posted s' = p"
proof -
  have m: "net_state.more s' = net_state.more (s\<lparr>posted := p\<rparr>)" using assms by (simp add: frame_def)
  from more_fields(7) [OF m] show "posted s' = p" by simp
  have "net_state.more (s'\<lparr>posted := posted s\<rparr>) = net_state.more s" using m by (cases s; cases s'; simp)
  with assms show "frame a c c' s (s'\<lparr>posted := posted s\<rparr>)" by (simp add: frame_def)
qed

lemma closed_tail:
  assumes gl: "glides a c s s1" and at: "conn_at s1 a c1 ch1" and o: "open_conn c1"
    and l: "loopId s1 \<noteq> baseLoop (pool s1)" and bc: "bound_channel a ch1"
    and close: "handleClose removeConnection_io a s1 = Inr s2" and g: "carries a (channel c) g" and run: "g s2 = Inr s'"
  shows "closed_by a c s s'"
proof -
  obtain c1' where fr1: "frame a c c1' s s1" "conns s1 a = Some c1'" using gl by (auto simp: glides_def conn_at_def)
  with at have f1: "frame a c c1 s s1" "kept s s1" using gl by (auto simp: conn_at_def glides_def)
  then have cc: "channel c1 = channel c" and more: "net_state.more s1 = net_state.more s" by (simp_all add: frame_def)
  obtain t where t: "moves a c1 s1 t" "conn_at t a c1 (ch1\<lparr>events := 0\<rparr>)"
      "s2 = t\<lparr>posted := posted s1 @ [(baseLoop (pool s1), RemoveConnectionInLoop a)]\<rparr>"
    using close_run [OF at o l close] .
  have f2: "frame a c1 c1 s1 t" "kept s1 t" using t(1,2) by (auto simp: moves_def conn_at_def frame_def)
  have at2: "conn_at s2 a c1 (ch1\<lparr>events := 0\<rparr>)" using t(2,3) by simp
  have bc2: "bound_channel a (ch1\<lparr>events := 0\<rparr>)" using bc by (simp add: bound_channel_def)
  have r: "glides a c1 s2 s'" "\<exists>ch'. store s' (channel c) = Some ch' \<and> events ch' = 0"
    using g at2 cc bc2 run unfolding carries_def by force+
  obtain c' ch' where c': "conn_at s' a c' ch'" "frame a c1 c' s2 s'" "open_conn c1 \<Longrightarrow> open_conn c'" "kept s2 s'"
      "channel c' = channel c1" using r(1) by (rule glidesE) blast
  have ev: "events ch' = 0" using r(2) c'(1,5) cc by (auto simp: conn_at_def attached_def)
  have f3: "frame a c1 c' t (s'\<lparr>posted := posted t\<rparr>)" "posted s' = posted s1 @ [(baseLoop (pool s1), RemoveConnectionInLoop a)]"
    using frame_posted c'(2) unfolding t(3) by blast+
  have m: "posted t = posted s" "posted s1 = posted s" "pool s1 = pool s"
    using more_fields(4,7) [OF more] more_fields(7) [of t s1] f2(1) by (simp_all add: frame_def)
  have "frame a c c' s (s'\<lparr>posted := posted s\<rparr>)"
    using frame_trans [OF frame_trans [OF f1(1) f2(1)] f3(1)] m(1) by simp
  moreover have "kept s s'"
    using kept_trans [OF kept_trans [OF f1(2) f2(2)], of s'] c'(4) unfolding t(3) by (simp add: kept_def)
  ultimately show ?thesis using c'(1,3) o ev f3(2) m unfolding closed_by_def frame_but_posts_def by auto
qed

text \<open>The last parts of \<open>handleEvent\<close>: writing, reading, and errors, each with what follows it.\<close>

definition write_part :: "io_env \<Rightarrow> nat \<Rightarrow> server_state \<Rightarrow> server_state res" where
  "write_part E k = with_channel k (\<lambda>c ps. res_bind
     (if revents c AND POLLOUT \<noteq> 0 then run_opt (io_callback E) (writeCallback c) ps else Inr ps)
     (with_channel k (\<lambda>c ps. Inr (ps\<lparr>store := (store ps)(k \<mapsto> c\<lparr>eventHandling := False\<rparr>)\<rparr>))))"

definition error_part :: "io_env \<Rightarrow> nat \<Rightarrow> (server_state \<Rightarrow> server_state res) \<Rightarrow> server_state \<Rightarrow> server_state res" where
  "error_part E k g = with_channel k (\<lambda>c ps. res_bind
     (if revents c AND (POLLERR OR POLLNVAL) \<noteq> 0 then run_opt (io_callback E) (errorCallback c) ps else Inr ps) g)"

definition read_part :: "io_env \<Rightarrow> nat \<Rightarrow> server_state \<Rightarrow> server_state res" where
  "read_part E k = with_channel k (\<lambda>c ps. res_bind
     (if revents c AND (POLLIN OR POLLPRI OR POLLRDHUP) \<noteq> 0 then run_opt (io_callback E) (readCallback c) ps else Inr ps)
     (write_part E k))"

lemma carries_parts: "carries a k (write_part E k)" "carries a k g \<Longrightarrow> carries a k (error_part E k g)"
proof -
  have e: "io_callback E (ConnWrite a) = handleWrite (io_kernel E) a" "io_callback E (ConnError a) = handleError a"
    by (simp_all add: fun_eq_iff)
  show "carries a k (write_part E k)"
    unfolding write_part_def
    by (rule carries_stage [where cb = "Some (ConnWrite a)", OF carries_flag]) (auto simp: e carries_write bound_channel_def)
  show "carries a k (error_part E k g)" if "carries a k g"
    unfolding error_part_def
    by (rule carries_stage [where cb = "Some (ConnError a)", OF that]) (auto simp: e carries_error bound_channel_def)
qed

lemma read_part_outcome:
  assumes K: "reads_fit (io_kernel E)" and cb: "local_callback (io_message E)"
    and c: "conn_at s a c ch" "bound_channel a ch" "open_conn c" "loopId s \<noteq> baseLoop (pool s)"
    and run: "read_part E (channel c) s = Inr s'"
  shows "glides a c s s' \<or> closed_by a c s s'"
proof (cases "revents ch AND (POLLIN OR POLLPRI OR POLLRDHUP) \<noteq> 0")
  case False
  then have "write_part E (channel c) s = Inr s'" using run by (simp add: read_part_def conn_at_run(2) [OF c(1)])
  from carries_after [OF carries_parts(1) c(1) refl c(2) moves_glides [OF moves_refl [OF c(1)]] this] show ?thesis ..
next
  case True
  obtain s2 where s2: "TcpConnection_handleRead (io_kernel E) (io_message E) removeConnection_io a s = Inr s2"
      "write_part E (channel c) s2 = Inr s'"
    using run True c(2) by (auto simp: read_part_def conn_at_run(2) [OF c(1)] bound_channel_def run_opt_def)
  obtain s1 where s1: "moves a c s s1"
    and br: "io_message E a s1 = Inr s2 \<or> handleClose removeConnection_io a s1 = Inr s2 \<or> handleError a s1 = Inr s2"
    using handleRead_moves [OF K c(1) s2(1)] .
  note g1 = moves_glides [OF s1]
  obtain c1 ch1 where c1: "conn_at s1 a c1 ch1" "frame a c c1 s s1" "open_conn c1"
    using g1 c(3) by (metis glidesE)
  have b1: "bound_channel a ch1" using glides_bound [OF c(1,2) g1 c1(1)] .
  have "loopId s1 = loopId s" "net_state.more s1 = net_state.more s" using c1(2) by (simp_all add: frame_def)
  then have l1: "loopId s1 \<noteq> baseLoop (pool s1)" using c(4) more_fields(4) [of s1 s] by simp
  from br show ?thesis
  proof (elim disjE)
    assume "handleClose removeConnection_io a s1 = Inr s2"
    from closed_tail [OF g1 c1(1,3) l1 b1 this carries_parts(1) s2(2)] show ?thesis ..
  next
    assume "io_message E a s1 = Inr s2"
    then have "glides a c1 s1 s2" using cb c1(1) unfolding local_callback_def by blast
    then have "glides a c s s2" by (intro glides_trans [OF g1]) (use c1(1) in \<open>simp add: conn_at_def\<close>)
    from carries_after [OF carries_parts(1) c(1) refl c(2) this s2(2)] show ?thesis ..
  next
    assume "handleError a s1 = Inr s2"
    then have "glides a c1 s1 s2" by (intro moves_glides handleError_moves [OF c1(1)])
    then have "glides a c s s2" by (intro glides_trans [OF g1]) (use c1(1) in \<open>simp add: conn_at_def\<close>)
    from carries_after [OF carries_parts(1) c(1) refl c(2) this s2(2)] show ?thesis ..
  qed
qed

lemma error_part_run:
  assumes c: "conn_at s a c ch" "bound_channel a ch" and run: "error_part E (channel c) g s = Inr s'"
  obtains s1 where "g s1 = Inr s'" and "s1 = s \<or> handleError a s = Inr s1" and "store s1 = store s"
  using assms(3) c(2)
  by (auto simp: error_part_def conn_at_run [OF c(1)] bound_channel_def run_opt_def handleError_def split: if_splits)

lemma handleEvent_parts:
  "handleEvent (io_callback E) k s = with_channel k (\<lambda>c ps.
     res_bind (if revents c AND POLLHUP \<noteq> 0 \<and> revents c AND POLLIN = 0
               then run_opt (io_callback E) (closeCallback c) (ps\<lparr>store := (store ps)(k \<mapsto> c\<lparr>eventHandling := True\<rparr>)\<rparr>)
               else Inr (ps\<lparr>store := (store ps)(k \<mapsto> c\<lparr>eventHandling := True\<rparr>)\<rparr>))
       (error_part E k (read_part E k))) s"
  by (simp add: handleEvent_def error_part_def read_part_def write_part_def Let_def)

lemma hangup_outcome:
  assumes c: "conn_at s a c ch" "bound_channel a ch" "open_conn c" "loopId s \<noteq> baseLoop (pool s)"
    and gl: "glides a c0 s0 s" "channel c0 = channel c"
    and pl: "plausible (revents ch)" "revents ch AND POLLHUP \<noteq> 0" "revents ch AND POLLIN = 0"
    and run: "handleClose removeConnection_io a s = Inr s2" "error_part E (channel c) (read_part E (channel c)) s2 = Inr s'"
  shows "closed_by a c0 s0 s'"
proof -
  let ?k = "channel c" and ?W = "write_part E (channel c)"
  obtain t where t: "moves a c s t" "conn_at t a c (ch\<lparr>events := 0\<rparr>)"
      "s2 = t\<lparr>posted := posted s @ [(baseLoop (pool s), RemoveConnectionInLoop a)]\<rparr>"
    using close_run [OF c(1,3,4) run(1)] .
  have c2: "conn_at s2 a c (ch\<lparr>events := 0\<rparr>)" "bound_channel a (ch\<lparr>events := 0\<rparr>)"
    using t(2,3) c(2) by (simp_all add: bound_channel_def)
  obtain s3 where s3: "read_part E ?k s3 = Inr s'" "s3 = s2 \<or> handleError a s2 = Inr s3" "store s3 = store s2"
    using error_part_run [OF c2 run(2)] .
  have "store s3 ?k = Some (ch\<lparr>events := 0\<rparr>)" using c2(1) s3(3) by (simp add: conn_at_def attached_def)
  then have w: "?W s3 = Inr s'" using s3(1) pl by (simp add: read_part_def with_channel_def plausible_def)
  have cW: "carries a ?k ?W" "carries a ?k (\<lambda>s. res_bind (handleError a s) ?W)"
    by (intro carries_parts carries_seq carries_error)+
  note tail = closed_tail [OF gl(1) c(1,3,4,2) run(1), unfolded gl(2)]
  from s3(2) show ?thesis
  proof
    assume "s3 = s2"
    with w show ?thesis by (intro tail [OF cW(1)]) simp
  next
    assume "handleError a s2 = Inr s3"
    with w show ?thesis by (intro tail [OF cW(2)]) simp
  qed
qed

lemma closed_by_after:
  assumes gl: "glides a c0 s0 s" and at: "conn_at s a c ch" and cl: "closed_by a c s s'"
  shows "closed_by a c0 s0 s'"
proof -
  have fr: "frame a c0 c s0 s" "kept s0 s" using gl at by (auto simp: glides_def conn_at_def)
  have m: "net_state.more s = net_state.more s0" using fr(1) by (simp add: frame_def)
  note m = more_fields(4,7) [OF m]
  obtain c' ch' where c': "conn_at s' a c' ch'" "events ch' = 0" "open_conn c'" "frame_but_posts a c c' s s'"
      "posted s' = posted s @ [(baseLoop (pool s), RemoveConnectionInLoop a)]"
    using cl by (auto simp: closed_by_def)
  have "frame a c0 c' s0 (s'\<lparr>posted := posted s0\<rparr>)"
    using frame_trans [OF fr(1)] c'(4) m(2) by (simp add: frame_but_posts_def)
  moreover have "kept s0 s'" using kept_trans [OF fr(2)] c'(4) by (simp add: frame_but_posts_def)
  ultimately show ?thesis using c'(1-3,5) m unfolding closed_by_def frame_but_posts_def by auto
qed

lemma dispatch_outcome:
  assumes K: "reads_fit (io_kernel E)" and cb: "local_callback (io_message E)" and pl: "plausible revt"
    and c: "conn_at s a c ch" "bound_channel a ch" "open_conn c" "loopId s \<noteq> baseLoop (pool s)"
    and run: "dispatch E a revt s = Inr s'"
  shows "glides a c s s' \<or> closed_by a c s s'"
proof -
  let ?k = "channel c" and ?ch = "ch\<lparr>revents := revt, eventHandling := True\<rparr>"
  let ?s1 = "s\<lparr>store := (store s)(channel c \<mapsto> ch\<lparr>revents := revt, eventHandling := True\<rparr>)\<rparr>"
  have b: "same_binding ch ?ch" by (simp add: same_binding_def)
  have c1: "conn_at ?s1 a c ?ch" and gl: "glides a c s ?s1" by (rule put_glides [OF c(1) b]; simp)+
  have b1: "bound_channel a ?ch" using c(2) by (simp add: bound_channel_def)
  have st: "store s ?k = Some ch" using c(1) by (simp add: conn_at_def attached_def)
  obtain s2 where s2: "(if revt AND POLLHUP \<noteq> 0 \<and> revt AND POLLIN = 0 then handleClose removeConnection_io a ?s1 else Inr ?s1) = Inr s2"
      "error_part E ?k (read_part E ?k) s2 = Inr s'"
    using run c(2) st
    by (cases "revt AND POLLHUP \<noteq> 0 \<and> revt AND POLLIN = 0")
      (auto simp: dispatch_def conn_at_run [OF c(1)] handleEvent_parts with_channel_def bound_channel_def run_opt_def)
  show ?thesis
  proof (cases "revt AND POLLHUP \<noteq> 0 \<and> revt AND POLLIN = 0")
    case True
    then have "handleClose removeConnection_io a ?s1 = Inr s2" using s2(1) by simp
    from hangup_outcome [OF c1 b1 c(3) _ gl refl _ _ _ this s2(2)] c(4) pl True show ?thesis by simp
  next
    case False
    then have e: "error_part E ?k (read_part E ?k) ?s1 = Inr s'" using s2 by auto
    obtain s3 where s3: "read_part E ?k s3 = Inr s'" "s3 = ?s1 \<or> handleError a ?s1 = Inr s3"
      using error_part_run [OF c1 b1 e] .
    have g3: "glides a c ?s1 s3" using s3(2) moves_glides [OF moves_refl [OF c1]] moves_glides [OF handleError_moves [OF c1]] by blast
    have g: "glides a c s s3" by (rule glides_trans [OF gl]) (use g3 c1 in \<open>simp add: conn_at_def\<close>)
    obtain c3 ch3 where c3: "conn_at s3 a c3 ch3" "frame a c c3 s s3" "open_conn c3" "channel c3 = channel c"
      using g c(3) by (metis glidesE)
    have b3: "bound_channel a ch3" using glides_bound [OF c(1,2) g c3(1)] .
    have "loopId s3 = loopId s" "net_state.more s3 = net_state.more s" using c3(2) by (simp_all add: frame_def)
    then have l3: "loopId s3 \<noteq> baseLoop (pool s3)" using c(4) more_fields(4) [of s3 s] by simp
    from read_part_outcome [OF K cb c3(1) b3 c3(3) l3] s3(1) c3(4)
    have "glides a c3 s3 s' \<or> closed_by a c3 s3 s'" by simp
    then show ?thesis
      using glides_trans [OF g, of s'] closed_by_after [OF g c3(1)] c3(1) by (auto simp: conn_at_def)
  qed
qed

lemma queued_frame:
  assumes fr: "frame_but_posts a c c' (focus l M) s" and m1: "slices M1 = slices M"
  obtains fs where "\<forall>f \<in> set fs. f = WriteComplete a"
    and "\<forall>j. queued j (after l s M1) = taken M1 j @ pendingFunctors (slices M j) @ (if j = l then fs else []) @ mail_for j s"
proof -
  obtain fs where "pendingFunctors s = pendingFunctors (slices M l) @ fs" "\<forall>f \<in> set fs. f = WriteComplete a"
    using frame_but_postsD(9) [OF fr] by auto
  then show thesis by (intro that [of fs]) (simp_all add: queued_after m1)
qed

lemma count_done: "\<forall>f \<in> set fs. f = WriteComplete a \<Longrightarrow> g \<noteq> WriteComplete a \<Longrightarrow> count_list fs g = 0"
  by (induction fs) auto

lemma live_at:
  assumes inv: "life_inv M" and c: "conns (common M) a = Some c"
    and at: "attached (slices M (conn_loop c)) (channel c) ch" "events ch \<noteq> 0"
  shows "in_phase M a c Live" and "conn_at (focus (conn_loop c) M) a c ch" and "bound_channel a ch"
proof -
  have st: "store (slices M (conn_loop c)) (channel c) = Some ch" "channels (slices M (conn_loop c)) (fd ch) = Some (channel c)"
    using at(1) by (simp_all add: attached_def)
  obtain p where p: "in_phase M a c p" using life_invD(12) [OF inv c] by blast
  have same: "ch2 = ch" if "watched_as M a c ch2" for ch2
    using that st(1) by (simp add: watched_as_def conn_at_def attached_def)
  show live: "in_phase M a c Live"
  proof (cases p)
    case Embryo
    with p st show ?thesis by (auto simp: unborn_def)
  next
    case Gone
    with p st show ?thesis by auto
  next
    case Leaving
    with p same at(2) show ?thesis by auto
  next
    case Doomed
    with p same at(2) show ?thesis by auto
  next
    case Live
    with p show ?thesis by simp
  qed
  with same show "conn_at (focus (conn_loop c) M) a c ch" "bound_channel a ch" by (auto simp: watched_as_def)
qed

lemma glides_posted:
  fixes s s' :: server_state
  assumes "glides a c s s'"
  obtains c' ch' where "conn_at s' a c' ch'" "frame_but_posts a c c' s s'" "open_conn c \<longrightarrow> open_conn c'" "posted s' = posted s"
proof -
  obtain c' ch' where c': "conn_at s' a c' ch'" "frame a c c' s s'" "open_conn c \<Longrightarrow> open_conn c'" "kept s s'"
    using assms by (rule glidesE) blast
  have m: "net_state.more s' = net_state.more s" using c'(2) by (simp add: frame_def)
  have p: "posted s' = posted s" using more_fields(7) [OF m] .
  then have e: "s'\<lparr>posted := posted s\<rparr> = s'" by (cases s') simp
  have "frame_but_posts a c c' s s'" unfolding frame_but_posts_def e using c'(2,4) by simp
  with c' p show thesis by (intro that [of c' ch']) simp_all
qed

text \<open>A live connection stays live, or leaves when its step has silenced it and posted its removal.\<close>

lemma live_step:
  assumes inv: "life_inv M" and c: "conns (common M) a = Some c" and live: "in_phase M a c Live"
    and fr: "frame_but_posts a c c' (focus (conn_loop c) M) s" and at: "conn_at s a c' ch'" "bound_channel a ch'"
    and o: "open_conn c'" and po: "posted s = [] \<or> posted s = [(base_of M, RemoveConnectionInLoop a)] \<and> events ch' = 0"
  shows "life_inv (after (conn_loop c) s M)"
    and "in_phase (after (conn_loop c) s M) a c' (if posted s = [] then Live else Leaving)"
proof -
  let ?l = "conn_loop c" and ?M' = "after (conn_loop c) s M"
  note i = life_invD [OF inv] and f = frame_but_postsD [OF fr]
  have nb: "?l \<noteq> base_of M" by (rule i(11) [OF c])
  have own: "owns ?l s" by (rule owns_kept [OF f(1,5)]) (use i(6) [of ?l] in \<open>simp add: owns_def\<close>)
  have cl: "conn_loop c' = ?l" using at(1) f(3) i(5) by (simp add: conn_at_def)
  have w: "watched_as ?M' a c' ch'" using at cl by (simp add: watched_as_def conn_at_after [OF own])
  obtain fs where fs: "\<forall>f \<in> set fs. f = WriteComplete a"
      "\<forall>j. queued j ?M' = taken M j @ pendingFunctors (slices M j) @ (if j = ?l then fs else []) @ mail_for j s"
    using queued_frame [OF fr refl] .
  have q: "queued ?l ?M' = queued ?l M @ fs @ mail_for ?l s"
    "queued (base_of M) ?M' = queued (base_of M) M @ mail_for (base_of M) s"
    using fs(2) nb by (simp_all add: queued_def [of _ M])
  have "mail_for ?l s = []" "mail_for (base_of M) s = (if posted s = [] then [] else [RemoveConnectionInLoop a])"
    using po nb by (auto simp: mail_for_def)
  then have "notices ?M' ?l a = (0, if posted s = [] then 0 else 1, 0)"
    using live f(13) by (simp add: notices_def q count_done [OF fs(1)])
  moreover have "in_map ?M' a = in_map M a" using f(10) by (simp add: in_map_def)
  ultimately show ph: "in_phase ?M' a c' (if posted s = [] then Live else Leaving)"
    using w o cl live po by auto
  show "life_inv ?M'"
    by (rule conn_step [OF inv c refl refl refl _ _ fr at(1) _ _ ph]) (use live po in auto)
qed

lemma dispatch_inv:
  assumes inv: "life_inv M" and K: "reads_fit (io_kernel E)" and cb: "local_callback (io_message E)"
    and pos: "possible (Dispatch a revt) M" and run: "perform E (Dispatch a revt) M = Inr M'"
  shows "life_inv M'"
proof -
  obtain c ch where c: "conns (common M) a = Some c" "plausible revt"
      "attached (slices M (conn_loop c)) (channel c) ch" "events ch \<noteq> 0" using pos by auto
  let ?l = "conn_loop c"
  obtain s where s: "dispatch E a revt (focus ?l M) = Inr s" and M': "M' = after ?l s M"
    using run c(1) by (auto simp: in_thread_after)
  note i = life_invD [OF inv] and live = live_at [OF inv c(1,3,4)]
  have oc: "open_conn c" using live(1) by simp
  have nb: "?l \<noteq> base_of M" by (rule i(11) [OF c(1)])
  have out: "glides a c (focus ?l M) s \<or> closed_by a c (focus ?l M) s"
    by (rule dispatch_outcome [OF K cb c(2) live(2,3) oc _ s]) (use nb i(5) in simp)
  have "\<exists>c' ch'. conn_at s a c' ch' \<and> frame_but_posts a c c' (focus ?l M) s \<and> open_conn c'
      \<and> (posted s = [] \<or> posted s = [(base_of M, RemoveConnectionInLoop a)] \<and> events ch' = 0)"
    using out
  proof
    assume "glides a c (focus ?l M) s"
    then obtain c' ch' where "conn_at s a c' ch'" "frame_but_posts a c c' (focus ?l M) s" "open_conn c \<longrightarrow> open_conn c'"
        "posted s = posted (focus ?l M)" by (rule glides_posted)
    with oc i(8) show ?thesis by auto
  next
    assume "closed_by a c (focus ?l M) s"
    then show ?thesis using i(8) by (auto simp: closed_by_def)
  qed
  then obtain c' ch' where c': "conn_at s a c' ch'" "frame_but_posts a c c' (focus ?l M) s" "open_conn c'"
      "posted s = [] \<or> posted s = [(base_of M, RemoveConnectionInLoop a)] \<and> events ch' = 0" by blast
  have "store s (channel c) = Some ch'" using c'(1) frame_but_postsD(7) [OF c'(2)] by (simp add: conn_at_def attached_def)
  moreover have "store (focus ?l M) (channel c) = Some ch" using c(3) by (simp add: attached_def)
  ultimately have "same_binding ch ch'"
    using frame_but_postsD(1) [OF c'(2)] by (metis keptD option.inject)
  then have "bound_channel a ch'" using live(3) by (simp add: bound_channel_kept)
  from live_step(1) [OF inv c(1) live(1) c'(2,1) this c'(3,4)] show ?thesis using M' by simp
qed

end
