(* ===== verification/Io_Run.thy ===== *)
theory Io_Run
  imports Io_Life
begin

section \<open>Running a server with several loop threads\<close>

text \<open>
  The functors keep the invariant of the theory \<open>Io_Life\<close>: opening a connection, taking it out of
  the map, destroying it; and the two removing ones always succeed.  At the end, what
  \<open>newConnection\<close> leaves when the connection goes to another loop.
\<close>

subsection \<open>Running one functor\<close>

text \<open>The machine after loop \<open>l\<close> has taken the first functor out of its vector and run it.\<close>

lemma pop_mail:
  assumes t: "taken M l = f # fs" "about f = Some a" and p: "pendingFunctors s = pendingFunctors (slices M l) @ ws"
      "\<forall>g \<in> set ws. g = WriteComplete a"
    and po: "\<forall>q \<in> set (posted s). about (snd q) = Some a" and pl: "pool s = pool (common M)"
  defines "M' \<equiv> after l s (M\<lparr>taken := (taken M)(l := fs)\<rparr>)"
  shows "queued j M' = (if j = l then fs else taken M j) @ pendingFunctors (slices M j) @ (if j = l then ws else []) @ mail_for j s"
    and "same_mail a M M'"
    and "g \<in> set (queued j M') \<Longrightarrow> g \<in> set (queued j M) \<or> j = l \<and> g \<in> set ws \<or> (j, g) \<in> set (posted s)"
proof -
  show q: "queued j M' = (if j = l then fs else taken M j) @ pendingFunctors (slices M j) @ (if j = l then ws else []) @ mail_for j s" for j
    by (simp add: M'_def queued_after p(1))
  have "filter (\<lambda>g. about g \<noteq> Some a) (mail_for j s) = []" for j
    using po by (auto simp: mail_for_def filter_empty_conv)
  moreover have "filter (\<lambda>g. about g \<noteq> Some a) ws = []" using p(2) by (auto simp: filter_empty_conv)
  ultimately show "same_mail a M M'"
    using t pl by (simp add: same_mail_def q queued_def [of _ M]) (simp add: M'_def)
  show "g \<in> set (queued j M') \<Longrightarrow> g \<in> set (queued j M) \<or> j = l \<and> g \<in> set ws \<or> (j, g) \<in> set (posted s)"
    using t(1) by (auto simp: q queued_def [of _ M] mail_for_def split: if_splits)
qed

definition stands :: "machine \<Rightarrow> nat \<Rightarrow> phase \<Rightarrow> bool" where
  "stands M a p \<longleftrightarrow> (\<exists>c. conns (common M) a = Some c \<and> in_phase M a c p)"

text \<open>The phase of the connection whose functor is next.\<close>

lemma next_phase:
  assumes inv: "life_inv M" and c: "conns (common M) a = Some c" and f: "f \<in> set (queued l M)"
  shows "f = ConnectEstablished a \<Longrightarrow> l = conn_loop c \<Longrightarrow> in_phase M a c Embryo"
    and "f = RemoveConnectionInLoop a \<Longrightarrow> l = base_of M \<Longrightarrow> in_phase M a c Leaving"
    and "f = ConnectDestroyed a \<Longrightarrow> l = conn_loop c \<Longrightarrow> in_phase M a c Doomed"
proof -
  obtain p where p: "in_phase M a c p" using life_invD(12) [OF inv c] by blast
  have n: "0 < count_list (queued l M) f" using f count_list_0_iff [of "queued l M" f] by simp
  show "f = ConnectEstablished a \<Longrightarrow> l = conn_loop c \<Longrightarrow> in_phase M a c Embryo"
    "f = RemoveConnectionInLoop a \<Longrightarrow> l = base_of M \<Longrightarrow> in_phase M a c Leaving"
    "f = ConnectDestroyed a \<Longrightarrow> l = conn_loop c \<Longrightarrow> in_phase M a c Doomed"
    using p n by (cases p; simp add: notices_def)+
qed

lemma spares_same:
  assumes "store s' = store s" "pollfds s' = pollfds s" "channels s' = channels s" "loopId s' = loopId s" "conns s' = conns s"
  shows "spares a s s'"
proof -
  have "conn_at s' = conn_at s" by (intro ext conn_at_cong) (simp_all add: assms)
  moreover have "\<exists>i. conn_at s b c (ch\<lparr>index := i\<rparr>)" if "conn_at s b c ch" for b c ch
    by (rule exI [of _ "index ch"]) (simp add: that)
  ultimately show ?thesis using assms by (simp add: spares_def kept_kept_at kept_same)
qed

lemma erase_one:
  assumes nm: "names_ok (common M)" and c: "conns (common M) a = Some c" and "in_map M a"
  defines "m \<equiv> filter (\<lambda>p. fst p \<noteq> conn_name c) (connections (common M))"
  shows "map_erase (conn_name c) (connections (common M)) = (1, m)" and "b \<in> snd ` set m \<longleftrightarrow> b \<noteq> a \<and> in_map M b"
    and "sorted_wrt (<) (map fst m)"
proof -
  note n = names_okD [OF nm]
  have "(k, b') \<in> set (connections (common M)) \<Longrightarrow> k \<noteq> conn_name c \<longleftrightarrow> b' \<noteq> a" for k b'
    using n(3) [of k b'] n(5) [OF _ c, of b'] c by (cases "b' = a") auto
  then show "b \<in> snd ` set m \<longleftrightarrow> b \<noteq> a \<and> in_map M b" by (force simp: in_map_def m_def)
  have "conn_name c \<in> fst ` set (connections (common M))" using assms(3) n(3) c by (force simp: in_map_def)
  then show er: "map_erase (conn_name c) (connections (common M)) = (1, m)"
    using map_erase_count [OF sorted_keys_distinct [OF n(2)], of "conn_name c"] by (simp add: map_erase_def m_def)
  show "sorted_wrt (<) (map fst m)" using map_erase_sorted [OF n(2)] by (simp add: map_erase_def m_def)
qed

lemma remove_inv:
  assumes inv: "life_inv M" and t: "taken M (base_of M) = RemoveConnectionInLoop a # fs"
  shows "\<exists>s. removeConnectionInLoop a (focus (base_of M) M) = Inr s
    \<and> life_inv (after (base_of M) (s\<lparr>callingPendingFunctors := b\<rparr>) (M\<lparr>taken := (taken M)(base_of M := fs)\<rparr>))
    \<and> stands (after (base_of M) (s\<lparr>callingPendingFunctors := b\<rparr>) (M\<lparr>taken := (taken M)(base_of M := fs)\<rparr>)) a Doomed"
proof -
  let ?l = "base_of M"
  note i = life_invD [OF inv]
  have fq: "RemoveConnectionInLoop a \<in> set (queued ?l M)" using t by (simp add: queued_def)
  obtain c where c: "conns (common M) a = Some c" using i(9) [OF fq] by auto
  have ph: "in_phase M a c Leaving" by (rule next_phase(2) [OF inv c fq]) simp_all
  let ?m = "filter (\<lambda>p. fst p \<noteq> conn_name c) (connections (common M))"
  have "in_map M a" using ph by simp
  note er = erase_one(1) [OF i(7) c this] and mem = erase_one(2) [OF i(7) c this] and srt = erase_one(3) [OF i(7) c this]
  have nb: "conn_loop c \<noteq> ?l" by (rule i(11) [OF c])
  define s where "s = (focus ?l M)\<lparr>connections := ?m, posted := [(conn_loop c, ConnectDestroyed a)]\<rparr>"
  let ?s = "s\<lparr>callingPendingFunctors := b\<rparr>"
  let ?M' = "after ?l ?s (M\<lparr>taken := (taken M)(?l := fs)\<rparr>)"
  have run: "removeConnectionInLoop a (focus ?l M) = Inr s"
    using c nb i(5,8) er by (simp add: removeConnectionInLoop_def with_conn_def queue_in_def s_def)
  have f: "store ?s = store (slices M ?l)" "pollfds ?s = pollfds (slices M ?l)" "channels ?s = channels (slices M ?l)"
    "loopId ?s = ?l" "conns ?s = conns (common M)" "pendingFunctors ?s = pendingFunctors (slices M ?l)"
    "connections ?s = ?m" "posted ?s = [(conn_loop c, ConnectDestroyed a)]" "pool ?s = pool (common M)"
    "nextConnId ?s = nextConnId (common M)" "server_name ?s = server_name (common M)"
    using i(5) by (simp_all add: s_def)
  have own: "owns ?l ?s" using i(6) [of ?l] by (simp add: owns_def f(1))
  have q: "queued j ?M' = (if j = ?l then fs else taken M j) @ pendingFunctors (slices M j) @ mail_for j ?s" for j
    using pop_mail(1) [OF t, of a ?s "[]" j] f(6,8,9) by simp
  have sm: "same_mail a M ?M'" using pop_mail(2) [OF t, of a ?s "[]"] f(6,8,9) by simp
  have "notices ?M' (conn_loop c) a = (0, 0, 1)"
    using ph nb t f(8,9) by (simp add: notices_def q queued_def [of _ M] mail_for_def)
  moreover have "\<not> in_map ?M' a" using mem [of a] by (simp add: in_map_def f(7))
  moreover have "conn_at (focus (conn_loop c) ?M') a c ch = conn_at (focus (conn_loop c) M) a c ch" for ch
    using nb by (simp add: conn_at_after [OF own] f(5)) (rule conn_at_cong; simp)
  ultimately have ph': "in_phase ?M' a c Doomed" using ph by (simp add: watched_as_def)
  have "life_inv ?M'"
  proof (rule step_inv [OF inv c _ _ _ own _ f(4) f(9-11) _ _ _ _ _ _ sm ph'])
    show "spares a (focus ?l M) ?s"
      by (rule spares_same) (simp_all add: f i(5))
    show "poll_wf ?s" using i(4) [of ?l] poll_cong(1) [OF f(1-3)] by simp
    show "conns ?s a = Some c" "same_id c c" using c by (simp_all add: f(5) same_id_def)
    show "sorted_wrt (<) (map fst (connections ?s))" unfolding f(7) by (rule srt)
    show "set (connections ?s) \<subseteq> set (connections (common M))" unfolding f(7) by auto
    show "b' \<in> snd ` set (connections ?s) \<longleftrightarrow> in_map M b'" if "b' \<noteq> a" for b' unfolding f(7) using mem that by simp
    show "g \<in> set (queued j M) \<or> addressed M j g" if "g \<in> set (queued j ?M')" for j g
      using pop_mail(3) [OF t, of a ?s "[]" g j] that f(6,8,9) c by auto
  qed simp_all
  moreover have "stands ?M' a Doomed" unfolding stands_def using ph' c f(5) by (intro exI [of _ c] conjI) simp_all
  ultimately show ?thesis using run by blast
qed

lemma destroyed_spares:
  assumes nm: "names_ok (common M)" and c: "conns (common M) a = Some c"
    and k: "kept (focus l M) s" "channels s = (channels (focus l M))(f := None)"
    and cs: "conns s = (conns (common M))(a \<mapsto> c')"
    and at: "\<forall>b c2 ch2. b \<noteq> a \<longrightarrow> channel c2 \<noteq> channel c \<longrightarrow> conn_at (focus l M) b c2 ch2 \<longrightarrow>
         (\<exists>i. conn_at s b c2 (ch2\<lparr>index := i\<rparr>))"
  shows "spares a (focus l M) (s\<lparr>callingPendingFunctors := x\<rparr>)"
proof -
  have "channel d \<noteq> channel c" if "b \<noteq> a" "conns (common M) b = Some d" for b d
    using names_okD(5) [OF nm that(2) c that(1)] by simp
  with k at cs have "spares a (focus l M) s" unfolding spares_def by (simp add: kept_kept_at)
  moreover have "spares a s (s\<lparr>callingPendingFunctors := x\<rparr>)" by (rule spares_same) simp_all
  ultimately show ?thesis by (rule spares_trans)
qed

lemma destroy_inv:
  assumes inv: "life_inv M" and t: "taken M l = ConnectDestroyed a # fs" and cb: "quiet_when_down cb"
  shows "\<exists>s. connectDestroyed cb a (focus l M) = Inr s
    \<and> life_inv (after l (s\<lparr>callingPendingFunctors := b\<rparr>) (M\<lparr>taken := (taken M)(l := fs)\<rparr>))
    \<and> stands (after l (s\<lparr>callingPendingFunctors := b\<rparr>) (M\<lparr>taken := (taken M)(l := fs)\<rparr>)) a Gone"
proof -
  note i = life_invD [OF inv]
  have fq: "ConnectDestroyed a \<in> set (queued l M)" using t by (simp add: queued_def)
  obtain c where c: "conns (common M) a = Some c" "conn_loop c = l" using i(9) [OF fq] by auto
  have ph: "in_phase M a c Doomed" by (rule next_phase(3) [OF inv c(1) fq]) (simp_all add: c(2))
  then obtain ch where ch: "conn_at (focus l M) a c ch" and oc: "open_conn c" using c(2) by (auto simp: watched_as_def)
  obtain s where r: "connectDestroyed cb a (focus l M) = Inr s" "poll_wf s" "channels s (fd ch) \<noteq> Some (channel c)"
      "conns s = (conns (focus l M))(a \<mapsto> c\<lparr>state := kDisconnected\<rparr>)"
      "net_state.more s = net_state.more (focus l M)" "loopId s = loopId (focus l M)"
      "pendingFunctors s = pendingFunctors (focus l M)" "wire s = wire (focus l M)"
      "callingPendingFunctors s = callingPendingFunctors (focus l M)"
      "\<forall>b c2 ch2. b \<noteq> a \<longrightarrow> channel c2 \<noteq> channel c \<longrightarrow> conn_at (focus l M) b c2 ch2 \<longrightarrow>
         (\<exists>i. conn_at s b c2 (ch2\<lparr>index := i\<rparr>))"
    using connectDestroyed_run [OF ch oc cb] .
  note s = r(1,2) r(4) [unfolded focus_simps] r(5) [unfolded focus_simps] r(6) [unfolded focus_simps i(5)]
    r(7) [unfolded focus_simps] r(10)
  note d = destroyed_channels(1,2,5) [OF ch cb s(1)]
  let ?s = "s\<lparr>callingPendingFunctors := b\<rparr>" and ?c = "c\<lparr>state := kDisconnected\<rparr>"
  let ?M' = "after l ?s (M\<lparr>taken := (taken M)(l := fs)\<rparr>)"
  have m: "connections ?s = connections (common M)" "nextConnId ?s = nextConnId (common M)"
    "server_name ?s = server_name (common M)" "pool ?s = pool (common M)" "posted ?s = []"
    using more_fields [OF s(4)] i(8) by simp_all
  have "owns l s" by (rule owns_kept [OF d(1,3)]) (use i(6) [of l] in \<open>simp add: owns_def\<close>)
  then have own: "owns l ?s" by (simp add: owns_def)
  have sp: "spares a (focus l M) ?s" by (rule destroyed_spares [OF i(7) c(1) d(1,2) s(3,7)])
  have q: "queued j ?M' = (if j = l then fs else taken M j) @ pendingFunctors (slices M j)" for j
    using pop_mail(1) [OF t, of a ?s "[]" j] s(6) m(4,5) by (simp add: mail_for_def)
  have sm: "same_mail a M ?M'" using pop_mail(2) [OF t, of a ?s "[]"] s(6) m(4,5) by simp
  have "l \<noteq> base_of M" using i(11) [OF c(1)] c(2) by simp
  then have "notices ?M' l a = (0, 0, 0)"
    using ph c(2) t m(4) by (simp add: notices_def q queued_def [of _ M])
  moreover have "store (focus l M) (channel c) = Some ch" using ch by (simp add: conn_at_def attached_def)
  then obtain ch' where "store s (channel c) = Some ch'" "same_binding ch ch'" by (rule keptD [OF d(1)]) blast
  then have "\<exists>ch. store (slices ?M' l) (channel c) = Some ch \<and> fd ch = socket c"
    using ch by (auto simp: after_store [OF own] same_binding_def conn_at_def)
  ultimately have ph': "in_phase ?M' a ?c Gone" using ph c(2) d(2) m(1) by (simp add: in_map_def)
  have "life_inv ?M'"
  proof (rule step_inv [OF inv c(1) _ _ sp own _ _ m(4,2,3) _ _ _ _ _ _ sm ph'])
    show "poll_wf ?s" using s(2) poll_cong(1) [of ?s s] by simp
    show "loopId ?s = l" "conns ?s a = Some ?c" "same_id c ?c" using s(3,5) by (simp_all add: same_id_def)
    show "sorted_wrt (<) (map fst (connections ?s))" "set (connections ?s) \<subseteq> set (connections (common M))"
      unfolding m(1) using names_okD(2) [OF i(7)] by simp_all
    show "b' \<in> snd ` set (connections ?s) \<longleftrightarrow> in_map M b'" for b' unfolding m(1) in_map_def ..
    show "g \<in> set (queued j M) \<or> addressed M j g" if "g \<in> set (queued j ?M')" for j g
      using pop_mail(3) [OF t, of a ?s "[]" g j] that s(6) m(4,5) by auto
  qed simp_all
  moreover have "stands ?M' a Gone" unfolding stands_def using ph' s(3) by (intro exI [of _ ?c] conjI) simp_all
  ultimately show ?thesis using s(1) by blast
qed

text \<open>Opening a connection: its channel goes into the poller of its loop, then the connection callback runs.\<close>

lemma established_run:
  fixes s :: server_state
  assumes c: "conns s a = Some c" "state c = kConnecting" "conn_loop c = loopId s" "unborn s a c" and wf: "poll_wf s"
    and others: "\<forall>b d. b \<noteq> a \<longrightarrow> conns s b = Some d \<longrightarrow> channel d \<noteq> channel c
        \<and> (state d \<noteq> kDisconnected \<longrightarrow> socket d \<noteq> socket c)"
  obtains s1 ch1 where "connectEstablished cb a s = cb a s1" and "conn_at s1 a (c\<lparr>state := kConnected\<rparr>) ch1"
    and "bound_channel a ch1" and "spares a s s1" and "net_state.more s1 = net_state.more s"
    and "pendingFunctors s1 = pendingFunctors s" and "loopId s1 = loopId s"
    and "conns s1 = (conns s)(a \<mapsto> c\<lparr>state := kConnected\<rparr>)" and "owns (loopId s) s \<longrightarrow> owns (loopId s) s1"
proof -
  have nm: "channel d \<noteq> channel c \<and> (state d \<noteq> kDisconnected \<longrightarrow> socket d \<noteq> socket c)"
    if "b \<noteq> a" "conns s b = Some d" for b d using others that by blast
  obtain ch where ch: "store s (channel c) = Some ch" "bound_channel a ch" "fd ch = socket c" "loopOf ch = conn_loop c" "index ch < 0"
    and free: "channels s (socket c) = None" "0 \<le> socket c" "buf_wf (inputBuffer c)" "buf_wf (outputBuffer c)"
    using c(4) by (auto simp: unborn_def)
  let ?c = "c\<lparr>state := kConnected\<rparr>" and ?k = "channel c"
  let ?s0 = "set_conn a ?c s"
  let ?ch = "ch\<lparr>events := events ch OR kReadEvent, index := int (length (pollfds s))\<rparr>"
  have wf0: "poll_wf ?s0" using wf poll_cong(1) [of ?s0 s] by (simp add: set_conn_def)
  obtain s1 where s1: "enableReading ?k ?s0 = Inr s1" "poll_wf s1"
      "s1 = ?s0\<lparr>pollfds := pollfds ?s0 @ [\<lparr>pfd_fd = fd ch, pfd_events = ucast (events ch OR kReadEvent), pfd_revents = 0\<rparr>],
        store := (store ?s0)(?k \<mapsto> ?ch), channels := (channels ?s0)(fd ch \<mapsto> ?k)\<rparr>"
    using setEvents_new [OF wf0, of ?k ch "\<lambda>c. events c OR kReadEvent"] ch c(3) free
    by (auto simp: enableReading_def set_conn_def)
  have f: "store s1 = (store s)(?k \<mapsto> ?ch)" "channels s1 = (channels s)(socket c \<mapsto> ?k)"
    "conns s1 = (conns s)(a \<mapsto> ?c)" "loopId s1 = loopId s" "net_state.more s1 = net_state.more s"
    "pendingFunctors s1 = pendingFunctors s"
    unfolding s1(3) using ch(3) by (simp_all add: set_conn_def)
  have run: "connectEstablished cb a s = cb a s1"
    using c(1,2) s1(1) by (simp add: connectEstablished_def with_conn_def)
  have at: "conn_at s1 a ?c ?ch"
    using s1(2) f ch(3,4) c(3) free by (simp add: conn_at_def attached_def)
  have "conn_at s1 b d ch2" if b: "b \<noteq> a" "conns s b = Some d" "conn_at s b d ch2" for b d ch2
  proof -
    have "fd ch2 \<noteq> socket c" using b(3) free(1) by (auto simp: conn_at_def attached_def)
    then show ?thesis using b nm [OF b(1,2)] f s1(2) unfolding conn_at_def attached_def by auto
  qed
  then have ex: "\<exists>i. conn_at s1 b d (ch2\<lparr>index := i\<rparr>)" if "b \<noteq> a" "conns s b = Some d" "conn_at s b d ch2" for b d ch2
    using that by (intro exI [of _ "index ch2"]) simp
  have "kept_at (channel d) s s1" if "b \<noteq> a" "conns s b = Some d" for b d
    using nm [OF that] by (simp add: kept_at_def f(1))
  moreover have "channels s1 (socket d) \<noteq> Some (channel d)
      \<and> (state d \<noteq> kDisconnected \<longrightarrow> channels s (socket d) = None \<longrightarrow> channels s1 (socket d) = None)"
    if "b \<noteq> a" "conns s b = Some d" "channels s (socket d) \<noteq> Some (channel d)" for b d
    using nm [OF that(1,2)] that(3) by (simp add: f(2))
  ultimately have "spares a s s1" using ex unfolding spares_def by (simp add: f(3))
  moreover have "owns (loopId s) s1" if "owns (loopId s) s" using that ch(1) by (auto simp: owns_def f(1))
  ultimately show thesis using that [OF run at] ch(2) f by (simp add: bound_channel_def)
qed

lemma established_glides:
  assumes inv: "life_inv M" and c: "conns (common M) a = Some c" "conn_loop c = l" and ph: "in_phase M a c Embryo"
    and cb: "local_callback cb" and run: "connectEstablished cb a (focus l M) = Inr s"
  obtains c' ch' ws where "conn_at s a c' ch'" and "bound_channel a ch'" and "open_conn c'" and "same_id c c'"
    and "conns s a = Some c'" and "spares a (focus l M) s" and "owns l s" and "loopId s = l"
    and "pendingFunctors s = pendingFunctors (slices M l) @ ws" and "\<forall>g \<in> set ws. g = WriteComplete a"
    and "connections s = connections (common M)" and "nextConnId s = nextConnId (common M)"
    and "server_name s = server_name (common M)" and "pool s = pool (common M)" and "posted s = []"
proof -
  note i = life_invD [OF inv]
  let ?c1 = "c\<lparr>state := kConnected\<rparr>"
  have f: "conns (focus l M) a = Some c" "state c = kConnecting" "conn_loop c = loopId (focus l M)"
      "unborn (focus l M) a c" "poll_wf (focus l M)"
      "\<forall>b d. b \<noteq> a \<longrightarrow> conns (focus l M) b = Some d \<longrightarrow> channel d \<noteq> channel c
        \<and> (state d \<noteq> kDisconnected \<longrightarrow> socket d \<noteq> socket c)"
    using c ph i(4,5) [of l] poll_cong(1) [of "focus l M" "slices M l"] names_okD(5) [OF i(7) _ c(1)] by auto
  obtain s1 ch1 where s1: "connectEstablished cb a (focus l M) = cb a s1" "conn_at s1 a ?c1 ch1" "bound_channel a ch1"
      "spares a (focus l M) s1" "net_state.more s1 = net_state.more (focus l M)"
      "pendingFunctors s1 = pendingFunctors (focus l M)" "loopId s1 = loopId (focus l M)"
      "conns s1 = (conns (focus l M))(a \<mapsto> ?c1)" "owns (loopId (focus l M)) (focus l M) \<longrightarrow> owns (loopId (focus l M)) s1"
    using established_run [OF f] .
  have gl: "glides a ?c1 s1 s" using cb run s1(1,2) unfolding local_callback_def by metis
  obtain c' ch' where c': "conn_at s a c' ch'" "frame_but_posts a ?c1 c' s1 s" "open_conn ?c1 \<longrightarrow> open_conn c'"
      "posted s = posted s1" using gl by (rule glides_posted)
  note g = frame_but_postsD [OF c'(2)] and b' = glides_bound [OF s1(2,3) gl c'(1)]
  obtain ws where ws: "pendingFunctors s = pendingFunctors (slices M l) @ ws" "\<forall>g \<in> set ws. g = WriteComplete a"
    using g(9) s1(6) by auto
  have "owns l s1" using s1(9) i(5,6) [of l] by (simp add: owns_def)
  then have own: "owns l s" by (rule owns_kept [OF g(1,5)])
  have "spares a s1 s" by (rule spares_frame [OF _ c'(2)]) (use f(6) s1(8) in auto)
  then have sp: "spares a (focus l M) s" using spares_trans s1(4) by blast
  have lid: "loopId s = l" using g(3) s1(7) i(5) by simp
  then have "conn_loop c' = l" using c'(1) by (simp add: conn_at_def)
  then have id: "same_id c c'" using g(6-8) c(2) ph by (simp add: same_id_def)
  show thesis
    by (rule that [OF c'(1) b' _ id _ sp own lid ws])
      (use g(2,10-13) c'(3,4) more_fields [OF s1(5)] i(8) in simp_all)
qed

lemma establish_inv:
  assumes inv: "life_inv M" and t: "taken M l = ConnectEstablished a # fs" and cb: "local_callback cb"
    and run: "connectEstablished cb a (focus l M) = Inr s"
  shows "life_inv (after l (s\<lparr>callingPendingFunctors := b\<rparr>) (M\<lparr>taken := (taken M)(l := fs)\<rparr>))" (is "life_inv ?M'")
proof -
  let ?s = "s\<lparr>callingPendingFunctors := b\<rparr>"
  note i = life_invD [OF inv]
  have fq: "ConnectEstablished a \<in> set (queued l M)" using t by (simp add: queued_def)
  obtain c where c: "conns (common M) a = Some c" "conn_loop c = l" using i(9) [OF fq] by auto
  have ph: "in_phase M a c Embryo" by (rule next_phase(1) [OF inv c(1) fq]) (simp_all add: c(2))
  obtain c' ch' ws where c': "conn_at s a c' ch'" "bound_channel a ch'" "open_conn c'" "same_id c c'" "conns s a = Some c'"
      "spares a (focus l M) s" "owns l s" "loopId s = l"
    and ws: "pendingFunctors s = pendingFunctors (slices M l) @ ws" "\<forall>g \<in> set ws. g = WriteComplete a"
    and more: "connections s = connections (common M)" "nextConnId s = nextConnId (common M)"
      "server_name s = server_name (common M)" "pool s = pool (common M)" "posted s = []"
    using established_glides [OF inv c ph cb run] .
  note pm = pop_mail [OF t, of a ?s ws]
  have own: "owns l ?s" using c'(7) by (simp add: owns_def)
  have "spares a s ?s" by (rule spares_same) simp_all
  then have sp: "spares a (focus l M) ?s" using spares_trans c'(6) by blast
  have cl: "conn_loop c' = l" using c'(4) c(2) by (simp add: same_id_def)
  have "watched_as ?M' a c' ch'"
  proof -
    have "conn_at ?s a c' ch' = conn_at s a c' ch'" by (rule conn_at_cong) simp_all
    then show ?thesis using c'(1,2) cl by (simp add: watched_as_def conn_at_after [OF own])
  qed
  moreover have "notices ?M' l a = (0, 0, 0)"
  proof -
    have "l \<noteq> base_of M" using i(11) [OF c(1)] c(2) by simp
    moreover have "queued j ?M' = (if j = l then fs else taken M j) @ pendingFunctors (slices M j) @ (if j = l then ws else [])" for j
      using pm(1) ws more by (simp add: mail_for_def)
    ultimately show ?thesis using ph c(2) t more(4) count_done [OF ws(2)] by (simp add: notices_def queued_def [of _ M])
  qed
  ultimately have ph': "in_phase ?M' a c' Live" using ph c' cl more(1) by (auto simp: in_map_def)
  show ?thesis
  proof (rule step_inv [OF inv c(1) _ _ sp own _ _ _ _ _ _ _ _ _ _ _ _ ph'])
    show "poll_wf ?s" using c'(1) poll_cong(1) [of ?s s] by (simp add: conn_at_def)
    show "loopId ?s = l" "conns ?s a = Some c'" "same_id c c'" using c'(4,5,8) by simp_all
    show "sorted_wrt (<) (map fst (connections ?s))" "set (connections ?s) \<subseteq> set (connections (common M))"
      using more(1) names_okD(2) [OF i(7)] by simp_all
    show "b' \<in> snd ` set (connections ?s) \<longleftrightarrow> in_map M b'" for b' using more(1) by (simp add: in_map_def)
    show "same_mail a M ?M'" using pm(2) ws more by simp
    show "g \<in> set (queued j M) \<or> addressed M j g" if "g \<in> set (queued j ?M')" for j g
      using pm(3) [of g j] that ws more c by auto
  qed (use more in simp_all)
qed

lemma done_inv:
  assumes inv: "life_inv M" and t: "taken M l = WriteComplete a # fs"
  shows "life_inv (after l ((focus l M)\<lparr>callingPendingFunctors := b\<rparr>) (M\<lparr>taken := (taken M)(l := fs)\<rparr>))"
    (is "life_inv ?M'")
proof (rule life_inv_cong [OF inv])
  note i = life_invD [OF inv]
  have own: "owns l ((focus l M)\<lparr>callingPendingFunctors := b\<rparr>)" using i(6) [of l] by (simp add: owns_def)
  show "store (slices ?M' j) = store (slices M j)" for j by (simp add: after_store [OF own])
  have "mail_for j ((focus l M)\<lparr>callingPendingFunctors := b\<rparr>) = []" for j using i(8) by (simp add: mail_for_def)
  then have q: "queued j ?M' = (if j = l then fs else taken M j) @ pendingFunctors (slices M j)" for j
    by (simp add: queued_after)
  show "set (queued j ?M') \<subseteq> set (queued j M)" for j using t by (auto simp: q queued_def [of _ M])
  show "filter is_notice (queued j ?M') = filter is_notice (queued j M)" for j
    using t by (simp add: q queued_def [of _ M] is_notice_def)
qed (use life_invD(8) [OF inv] in simp_all)

lemma run_next_inv:
  assumes inv: "life_inv M" and cb: "local_callback (io_connection E)" "quiet_when_down (io_connection E)"
    and pos: "possible (RunNext l) M" and run: "perform E (RunNext l) M = Inr M'"
  shows "life_inv M'"
proof -
  obtain f fs where t: "taken M l = f # fs" using pos by (cases "taken M l") auto
  let ?M1 = "M\<lparr>taken := (taken M)(l := fs)\<rparr>" and ?b = "fs \<noteq> []"
  have fo: "focus l ?M1 = focus l M" by (simp add: focus_def)
  obtain s where s: "run_functor (io_kernel E) (io_connection E) f (focus l M) = Inr s"
    and M': "M' = after l (s\<lparr>callingPendingFunctors := ?b\<rparr>) ?M1"
    using run t by (auto simp: in_thread_after fo)
  have "addressed M l f" using life_invD(9) [OF inv, of f l] t by (simp add: queued_def)
  then show ?thesis
  proof (cases f)
    case (ConnectEstablished a)
    with s t show ?thesis unfolding M' by (intro establish_inv [OF inv _ cb(1)]) auto
  next
    case (ConnectDestroyed a)
    with s destroy_inv [OF inv t [unfolded ConnectDestroyed] cb(2), of ?b] show ?thesis unfolding M' by auto
  next
    case (WriteComplete a)
    with s done_inv [OF inv t [unfolded WriteComplete], of ?b] show ?thesis unfolding M' by simp
  next
    case (RemoveConnectionInLoop a)
    then have l: "l = base_of M" using \<open>addressed M l f\<close> by simp
    from s remove_inv [OF inv t [unfolded RemoveConnectionInLoop l], of ?b] RemoveConnectionInLoop
    show ?thesis unfolding M' l by auto
  qed simp_all
qed

text \<open>The life of a connection never fails an assertion: taking it out of the map and destroying it always succeed.\<close>

lemma removal_runs:
  assumes inv: "life_inv M" and t: "taken M l = f # fs" and cb: "quiet_when_down (io_connection E)"
    and f: "f = RemoveConnectionInLoop a \<or> f = ConnectDestroyed a"
  shows "\<exists>M'. perform E (RunNext l) M = Inr M' \<and> life_inv M'
    \<and> stands M' a (if f = ConnectDestroyed a then Gone else Doomed)"
proof -
  let ?M1 = "M\<lparr>taken := (taken M)(l := fs)\<rparr>" and ?b = "fs \<noteq> []"
  have fo: "focus l ?M1 = focus l M" by (simp add: focus_def)
  have run: "perform E (RunNext l) M = in_thread l (\<lambda>s. res_bind (run_functor (io_kernel E) (io_connection E) f s)
      (\<lambda>s'. Inr (s'\<lparr>callingPendingFunctors := ?b\<rparr>))) ?M1" using t by simp
  have l: "addressed M l f" using life_invD(9) [OF inv, of f l] t by (simp add: queued_def)
  have "\<exists>s. run_functor (io_kernel E) (io_connection E) f (focus l M) = Inr s
      \<and> life_inv (after l (s\<lparr>callingPendingFunctors := ?b\<rparr>) ?M1)
      \<and> stands (after l (s\<lparr>callingPendingFunctors := ?b\<rparr>) ?M1) a (if f = ConnectDestroyed a then Gone else Doomed)"
  proof (cases "f = ConnectDestroyed a")
    case True
    show ?thesis using destroy_inv [OF inv t [unfolded True] cb, of ?b] unfolding True by simp
  next
    case False
    then have g: "f = RemoveConnectionInLoop a" using f by simp
    then have "l = base_of M" using l by simp
    with remove_inv [OF inv, of a fs ?b] t False show ?thesis unfolding g by simp
  qed
  then show ?thesis unfolding run in_thread_after fo by auto
qed

subsection \<open>Accepting a connection for another loop\<close>

definition io_channel :: "nat \<Rightarrow> nat \<Rightarrow> int \<Rightarrow> net_callback Channel" where
  "io_channel l a sockfd = (Channel_new l sockfd)\<lparr>readCallback := Some (ConnRead a), writeCallback := Some (ConnWrite a),
     closeCallback := Some (ConnClose a), errorCallback := Some (ConnError a)\<rparr>"

lemma io_channel_fields [simp]:
  "loopOf (io_channel l a f) = l" "fd (io_channel l a f) = f" "index (io_channel l a f) < 0"
  "bound_channel a (io_channel l a f)"
  by (simp_all add: io_channel_def Channel_new_def bound_channel_def)

lemma getNextLoop_run:
  assumes "loops p \<noteq> []" and "pool_wf p"
  obtains l p' where "getNextLoop p = Inr (l, p')" and "l \<in> set (loops p)" and "loops p' = loops p"
    and "baseLoop p' = baseLoop p" and "pool_wf p'"
proof -
  have "0 \<le> next_index p" "next_index p < int (length (loops p))" using assms by (simp_all add: pool_wf_def)
  then show thesis
    using assms(1) that [of "loops p ! nat (next_index p)"
        "p\<lparr>next_index := (if next_index p + 1 \<ge> int (length (loops p)) then 0 else next_index p + 1)\<rparr>"]
    by (auto simp: getNextLoop_def Let_def pool_wf_def)
qed

lemma accept_run:
  assumes inv: "life_inv M" and run: "newConnection cb (a, ch) sockname sockfd peer (focus (base_of M) M) = Inr s"
  obtains l c where "l \<in> set (loops (pool (common M)))" and "nextConnId (common M) < 2147483647"
    and "store s = (store (slices M (base_of M)))(ch \<mapsto> io_channel l a sockfd)"
    and "pollfds s = pollfds (slices M (base_of M))" and "channels s = channels (slices M (base_of M))"
    and "loopId s = base_of M" and "pendingFunctors s = pendingFunctors (slices M (base_of M))"
    and "conns s = (conns (common M))(a \<mapsto> c)" and "posted s = [(l, ConnectEstablished a)]"
    and "connections s = map_put (conn_name c) a (connections (common M))" and "nextConnId s = nextConnId (common M) + 1"
    and "server_name s = server_name (common M)" and "loops (pool s) = loops (pool (common M))"
    and "baseLoop (pool s) = base_of M" and "pool_wf (pool s)"
    and "conn_name c = connection_name (server_name (common M)) (nextConnId (common M))" and "conn_loop c = l"
    and "channel c = ch" and "socket c = sockfd" and "state c = kConnecting"
    and "buf_wf (inputBuffer c)" and "buf_wf (outputBuffer c)"
proof -
  note i = life_invD [OF inv]
  obtain l p' where g: "getNextLoop (pool (common M)) = Inr (l, p')" "l \<in> set (loops (pool (common M)))"
      "loops p' = loops (pool (common M))" "baseLoop p' = base_of M" "pool_wf p'"
    using getNextLoop_run [OF i(1,3)] .
  let ?s0 = "focus (base_of M) M"
  let ?n = "connection_name (server_name (common M)) (nextConnId (common M))"
  let ?c = "(TcpConnection_new l ?n sockfd ch (fst (getLocalAddr sockname)) peer)\<lparr>writeCompleteCallback := hasWriteComplete (common M)\<rparr>"
  have ne: "l \<noteq> base_of M" using g(2) i(2) by auto
  have id: "nextConnId (common M) < 2147483647" and s: "s = ?s0\<lparr>nextConnId := nextConnId (common M) + 1, pool := p',
      store := (store ?s0)(ch \<mapsto> io_channel l a sockfd), conns := (conns ?s0)(a \<mapsto> ?c),
      connections := map_put ?n a (connections ?s0), posted := [(l, ConnectEstablished a)]\<rparr>"
    using run g(1) ne i(5,8) by (auto simp: newConnection_def int_inc_def TcpConnection_ctor_def with_conn_def run_in_def
        set_conn_def io_channel_def Let_def split: if_splits)
  show thesis
    by (rule that [OF g(2) id, of ?c]) (use g i(5) in \<open>simp_all add: s TcpConnection_new_def buf_wf_new\<close>)
qed

end
