(* ===== verification/Io_Serve.thy ===== *)
theory Io_Serve
  imports Io_Run
begin

section \<open>Serving with several loop threads\<close>

text \<open>
  Accepting a connection keeps the invariant of the theory \<open>Io_Life\<close>, so every schedule of steps
  does; \<open>TcpServer::start\<close> with a positive number of threads sets it up.  The theorems about
  whole runs stand at the end, with a run that accepts a client, opens the connection in its
  loop, greets the client, sees it hang up and takes it down between the two loops.
\<close>

subsection \<open>Accepting keeps the invariant\<close>

lemma in_phase_transfer:
  assumes "in_phase M b c p" and "in_map M' b = in_map M b" and "notices M' (conn_loop c) b = notices M (conn_loop c) b"
    and "\<And>ch. conn_at (focus (conn_loop c) M) b c ch \<Longrightarrow> conn_at (focus (conn_loop c) M') b c ch"
    and "store (slices M' (conn_loop c)) (channel c) = store (slices M (conn_loop c)) (channel c)"
    and "channels (slices M' (conn_loop c)) = channels (slices M (conn_loop c))"
  shows "in_phase M' b c p"
proof -
  have w: "watched_as M' b c ch" if "watched_as M b c ch" for ch using that assms(4) by (simp add: watched_as_def)
  show ?thesis
  proof (cases p)
    case Embryo
    with assms show ?thesis by (simp add: unborn_def)
  next
    case Gone
    with assms show ?thesis by simp
  qed (use assms(1-3) w in auto)
qed

lemma names_okI:
  assumes "1 \<le> nextConnId s" and "sorted_wrt (<) (map fst (connections s))"
    and "\<And>n a. (n, a) \<in> set (connections s) \<Longrightarrow> \<exists>c. conns s a = Some c \<and> conn_name c = n"
    and "\<And>a c. conns s a = Some c \<Longrightarrow> \<exists>i. 1 \<le> i \<and> i < nextConnId s \<and> conn_name c = connection_name (server_name s) i"
    and "\<And>a b c d. conns s a = Some c \<Longrightarrow> conns s b = Some d \<Longrightarrow> a \<noteq> b \<Longrightarrow> conn_name c \<noteq> conn_name d \<and> channel c \<noteq> channel d
        \<and> (state c \<noteq> kDisconnected \<longrightarrow> state d \<noteq> kDisconnected \<longrightarrow> socket c \<noteq> socket d)"
  shows "names_ok s"
  unfolding names_ok_def using assms(1,2) by (intro conjI allI impI ballI) (use assms(3-5) in \<open>auto\<close>)

lemma new_name:
  assumes nm: "names_ok s" and id: "nextConnId s < 2147483647"
  shows "conns s b = Some d \<Longrightarrow> conn_name d \<noteq> connection_name (server_name s) (nextConnId s)"
    and "connection_name (server_name s) (nextConnId s) \<notin> fst ` set (connections s)"
proof -
  note n = names_okD [OF nm]
  show new: "conn_name d \<noteq> connection_name (server_name s) (nextConnId s)" if d: "conns s b = Some d" for b d
  proof -
    obtain i where i: "1 \<le> i" "i < nextConnId s" "conn_name d = connection_name (server_name s) i" using n(4) [OF d] by blast
    have "connection_name (server_name s) i \<noteq> connection_name (server_name s) (nextConnId s)"
      using connection_name_inject [of i "nextConnId s" "server_name s"] i(1,2) id by simp
    with i(3) show ?thesis by simp
  qed
  show "connection_name (server_name s) (nextConnId s) \<notin> fst ` set (connections s)"
  proof
    assume "connection_name (server_name s) (nextConnId s) \<in> fst ` set (connections s)"
    then obtain b where "(connection_name (server_name s) (nextConnId s), b) \<in> set (connections s)" by auto
    then show False using n(3) new by blast
  qed
qed

lemma names_grow:
  assumes nm: "names_ok s" and fresh: "conns s a = None" and id: "nextConnId s < 2147483647"
    and s': "conns s' = (conns s)(a \<mapsto> c)" "connections s' = map_put (conn_name c) a (connections s)"
      "nextConnId s' = nextConnId s + 1" "server_name s' = server_name s"
    and c: "conn_name c = connection_name (server_name s) (nextConnId s)"
    and dist: "\<And>b d. conns s b = Some d \<Longrightarrow> channel d \<noteq> channel c \<and> (state d \<noteq> kDisconnected \<longrightarrow> socket d \<noteq> socket c)"
  shows "names_ok s'" and "set (connections s') = insert (conn_name c, a) (set (connections s))"
proof -
  note n = names_okD [OF nm]
  note new = new_name(1) [OF nm id, folded c]
  have "conn_name c \<notin> fst ` set (connections s)" using new_name(2) [OF nm id] c by simp
  then show m: "set (connections s') = insert (conn_name c, a) (set (connections s))" unfolding s'(2) by (rule map_put_set)
  show "names_ok s'"
  proof (rule names_okI)
    show "1 \<le> nextConnId s'" using n(1) s'(3) by simp
    show "sorted_wrt (<) (map fst (connections s'))" unfolding s'(2) by (rule map_put_sorted [OF n(2)])
    show "\<exists>d. conns s' b = Some d \<and> conn_name d = k" if "(k, b) \<in> set (connections s')" for k b
      using that m n(3) [of k b] fresh s'(1) by (cases "b = a") auto
    show "\<exists>i. 1 \<le> i \<and> i < nextConnId s' \<and> conn_name d = connection_name (server_name s') i" if d: "conns s' b = Some d" for b d
    proof (cases "b = a")
      case True
      with d s'(1) c n(1) show ?thesis by (intro exI [of _ "nextConnId s"]) (simp add: s'(3,4))
    next
      case False
      then obtain i where "1 \<le> i" "i < nextConnId s" "conn_name d = connection_name (server_name s) i"
        using n(4) [of b d] d s'(1) by auto
      then show ?thesis by (intro exI [of _ i]) (simp add: s'(3,4))
    qed
    have one: "conn_name d \<noteq> conn_name c \<and> channel d \<noteq> channel c \<and> (state d \<noteq> kDisconnected \<longrightarrow> socket d \<noteq> socket c)"
      if "conns s' b = Some d" "b \<noteq> a" for b d
      using that new [of b d] dist [of b d] unfolding s'(1) by simp
    fix b b2 d e assume d: "conns s' b = Some d" "conns s' b2 = Some e" "b \<noteq> b2"
    consider "b = a" | "b2 = a" "b \<noteq> a" | "b \<noteq> a" "b2 \<noteq> a" using d(3) by blast
    then show "conn_name d \<noteq> conn_name e \<and> channel d \<noteq> channel e
      \<and> (state d \<noteq> kDisconnected \<longrightarrow> state e \<noteq> kDisconnected \<longrightarrow> socket d \<noteq> socket e)"
    proof cases
      case 1
      then have "d = c" using d(1) s'(1) by simp
      with one [OF d(2)] 1 d(3) show ?thesis by metis
    next
      case 2
      then have "e = c" using d(2) s'(1) by simp
      with one [OF d(1)] 2 show ?thesis by blast
    next
      case 3
      with d s'(1) n(5) [of b d b2 e] show ?thesis by simp
    qed
  qed
qed

lemma after_ctor_store:
  assumes own: "owns l0 (slices M l0)" and fresh: "\<And>i. store (slices M i) ch = None" and l: "loopOf k = l" "l \<noteq> l0"
    and s: "store s = (store (slices M l0))(ch \<mapsto> k)"
  shows "store (slices (after l0 s M) i) = (if i = l then (store (slices M i))(ch \<mapsto> k) else store (slices M i))"
proof
  fix n
  show "store (slices (after l0 s M) i) n = (if i = l then (store (slices M i))(ch \<mapsto> k) else store (slices M i)) n"
    using own l s fresh [of i]
    by (cases "n = ch"; cases "store (slices M l0) n")
      (auto simp: after_def deliver_def unfocus_def owned_store_def owns_def)
qed

lemma accept_loops:
  assumes inv: "life_inv M" and fresh: "\<And>i. store (slices M i) ch = None" and k: "loopOf k = l" "l \<noteq> base_of M"
    and s: "store s = (store (slices M (base_of M)))(ch \<mapsto> k)" "pollfds s = pollfds (slices M (base_of M))"
      "channels s = channels (slices M (base_of M))" "loopId s = base_of M"
      "loops (pool s) = loops (pool (common M))" "baseLoop (pool s) = base_of M" "pool_wf (pool s)"
  shows "loops_ok (after (base_of M) s M)" (is "loops_ok ?M'")
    and "store (slices (after (base_of M) s M) i) = (if i = l then (store (slices M i))(ch \<mapsto> k) else store (slices M i))"
proof -
  note i = life_invD [OF inv]
  show st: "store (slices ?M' j) = (if j = l then (store (slices M j))(ch \<mapsto> k) else store (slices M j))" for j
    by (rule after_ctor_store [OF i(6) fresh k s(1)])
  have "poll_wf (slices ?M' j)" for j
  proof (cases "j = l")
    case True
    have "poll_wf (slices ?M' j) = poll_wf ((slices M j)\<lparr>store := (store (slices M j))(ch \<mapsto> k)\<rparr>)"
      by (rule poll_cong(1)) (use k(2) in \<open>simp_all add: st True\<close>)
    then show ?thesis using poll_wf_alloc [OF i(4) fresh] by simp
  next
    case False
    have "poll_wf (slices ?M' j) = poll_wf (slices M j)" by (rule poll_cong(1)) (use s(2,3) False in \<open>simp_all add: st\<close>)
    with i(4) show ?thesis by simp
  qed
  moreover have "owns j (slices ?M' j)" for j using i(6) [of j] k(1) by (simp add: st owns_def)
  ultimately show "loops_ok ?M'" using i(1,2,5) s(4-7) by (simp add: loops_ok_def Let_def)
qed

lemma no_mail:
  assumes "life_inv M" and "conns (common M) a = None" and "about g = Some a"
  shows "count_list (queued j M) g = 0"
  using life_invD(9) [OF assms(1), of g j] assms(2,3) by (cases g) (auto simp: count_list_0_iff)

lemma accept_others:
  assumes inv: "life_inv M" and b: "conns (common M) b = Some d" "channel d \<noteq> ch" "b \<noteq> a"
    and lo: "loops_ok M'" and st: "\<And>j. store (slices M' j) = (if j = l then (store (slices M j))(ch \<mapsto> k) else store (slices M j))"
    and sl: "channels (slices M' (conn_loop d)) = channels (slices M (conn_loop d))"
    and co: "conns (common M') b = Some d" "in_map M' b = in_map M b" "notices M' (conn_loop d) b = notices M (conn_loop d) b"
  shows "\<exists>q. in_phase M' b d q"
proof -
  obtain q where q: "in_phase M b d q" using life_invD(12) [OF inv b(1)] by blast
  have wf: "poll_wf (slices M' j) \<and> loopId (slices M' j) = j" for j using lo by (simp add: loops_ok_def)
  have at: "conn_at (focus (conn_loop d) M') b d x" if "conn_at (focus (conn_loop d) M) b d x" for x
    using that wf [of "conn_loop d"] poll_cong(1) [of "focus (conn_loop d) M'" "slices M' (conn_loop d)"] b co(1)
    by (auto simp: conn_at_def attached_def st sl)
  have "in_phase M' b d q"
    by (rule in_phase_transfer [OF q co(2,3) at]) (use b(2) sl in \<open>simp_all add: st\<close>)
  then show ?thesis by blast
qed

lemma accept_inv:
  assumes inv: "life_inv M" and pos: "possible (Accepted addrs sockname sockfd peer) M"
    and run: "perform E (Accepted addrs sockname sockfd peer) M = Inr M'"
  shows "life_inv M'"
proof -
  obtain a ch where ad: "addrs = (a, ch)" by (cases addrs)
  let ?l0 = "base_of M"
  note i = life_invD [OF inv] and nm = names_okD [OF life_invD(7) [OF inv]]
  have p: "0 \<le> sockfd" "conns (common M) a = None" "\<And>j. store (slices M j) ch = None" "\<And>j. channels (slices M j) sockfd = None"
    "\<And>b d. conns (common M) b = Some d \<Longrightarrow> channel d \<noteq> ch \<and> (state d \<noteq> kDisconnected \<longrightarrow> socket d \<noteq> sockfd)"
    using pos ad by auto
  obtain s where r: "newConnection (io_connection E) (a, ch) sockname sockfd peer (focus ?l0 M) = Inr s"
    and M': "M' = after ?l0 s M" using run ad by (auto simp: in_thread_after)
  obtain l c where s: "l \<in> set (loops (pool (common M)))" "nextConnId (common M) < 2147483647"
      "store s = (store (slices M ?l0))(ch \<mapsto> io_channel l a sockfd)"
      "pollfds s = pollfds (slices M ?l0)" "channels s = channels (slices M ?l0)"
      "loopId s = ?l0" "pendingFunctors s = pendingFunctors (slices M ?l0)"
      "conns s = (conns (common M))(a \<mapsto> c)" "posted s = [(l, ConnectEstablished a)]"
      "connections s = map_put (conn_name c) a (connections (common M))" "nextConnId s = nextConnId (common M) + 1"
      "server_name s = server_name (common M)" "loops (pool s) = loops (pool (common M))"
      "baseLoop (pool s) = ?l0" "pool_wf (pool s)"
    and c: "conn_name c = connection_name (server_name (common M)) (nextConnId (common M))" "conn_loop c = l"
      "channel c = ch" "socket c = sockfd" "state c = kConnecting" "buf_wf (inputBuffer c)" "buf_wf (outputBuffer c)"
    using accept_run [OF inv r] .
  have ne: "l \<noteq> ?l0" using s(1) i(2) by auto
  have lo: "loops_ok M'"
    and st: "store (slices M' j) = (if j = l then (store (slices M j))(ch \<mapsto> io_channel l a sockfd) else store (slices M j))" for j
    unfolding M' using accept_loops [OF inv p(3) io_channel_fields(1) ne s(3-6,13-15)] by blast+
  have f: "pollfds (slices M' j) = pollfds (slices M j)" "channels (slices M' j) = channels (slices M j)"
    "loopId (slices M' j) = j" "taken M' = taken M" "base_of M' = ?l0" "posted (common M') = []"
    "queued j M' = queued j M @ (if j = l then [ConnectEstablished a] else [])" for j
    unfolding M' using s(4-7,9,14) i(5) [of j] by (simp_all add: queued_def mail_for_def)
  have ng: "names_ok s" "set (connections s) = insert (conn_name c, a) (set (connections (common M)))"
    using names_grow [OF i(7) p(2) s(2) s(8,10-12) c(1)] p(5) c(3,4) by simp_all
  then have nm': "names_ok (common M')" by (simp add: M' names_ok_def)
  have co: "conns (common M') = (conns (common M))(a \<mapsto> c)" using s(8) by (simp add: M')
  have im: "in_map M' b \<longleftrightarrow> b = a \<or> in_map M b" for b using ng(2) by (auto simp: M' in_map_def)
  note quiet = no_mail [OF inv p(2)]
  have adr: "addressed M' j g" if "g \<in> set (queued j M')" for j g
  proof (cases "g \<in> set (queued j M)")
    case True
    show ?thesis by (rule addressed_cong [OF i(9) [OF True] f(5)]) (auto simp: co p(2))
  next
    case False
    with that show ?thesis using co c(2) by (auto simp: f(7) split: if_splits)
  qed
  have new: "in_phase M' a c Embryo"
    using c ne p(1,4) by (auto simp: im notices_def f(2,5,7) quiet unborn_def st)
  have old: "\<exists>q. in_phase M' b d q" if b: "b \<noteq> a" "conns (common M) b = Some d" for b d
    by (rule accept_others [OF inv b(2) _ b(1) lo st])
      (use p(5) [OF b(2)] b in \<open>simp_all add: co im notices_def f(2,5,7)\<close>)
  have "conn_loop d \<in> set (loops (pool (common M'))) \<and> (\<exists>q. in_phase M' b d q)" if d: "conns (common M') b = Some d" for b d
    using d new old [of b d] s(1,13) c(2) i(10) [of b d] unfolding co by (cases "b = a") (auto simp: M' simp del: in_phase.simps)
  with lo nm' adr f(6) show ?thesis unfolding life_inv_def by blast
qed


subsection \<open>Every step, and every schedule\<close>

text \<open>
  What is asked of the surroundings: \<open>readv(2)\<close> returns what fits its two blocks, the callbacks
  work on their own connection, and the connection callback does not complain about one that is
  down.
\<close>

definition env_ok :: "io_env \<Rightarrow> bool" where
  "env_ok E \<longleftrightarrow> reads_fit (io_kernel E) \<and> local_callback (io_connection E) \<and> local_callback (io_message E)
     \<and> quiet_when_down (io_connection E)"

lemma perform_inv:
  assumes "env_ok E" and "life_inv M" and "possible x M" and "perform E x M = Inr M'"
  shows "life_inv M'"
proof (cases x)
  case (Accepted addrs sockname sockfd peer)
  then show ?thesis using accept_inv assms(2-4) by blast
next
  case (Dispatch a revt)
  then show ?thesis using dispatch_inv assms unfolding env_ok_def by blast
next
  case (Swap l)
  then show ?thesis using swap_inv assms(2-4) by blast
next
  case (RunNext l)
  then show ?thesis using run_next_inv assms unfolding env_ok_def by blast
qed

lemma run_inv:
  assumes "env_ok E" and "life_inv M" and "schedule E xs M" and "run_actions E xs M = Inr M'"
  shows "life_inv M'"
  using assms(2-)
proof (induction xs arbitrary: M)
  case Nil
  then show ?case by simp
next
  case (Cons x xs)
  then obtain M1 where M1: "perform E x M = Inr M1" "run_actions E xs M1 = Inr M'" by auto
  then show ?case using Cons.IH [of M1] Cons.prems perform_inv [OF assms(1), of M x M1] by simp
qed

subsection \<open>Starting the server with threads\<close>

text \<open>
  \<open>setThreadNum\<close> and \<open>start\<close> in the acceptor's loop \<open>s\<close>; \<open>idle l\<close> is the loop that the pool's
  thread has made at \<open>l\<close>.
\<close>

definition launch :: "(nat \<Rightarrow> nat) \<Rightarrow> int \<Rightarrow> nat \<Rightarrow> int \<Rightarrow> string \<Rightarrow> (nat \<Rightarrow> (net_callback, net_functor) loop_state) \<Rightarrow>
    server_state \<Rightarrow> machine res" where
  "launch startLoop threads ch sockfd name idle s =
     res_bind (TcpServer_setThreadNum threads (TcpServer_ctor ch sockfd name s)) (\<lambda>s1.
     res_bind (TcpServer_start startLoop True s1) (\<lambda>s2.
       Inr \<lparr>slices = idle(loopId s := loop_state.truncate s2), common = s2, taken = (\<lambda>_. [])\<rparr>))"

definition idle_loop :: "nat \<Rightarrow> ('cb, 'fn, 'm) loop_state_scheme \<Rightarrow> bool" where
  "idle_loop l s \<longleftrightarrow> poll_wf s \<and> loopId s = l \<and> owns l s \<and> pendingFunctors s = []"

definition fresh_server :: "nat \<Rightarrow> int \<Rightarrow> server_state \<Rightarrow> bool" where
  "fresh_server ch sockfd s \<longleftrightarrow> idle_loop (loopId s) s \<and> conns s = Map.empty \<and> posted s = []
     \<and> store s ch = None \<and> channels s sockfd = None \<and> 0 \<le> sockfd"

lemma launch_inv:
  assumes s: "fresh_server ch sockfd s" and n: "0 < threads" and io: "\<forall>l. idle_loop l (idle l)" "\<forall>i. startLoop i \<noteq> loopId s"
  shows "\<exists>M. launch startLoop threads ch sockfd name idle s = Inr M \<and> life_inv M \<and> conns (common M) = Map.empty"
proof -
  let ?k = "(Channel_new (loopId s) sockfd)\<lparr>readCallback := Some AcceptRead\<rparr>"
  let ?p = "(setThreadNum threads (EventLoopThreadPool_new (loopId s)))\<lparr>started := True, loops := map startLoop [0 ..< nat threads]\<rparr>"
  let ?s1 = "s\<lparr>store := (store s)(ch \<mapsto> ?k), server_name := name, nextConnId := 1, connections := [],
      acceptChannel := ch, server_started := True, pool := ?p, listening := True\<rparr>"
  have f: "poll_wf s" "owns (loopId s) s" "pendingFunctors s = []" "conns s = Map.empty" "posted s = []"
    "store s ch = None" "channels s sockfd = None" "0 \<le> sockfd"
    using s by (simp_all add: fresh_server_def idle_loop_def)
  have "poll_wf ?s1" using poll_wf_alloc [OF f(1,6), of ?k] poll_cong(1) [of ?s1 "s\<lparr>store := (store s)(ch \<mapsto> ?k)\<rparr>"] by simp
  from setEvents_new [OF this, of ch ?k "\<lambda>c. events c OR kReadEvent"] f(7,8)
  obtain s2 where s2: "enableReading ch ?s1 = Inr s2" "poll_wf s2"
      "s2 = ?s1\<lparr>pollfds := pollfds ?s1 @ [\<lparr>pfd_fd = fd ?k, pfd_events = ucast (events ?k OR kReadEvent), pfd_revents = 0\<rparr>],
        store := (store ?s1)(ch \<mapsto> ?k\<lparr>events := events ?k OR kReadEvent, index := int (length (pollfds ?s1))\<rparr>),
        channels := (channels ?s1)(fd ?k \<mapsto> ch)\<rparr>"
    by (auto simp: enableReading_def Channel_new_def)
  let ?M = "\<lparr>slices = idle(loopId s := loop_state.truncate s2), common = s2, taken = (\<lambda>_. [])\<rparr>"
  have run: "launch startLoop threads ch sockfd name idle s = Inr ?M"
    using s2(1) n by (simp add: launch_def TcpServer_setThreadNum_def TcpServer_ctor_def TcpServer_start_def pool_start_def
        runInLoop_def Acceptor_listen_def setThreadNum_def EventLoopThreadPool_new_def pool_fold_loops)
  have g: "conns s2 = Map.empty" "posted s2 = []" "pool s2 = ?p" "connections s2 = []" "nextConnId s2 = 1"
    "pendingFunctors s2 = []" "loopId s2 = loopId s" "owns (loopId s) s2"
    using f by (auto simp: s2(3) owns_def Channel_new_def)
  have "poll_wf (loop_state.truncate s2)" using s2(2) poll_cong(1) [of "loop_state.truncate s2" s2] by simp
  moreover have "owns (loopId s) (loop_state.truncate s2)" using g(8) by (simp add: owns_def)
  ultimately have "loops_ok ?M"
    using io g(3,7) n by (auto simp: loops_ok_def Let_def idle_loop_def pool_wf_def setThreadNum_def EventLoopThreadPool_new_def)
  moreover have "queued l ?M = []" for l using io(1) g(6) by (simp add: queued_def idle_loop_def)
  ultimately have "life_inv ?M" using g by (simp add: life_inv_def names_ok_def)
  with run g(1) show ?thesis by simp
qed


text \<open>\<open>M\<close> is reached from the start of the server by the steps \<open>xs\<close>.\<close>

definition served :: "io_env \<Rightarrow> (nat \<Rightarrow> nat) \<Rightarrow> int \<Rightarrow> nat \<Rightarrow> int \<Rightarrow> string \<Rightarrow>
    (nat \<Rightarrow> (net_callback, net_functor) loop_state) \<Rightarrow> server_state \<Rightarrow> io_action list \<Rightarrow> machine \<Rightarrow> bool" where
  "served E startLoop threads ch sockfd name idle s xs M \<longleftrightarrow>
     fresh_server ch sockfd s \<and> 0 < threads \<and> (\<forall>l. idle_loop l (idle l)) \<and> (\<forall>i. startLoop i \<noteq> loopId s)
     \<and> (\<exists>M0. launch startLoop threads ch sockfd name idle s = Inr M0 \<and> schedule E xs M0 \<and> run_actions E xs M0 = Inr M)"

lemma served_inv:
  assumes "env_ok E" and "served E startLoop threads ch sockfd name idle s xs M"
  shows "life_inv M"
proof -
  obtain M0 where M0: "launch startLoop threads ch sockfd name idle s = Inr M0" "schedule E xs M0" "run_actions E xs M0 = Inr M"
    using assms(2) by (auto simp: served_def)
  obtain M1 where "launch startLoop threads ch sockfd name idle s = Inr M1" "life_inv M1"
    using launch_inv [of ch sockfd s threads idle startLoop name] assms(2) by (auto simp: served_def)
  with M0 show ?thesis using run_inv [OF assms(1)] by simp
qed

subsection \<open>The theorems\<close>




subsection \<open>A run\<close>

text \<open>
  The callbacks of an echo server that greets its clients, as the application greets them with
  its packet.
\<close>

definition greet :: "kernel \<Rightarrow> string \<Rightarrow> nat \<Rightarrow> server_state \<Rightarrow> server_state res" where
  "greet K p a = with_conn a (\<lambda>c s. if connected c then send K True p a s else Inr s)"

definition echo :: "kernel \<Rightarrow> nat \<Rightarrow> server_state \<Rightarrow> server_state res" where
  "echo K a = with_conn a (\<lambda>c s.
     let (m, ib) = retrieveAsString (inputBuffer c) in send K True m a (set_conn a (c\<lparr>inputBuffer := ib\<rparr>) s))"

lemma greet_local:
  assumes "length p \<le> vec_max"
  shows "local_callback (greet K p)" and "quiet_when_down (greet K p)"
proof -
  have "moves a c s s'" if c: "conn_at s a c ch" and run: "greet K p a s = Inr s'" for a s c ch s'
    using run send_moves [OF c assms] moves_refl [OF c]
    by (auto simp: greet_def conn_at_run [OF c] split: if_splits)
  then show "local_callback (greet K p)" unfolding local_callback_def using moves_glides by blast
  show "quiet_when_down (greet K p)"
    unfolding quiet_when_down_def greet_def by (simp add: with_conn_def connected_def)
qed

lemma echo_local: "local_callback (echo K)"
proof -
  have "moves a c s s'" if c: "conn_at s a c ch" and run: "echo K a s = Inr s'" for a s c ch s'
  proof -
    have wf: "buf_wf (inputBuffer c)" using c by (simp add: conn_at_def)
    let ?c = "c\<lparr>inputBuffer := snd (retrieveAsString (inputBuffer c))\<rparr>"
    let ?s = "set_conn a ?c s"
    have "length (readable (inputBuffer c)) \<le> vec_max" using wf by (auto simp: buf_wf_def readable_def)
    then have m: "length (fst (retrieveAsString (inputBuffer c))) \<le> vec_max" by (simp add: retrieveAsString_spec(1) [OF wf])
    have r: "send K True (fst (retrieveAsString (inputBuffer c))) a ?s = Inr s'"
      using run by (simp add: echo_def conn_at_run [OF c] split_def Let_def)
    have c1: "conn_at ?s a ?c ch"
      by (rule conn_at_local [OF c]) (use c retrieveAsString_spec(2) [OF wf] in \<open>simp_all add: set_conn_def conn_at_def\<close>)
    have "moves a c s ?s"
      by (rule moves_local [OF c, where c' = ?c]) (use c retrieveAsString_spec(2) [OF wf] in \<open>simp_all add: set_conn_def conn_at_def\<close>)
    then show ?thesis
    proof (rule moves_trans)
      fix c2 ch2 assume "conn_at ?s a c2 ch2"
      then have "c2 = ?c" by (simp add: conn_at_def set_conn_def)
      then show "moves a c2 ?s s'" using send_moves [OF c1 m r] by simp
    qed
  qed
  then show ?thesis unfolding local_callback_def using moves_glides by blast
qed

definition ex_kernel :: kernel where
  "ex_kernel = \<lparr>k_write = \<lambda>t f d. int (length d), k_readv = \<lambda>t f n. Inr []\<rparr>"

definition ex_env :: io_env where
  "ex_env = \<lparr>io_kernel = ex_kernel, io_connection = greet ex_kernel ''hi'', io_message = echo ex_kernel\<rparr>"

definition blank_loop :: "nat \<Rightarrow> (net_callback, net_functor) loop_state" where
  "blank_loop l = \<lparr>loopId = l, store = Map.empty, pollfds = [], channels = Map.empty, looping = False, quitFlag = False,
     callingPendingFunctors = False, pendingFunctors = [], wakeupCount = 0\<rparr>"

definition blank_server :: server_state where
  "blank_server = \<lparr>loopId = 1, store = Map.empty, pollfds = [], channels = Map.empty, looping = False, quitFlag = False,
     callingPendingFunctors = False, pendingFunctors = [], wakeupCount = 0, conns = Map.empty, calls = 0,
     wire = \<lambda>_. [], shut = \<lambda>_. False, server_name = [], server_started = False, nextConnId = 1, connections = [],
     pool = EventLoopThreadPool_new 1, acceptChannel = 0, listening = False, hasWriteComplete = False, posted = []\<rparr>"

definition ex_start_up :: "machine res" where
  "ex_start_up = launch (\<lambda>i. i + 10) 2 5 6 ''s'' blank_loop blank_server"


definition ex_base :: "(net_callback, net_functor) loop_state" where
  "ex_base = \<lparr>loopId = 1, store = [5 \<mapsto> \<lparr>eventHandling = False, loopOf = 1, fd = 6, events = 3, revents = 0, index = 0,
     readCallback = Some AcceptRead, writeCallback = None, errorCallback = None, closeCallback = None\<rparr>],
     pollfds = [\<lparr>pfd_fd = 6, pfd_events = 3, pfd_revents = 0\<rparr>], channels = [6 \<mapsto> 5], looping = False, quitFlag = False,
     callingPendingFunctors = False, pendingFunctors = [], wakeupCount = 0\<rparr>"

definition ex_net :: "string \<Rightarrow> (nat \<rightharpoonup> TcpConnection) \<Rightarrow> (string \<times> nat) list \<Rightarrow> int \<Rightarrow> (net_callback, net_functor) loop_state \<Rightarrow> server_state" where
  "ex_net w cs m i l = loop_state.extend l \<lparr>conns = cs, calls = (if w = [] then 0 else 1), wire = (if w = [] then (\<lambda>_. []) else (\<lambda>_. [])(20 := w)), shut = \<lambda>_. False,
     server_name = ''s'', server_started = True, nextConnId = i + 1, connections = m,
     pool = \<lparr>baseLoop = 1, started = True, numThreads = 2, next_index = i, loops = [10, 11]\<rparr>,
     acceptChannel = 5, listening = True, hasWriteComplete = False, posted = []\<rparr>"

definition ex_common :: server_state where
  "ex_common = ex_net [] Map.empty [] 0 ex_base"

definition ex_machine :: machine where
  "ex_machine = \<lparr>slices = blank_loop(1 := ex_base), common = ex_common, taken = \<lambda>_. []\<rparr>"

lemma upto2: "[0..<2] = [0, 1::nat]" by (simp add: upt_rec)
lemma ex_launch: "ex_start_up = Inr ex_machine"
  apply (simp add: ex_start_up_def launch_def blank_server_def TcpServer_setThreadNum_def TcpServer_ctor_def TcpServer_start_def pool_start_def
        runInLoop_def Acceptor_listen_def setThreadNum_def EventLoopThreadPool_new_def Let_def enableReading_def Channel_setEvents_def with_channel_def Channel_new_def
     EventLoop_updateChannel_def Poller_updateChannel_def event_consts ex_machine_def ex_base_def ex_common_def ex_net_def loop_state.defs pool_fold_loops upto2)
  done

definition ex_conn :: TcpConnection where
  "ex_conn = TcpConnection_new 10 ''s#1'' 20 50 sockaddr_zero sockaddr_zero"


definition ex_io :: "32 word \<Rightarrow> int \<Rightarrow> pollfd list \<Rightarrow> (int \<rightharpoonup> nat) \<Rightarrow> 32 word \<Rightarrow> (net_callback, net_functor) loop_state" where
  "ex_io ev i ps cs re = (blank_loop 10)\<lparr>store := [50 \<mapsto> (io_channel 10 40 20)\<lparr>events := ev, index := i, revents := re\<rparr>],
     pollfds := ps, channels := cs, wakeupCount := 1\<rparr>"

definition ex_machine_at :: "server_state \<Rightarrow> (net_callback, net_functor) loop_state \<Rightarrow> net_functor list \<Rightarrow> 
    (net_callback, net_functor) loop_state \<Rightarrow> net_functor list \<Rightarrow> machine" where
  "ex_machine_at s b fb io fio = \<lparr>slices = blank_loop(1 := b, 10 := io), common = s, taken = (\<lambda>_. [])(1 := fb, 10 := fio)\<rparr>"

definition ex_accepted :: machine where
  "ex_accepted = ex_machine_at (ex_net [] [40 \<mapsto> ex_conn] [(''s#1'', 40)] 1
       (ex_base\<lparr>store := (store ex_base)(50 \<mapsto> io_channel 10 40 20)\<rparr>)) ex_base [] 
      ((ex_io 0 (-1) [] Map.empty 0)\<lparr>pendingFunctors := [ConnectEstablished 40]\<rparr>) []"

definition ex_swapped :: machine where
  "ex_swapped = ex_machine_at (ex_net [] [40 \<mapsto> ex_conn] [(''s#1'', 40)] 1
       (ex_base\<lparr>store := (store ex_base)(50 \<mapsto> io_channel 10 40 20)\<rparr>)) ex_base [] 
      ((ex_io 0 (-1) [] Map.empty 0)\<lparr>callingPendingFunctors := True\<rparr>) [ConnectEstablished 40]"

definition ex_poll where "ex_poll = ex_io 3 0 [\<lparr>pfd_fd = 20, pfd_events = 3, pfd_revents = 0\<rparr>] [20 \<mapsto> 50] 0"

definition ex_open :: machine where
  "ex_open = ex_machine_at (ex_net ''hi'' [40 \<mapsto> ex_conn\<lparr>state := kConnected\<rparr>] [(''s#1'', 40)] 1 ex_poll) ex_base [] ex_poll []"

definition ex_hup where "ex_hup = ex_io 0 0 [\<lparr>pfd_fd = -21, pfd_events = 0, pfd_revents = 0\<rparr>] [20 \<mapsto> 50] POLLHUP"

definition ex_hung :: machine where
  "ex_hung = ex_machine_at (ex_net ''hi'' [40 \<mapsto> ex_conn\<lparr>state := kConnected\<rparr>] [(''s#1'', 40)] 1 ex_hup) 
     (ex_base\<lparr>pendingFunctors := [RemoveConnectionInLoop 40], wakeupCount := 1\<rparr>) [] ex_hup []"

definition ex_leaving :: machine where
  "ex_leaving = ex_machine_at (ex_net ''hi'' [40 \<mapsto> ex_conn\<lparr>state := kConnected\<rparr>] [(''s#1'', 40)] 1 ex_hup) 
     (ex_base\<lparr>wakeupCount := 1, callingPendingFunctors := True\<rparr>) [RemoveConnectionInLoop 40] ex_hup []"

lemmas ex_defs = ex_machine_def ex_common_def ex_net_def ex_base_def ex_io_def ex_poll_def ex_hup_def
  ex_machine_at_def ex_accepted_def ex_swapped_def ex_open_def ex_hung_def ex_leaving_def ex_conn_def TcpConnection_new_def
  loop_state.defs focus_def blank_loop_def io_channel_def Channel_new_def

lemma ex_new: "newConnection (io_connection ex_env) (40, 50) None 20 sockaddr_zero (focus 1 ex_machine) = Inr ((focus 1 ex_machine)\<lparr>nextConnId := 2,
     pool := (pool ex_common)\<lparr>next_index := 1\<rparr>,
      store := (store ex_base)(50 \<mapsto> io_channel 10 40 20), conns := [40 \<mapsto> ex_conn],
      connections := [(''s#1'', 40)], posted := [(10, ConnectEstablished 40)]\<rparr>)"
  by (simp add: newConnection_def int_inc_def getNextLoop_def Let_def ex_defs getLocalAddr_def
     TcpConnection_ctor_def with_conn_def set_conn_def run_in_def connection_name_def show_int_def show_nat.simps digit_char_def)

lemma ex_accept: "perform ex_env (Accepted (40, 50) None 20 sockaddr_zero) ex_machine = Inr ex_accepted"
proof -
  have b: "base_of ex_machine = 1" by (simp add: ex_defs)
  show ?thesis unfolding perform.simps b in_thread_def ex_new
    by (simp add: deliver_def unfocus_def fun_eq_iff posted_to_def owned_store_def ex_defs queueInLoop_def push_functor_def
        wakeup_def Let_def eventfd_max_def)
qed

lemma ex_swap: "perform ex_env (Swap 10) ex_accepted = Inr ex_swapped" "perform ex_env (Swap 1) ex_hung = Inr ex_leaving"
  by (simp_all add: ex_defs fun_eq_iff)

lemma ex_established: "connectEstablished (greet ex_kernel ''hi'') 40 (focus 10 ex_swapped)
    = Inr ((ex_net ''hi'' [40 \<mapsto> ex_conn\<lparr>state := kConnected\<rparr>] [(''s#1'', 40)] 1 ex_poll)\<lparr>callingPendingFunctors := True\<rparr>)"
proof -
  have new: "readableBytes Buffer_new = 0" by (simp add: readableBytes_def Buffer_new_def size_sub_def)
  show ?thesis
    apply (simp add: connectEstablished_def with_conn_def set_conn_def enableReading_def Channel_setEvents_def EventLoop_updateChannel_def
        Poller_updateChannel_def with_channel_def event_consts ex_defs)
    apply (simp add: greet_def with_conn_def connected_def send_def sendInLoop_def sys_write_def new
        c_strlen_prefix_def with_channel_def isWriting_def event_consts Let_def ex_kernel_def)
    done
qed

lemma ex_establish: "perform ex_env (RunNext 10) ex_swapped = Inr ex_open"
proof -
  let ?M = "ex_swapped\<lparr>taken := (taken ex_swapped)(10 := [])\<rparr>"
  have t: "taken ex_swapped 10 = [ConnectEstablished 40]" "focus 10 ?M = focus 10 ex_swapped" by (simp_all add: ex_defs)
  show ?thesis
    by (simp add: t in_thread_def ex_env_def ex_established)
      (simp add: deliver_def unfocus_def fun_eq_iff posted_to_def owned_store_def ex_defs)
qed

lemma ex_dispatch: "dispatch ex_env 40 POLLHUP (focus 10 ex_open)
    = Inr ((ex_net ''hi'' [40 \<mapsto> ex_conn\<lparr>state := kConnected\<rparr>] [(''s#1'', 40)] 1 ex_hup)\<lparr>posted := [(1, RemoveConnectionInLoop 40)]\<rparr>)"
  by (simp add: dispatch_def with_conn_def set_conn_def ex_env_def ex_kernel_def ex_defs with_channel_def handleEvent_def event_consts
      Let_def run_opt_def handleClose_def removeConnection_io_def run_in_def disableAll_def Channel_setEvents_def EventLoop_updateChannel_def
        Poller_updateChannel_def isNoneEvent_def kNoneEvent_def)

lemma ex_hangup: "perform ex_env (Dispatch 40 POLLHUP) ex_open = Inr ex_hung"
proof -
  have c: "conns (common ex_open) 40 = Some (ex_conn\<lparr>state := kConnected\<rparr>)" "conn_loop (ex_conn\<lparr>state := kConnected\<rparr>) = 10"
    by (simp_all add: ex_defs)
  show ?thesis unfolding perform.simps c option.case in_thread_def ex_dispatch
    by (simp add: deliver_def unfocus_def fun_eq_iff posted_to_def owned_store_def ex_defs queueInLoop_def push_functor_def
        wakeup_def Let_def eventfd_max_def)
qed

lemma ex_env_ok: "env_ok ex_env"
  by (simp add: env_ok_def ex_env_def reads_fit_def ex_kernel_def greet_local echo_local)

lemma ex_served:
  "served ex_env (\<lambda>i. i + 10) 2 5 6 ''s'' blank_loop blank_server
     [Accepted (40, 50) None 20 sockaddr_zero, Swap 10, RunNext 10] ex_open"
  "served ex_env (\<lambda>i. i + 10) 2 5 6 ''s'' blank_loop blank_server
     [Accepted (40, 50) None 20 sockaddr_zero, Swap 10, RunNext 10, Dispatch 40 POLLHUP, Swap 1] ex_leaving"
proof -
  have s: "fresh_server 5 6 blank_server" "\<forall>l. idle_loop l (blank_loop l)" "\<forall>i. i + 10 \<noteq> loopId blank_server"
    by (simp_all add: fresh_server_def idle_loop_def blank_server_def blank_loop_def poll_wf_def owns_def)
  have p: "possible (Accepted (40, 50) None 20 sockaddr_zero) ex_machine" "possible (Swap 10) ex_accepted"
    "possible (RunNext 10) ex_swapped" "possible (Dispatch 40 POLLHUP) ex_open" "possible (Swap 1) ex_hung"
    by (simp_all add: ex_defs attached_def plausible_def event_consts)
  note r = ex_accept ex_swap ex_establish ex_hangup
  show "served ex_env (\<lambda>i. i + 10) 2 5 6 ''s'' blank_loop blank_server
     [Accepted (40, 50) None 20 sockaddr_zero, Swap 10, RunNext 10] ex_open"
    using s p(1-3) r ex_launch unfolding served_def ex_start_up_def
    by (simp del: perform.simps possible.simps)
  show "served ex_env (\<lambda>i. i + 10) 2 5 6 ''s'' blank_loop blank_server
     [Accepted (40, 50) None 20 sockaddr_zero, Swap 10, RunNext 10, Dispatch 40 POLLHUP, Swap 1] ex_leaving"
    using s p r ex_launch unfolding served_def ex_start_up_def
    by (simp del: perform.simps possible.simps)
qed




end
