(* ===== verification/Spec2Isabelle.thy ===== *)
theory Spec2Isabelle
  imports Codec Transfer_Server Timer_Queue Async_Logging Process_Info Sync Loop_Timers Server_Run
    Socket_Table Loop_Thread Thread_Sends Io_Serve
begin

text \<open>
  The program is a small transfer server on top of a reactor library in the style of muduo.
  A \<open>TcpServer\<close> owns an \<open>Acceptor\<close>, a pool of loop threads and a map of connections; every
  socket is wrapped in a \<open>Channel\<close>, the \<open>Poller\<close> turns the answer of \<open>poll(2)\<close> into a list of
  active channels, and the \<open>EventLoop\<close> dispatches them, runs the functors that were queued
  and the timers that are due.  The application (\<open>src/test_multithreads.cc\<close>) greets a
  client with a packet, answers its first two messages with a cipher, and passes every
  later message on to the other registered clients.  All parts log through \<open>Logger\<close>, whose
  lines an \<open>AsyncLogging\<close> thread writes to rolling \<open>LogFile\<close>s.

  \<^bold>\<open>Conventions\<close> (theory \<open>Prelude\<close>).  A run that can end in a fault has the type \<open>'a res\<close>:
  \<open>Inl\<close> names the fault (a failing assertion, an uncaught exception, undefined behaviour) and
  \<open>Inr\<close> holds the result.  \<open>res_bind\<close> is the sequence of two such runs, \<open>assertR\<close> is
  \<open>assert\<close>, \<open>definedR\<close> marks what the C++ standard leaves undefined otherwise.  Unsigned
  64-bit arithmetic wraps around (\<open>size_add\<close>, \<open>size_sub\<close>), signed overflow is undefined
  (\<open>int_inc\<close>, \<open>int64\<close>), event masks, ports and atomic integers are words.  Objects reached
  through pointers live in maps from addresses; a pointer to nothing is a fault.  The
  answers of the kernel, the C library and the clock are parameters, by the number of the call.

  \<^bold>\<open>Theories and the code they model.\<close>
  \<^item> \<open>Net_Buffer\<close>: \<open>Buffer.h\<close>, \<open>Buffer.cpp\<close>.  The vector with its two indices; a locale of
    byte queues, interpreted on the buffer, and the refinement of a plain queue by every run.
  \<^item> \<open>Codec\<close>: \<open>codec.cpp\<close>.  \<open>parseMessage\<close> against a parser on byte lists, round trip, and
    independence of how the bytes arrive.
  \<^item> \<open>Register_Table\<close>, \<open>Cer_Packet\<close>: the application's table of clients and its packets.
  \<^item> \<open>Log_Stream\<close>, \<open>Logging\<close>, \<open>Civil_Time\<close>, \<open>Log_File\<close>, \<open>Async_Logging\<close>: formatting numbers
    and log lines, the calendar of \<open>gmtime_r\<close>, files that roll by size and by day, and the
    writer thread with its buffers in an explicit heap.  The lines in the files are the lines
    logged as long as no buffer overflows; what overflows do is shown separately.
  \<^item> \<open>Poller\<close>: \<open>Channel.cpp\<close>, \<open>Poller.cpp\<close>.  The invariant \<open>poll_wf\<close> ties the descriptor map,
    the poll array and the position cached in each channel together.
  \<^item> \<open>Event_Loop\<close>, \<open>Loop_Timers\<close>: \<open>EventLoop.cpp\<close>.  The loop, the functor queue and the event
    descriptor, with a step relation for the loop and other threads; the timer interface,
    the other ways a timer can be deleted and the destructor of the timer queue.
  \<^item> \<open>Timer_Queue\<close>: \<open>Timer.cpp\<close>, \<open>TimerQueue.cpp\<close>, \<open>Timestamp\<close>.  The invariant \<open>timer_inv\<close>
    and what one alarm does.
  \<^item> \<open>Thread_Pool\<close>, \<open>Sync\<close>: \<open>EventLoopThread.cpp\<close>, \<open>EventLoopThreadPool.cpp\<close>, \<open>Thread.cpp\<close>,
    \<open>Mutex.h\<close>, \<open>Condition\<close>, \<open>CountDownLatch.h\<close>, \<open>Atomic.h\<close>.  The hand-over of a loop between
    threads and the latch as step relations, the round-robin choice, atomic counters.
  \<^item> \<open>Loop_Thread\<close>: the end of an \<open>EventLoopThread\<close>, its destructor against the thread that
    enters \<open>loop()\<close>: a request to quit that comes too early is lost.
  \<^item> \<open>Inet_Address\<close>: \<open>InetAddress.cpp\<close>, \<open>SocketsOps\<close>, \<open>Socket.cpp\<close>.  Byte order, textual
    addresses, the errors of \<open>accept4(2)\<close>.
  \<^item> \<open>Socket_Table\<close>: \<open>SocketsOps.cpp\<close>, \<open>Socket.cpp\<close>, \<open>Acceptor.cpp\<close>.  The descriptors of the
    process with their flags, addresses and options, and what each wrapper does to them,
    up to the acceptor's listening socket.
  \<^item> \<open>Tcp_Connection\<close>, \<open>Tcp_Server\<close>, \<open>Transfer_Server\<close>: one connection as a byte stream with an
    orderly half-close, the server's map of connections and their two-stage removal (the
    invariant \<open>server_wf\<close>), and the callbacks of the application with \<open>main\<close>.
  \<^item> \<open>Thread_Sends\<close>: \<open>send\<close> called in other threads, whose messages wait in the functor
    queue of the connection's loop: one ordered stream as long as nobody shuts it down.
  \<^item> \<open>String_Piece\<close>, \<open>File_Util\<close>, \<open>Process_Info\<close>: the base library's text views, reading
    files and the information about the process.
  \<^item> \<open>Conn_Steps\<close>, \<open>Call_Count\<close>, \<open>Server_Pass\<close>, \<open>Server_Loop\<close>, \<open>Server_Run\<close>: the composition.
    What each handler of a connection does wherever it returns; that system calls are only
    ever counted up; the invariant \<open>app_inv\<close>, which binds every watched channel to its owner
    and is kept by every callback of the application; one pass of the loop with accepting and
    destroying connections; and \<open>main\<close> over any number of passes.
  \<^item> \<open>Io_Loops\<close>, \<open>Io_Life\<close>, \<open>Io_Run\<close>, \<open>Io_Serve\<close>: a server with several loop threads.  \<open>Io_Loops\<close>
    gives every loop its own poller, queue and channels and runs the handlers of the theories
    above in the thread they belong to; what they post reaches the other loops.  \<open>Io_Life\<close> has
    the invariant, the phases of a connection's life between the two loops it meets, and
    events; \<open>Io_Run\<close> the functors, \<open>Io_Serve\<close> accepting, \<open>start\<close> and every schedule of steps.

  \<^bold>\<open>Interfaces.\<close>  A locale states what a client needs of a component, its lemmas are proved
  once, and the component's theory interprets it on the code's model: the byte queue of the
  buffer, the poller as seen by the connections, the functor queue of the loop, the table of
  clients, the stream of a connection and its extension by posted messages, the queue of due
  timers, the buffer behind a log line, the output behind the log files.  Log levels are a
  linear order (\<open>severity\<close>).

  \<^bold>\<open>Loops.\<close>  Loops over data are structural or have a termination proof.  The loops that wait
  for the outside, \<open>EventLoop::loop\<close> and the writer thread of the log, take one answer
  of the outside per pass from a list; when the list is used up the loop is waiting for the
  next answer, so a statement about every list is one about every moment of a run.
  \<open>File::append\<close> and \<open>readToString\<close> end for every behaviour of the system calls.

  \<^bold>\<open>Not modelled.\<close>  \<open>Callbacks.h\<close>, \<open>TimerId.h\<close>, \<open>copyable.h\<close>, \<open>noncopyable.h\<close> and \<open>pubsub.h\<close>
  hold only type names or empty classes.  \<open>Timestamp::toString\<close> and \<open>toFormattedString\<close> pass
  arguments that do not fit their \<open>printf\<close> formats, which leaves the text undefined.
  \<open>convertHex\<close> has no return statement; its text is modelled and its length is not.  Reference
  counts (\<open>shared_ptr\<close>) are not modelled: a connection's object stays in its map of addresses.
  The application's callbacks are followed in the acceptor's loop, as \<open>main\<close> runs them without
  an argument; with loop threads the connections are followed under callbacks that work on
  their own connection, and one step, a handler or a functor, is atomic.  Log lines inside the networking code have no effect on its state and are
  left out there, except where a fatal line stands in for an abort.  That \<open>SIGPIPE\<close> is ignored
  appears only in the answers of \<open>write(2)\<close>, which are a parameter.  The process ids, user ids
  and host name of \<open>ProcessInfo\<close> are calls of the C library without any logic of the code.
\<close>

end
